(* ===== verification/Prelude.thy ===== *)
theory Prelude
  imports Main
begin

text \<open>
  Shared vocabulary of the development: the substrate's error type and the
  result type of \<open>src/src/lib.rs\<close>, the \<open>?\<close> operator as a bind on results,
  early-returning loops, and generic list lemmas.

  Rust's \<open>&str\<close> and \<open>&[u8]\<close> are both byte sequences here: a \<^typ>\<open>char\<close> of HOL is an
  8-bit value, so \<open>bytes\<close> and \<open>string\<close> are the same type and every length and
  offset counts bytes, as in Rust.  That a string is well-formed UTF-8 is the
  predicate \<open>from_utf8\<close> of theory \<open>Text\<close>.
\<close>

named_theorems tally_defs \<open>definitions unfolded by the witnesses\<close>

subsection \<open>Errors and results\<close>

type_synonym bytes = string

text \<open>
  The kinds of \<open>tally::Error\<close>.  The human-readable message each Rust
  constructor carries is diagnostic only and is not modelled.  \<open>Panic\<close> is no
  \<open>tally::Error\<close>: it stands for a thread that panics instead of returning (an
  index or capacity out of range).
\<close>

datatype error = Io | Corrupt | Invalid | Precondition | NeedsReenactment | Json | Panic

type_synonym 'a result = "error + 'a"

abbreviation Ok :: "'a \<Rightarrow> 'e + 'a" where "Ok \<equiv> Inr"
abbreviation Err :: "'e \<Rightarrow> 'e + 'a" where "Err \<equiv> Inl"

text \<open>The \<open>?\<close> operator: continue on \<open>Ok\<close>, return the error otherwise.\<close>

fun rbind :: "'e + 'a \<Rightarrow> ('a \<Rightarrow> 'e + 'b) \<Rightarrow> 'e + 'b" where
  "rbind (Inl e) f = Inl e"
| "rbind (Inr x) f = f x"

definition rmap :: "('a \<Rightarrow> 'b) \<Rightarrow> 'e + 'a \<Rightarrow> 'e + 'b" where
  "rmap f r = rbind r (\<lambda>x. Inr (f x))"

fun is_ok :: "'e + 'a \<Rightarrow> bool" where
  "is_ok (Inl _) = False"
| "is_ok (Inr _) = True"

text \<open>\<open>Option::ok_or\<close>.\<close>

fun ok_or :: "'e \<Rightarrow> 'a option \<Rightarrow> 'e + 'a" where
  "ok_or e None = Inl e"
| "ok_or e (Some x) = Inr x"

text \<open>A check that returns early with an error: \<open>if !c { return Err(e) }\<close>.\<close>

definition require :: "bool \<Rightarrow> 'e \<Rightarrow> 'e + unit" where
  "require c e = (if c then Inr () else Inl e)"

text \<open>A \<open>for\<close> loop over a list whose body may return early with an error.\<close>

fun rfold :: "('a \<Rightarrow> 's \<Rightarrow> 'e + 's) \<Rightarrow> 'a list \<Rightarrow> 's \<Rightarrow> 'e + 's" where
  "rfold f [] s = Inr s"
| "rfold f (x # xs) s = rbind (f x s) (rfold f xs)"

text \<open>Collecting an iterator of results into a result.\<close>

fun rmapM :: "('a \<Rightarrow> 'e + 'b) \<Rightarrow> 'a list \<Rightarrow> 'e + 'b list" where
  "rmapM f [] = Inr []"
| "rmapM f (x # xs) = rbind (f x) (\<lambda>y. rbind (rmapM f xs) (\<lambda>ys. Inr (y # ys)))"

lemma rbind_cong [fundef_cong]:
  "r = r' \<Longrightarrow> (\<And>x. r' = Inr x \<Longrightarrow> f x = g x) \<Longrightarrow> rbind r f = rbind r' g"
  by (cases r') auto

lemma rbind_eq_Inr [simp]:
  "rbind r f = Inr y \<longleftrightarrow> (\<exists>x. r = Inr x \<and> f x = Inr y)"
  by (cases r) auto

lemma rbind_eq_Inl:
  "rbind r f = Inl e \<longleftrightarrow> r = Inl e \<or> (\<exists>x. r = Inr x \<and> f x = Inl e)"
  by (cases r) auto

lemma rbind_assoc: "rbind (rbind r f) g = rbind r (\<lambda>x. rbind (f x) g)"
  by (cases r) auto

lemma rmap_simps [simp]: "rmap f (Inl e) = Inl e" "rmap f (Inr x) = Inr (f x)"
  by (simp_all add: rmap_def)

lemma rmap_eq_Inr [simp]: "rmap f r = Inr y \<longleftrightarrow> (\<exists>x. r = Inr x \<and> y = f x)"
  by (cases r) auto

lemma is_ok_iff: "is_ok r \<longleftrightarrow> (\<exists>x. r = Inr x)"
  by (cases r) auto

lemma ok_or_eq_Inr [simp]: "ok_or e r = Inr y \<longleftrightarrow> r = Some y"
  by (cases r) auto

lemma require_simps [simp]:
  "require True e = Inr ()" "require False e = Inl e"
  "require c e = Inr u \<longleftrightarrow> c" "require c e = Inl e' \<longleftrightarrow> \<not> c \<and> e' = e"
  by (auto simp: require_def)

lemma rfold_append: "rfold f (xs @ ys) s = rbind (rfold f xs s) (rfold f ys)"
proof (induction xs arbitrary: s)
  case (Cons x xs)
  then show ?case by (cases "f x s") auto
qed simp

lemma rfold_invariant:
  assumes "rfold f xs s = Inr s'" "P s"
    and "\<And>x s s'. x \<in> set xs \<Longrightarrow> P s \<Longrightarrow> f x s = Inr s' \<Longrightarrow> P s'"
  shows "P s'"
  using assms by (induction xs arbitrary: s) auto

text \<open>Steps that commute one with one commute run with run.\<close>

definition keeps :: "('s \<Rightarrow> bool) \<Rightarrow> ('s \<Rightarrow> 'e + 's) \<Rightarrow> bool" where
  "keeps P f \<longleftrightarrow> (\<forall>s s'. P s \<longrightarrow> f s = Inr s' \<longrightarrow> P s')"

definition commutes :: "('s \<Rightarrow> bool) \<Rightarrow> ('s \<Rightarrow> 'e + 's) \<Rightarrow> ('s \<Rightarrow> 'e + 's) \<Rightarrow> bool" where
  "commutes P f g \<longleftrightarrow> (\<forall>s s1 s2. P s \<longrightarrow> f s = Inr s1 \<longrightarrow> g s1 = Inr s2 \<longrightarrow>
     (\<exists>t. g s = Inr t \<and> f t = Inr s2))"

lemma keepsD: "keeps P f \<Longrightarrow> P s \<Longrightarrow> f s = Inr s' \<Longrightarrow> P s'"
  unfolding keeps_def by blast

lemma keeps_rfold: "(\<And>x. x \<in> set xs \<Longrightarrow> keeps P (f x)) \<Longrightarrow> keeps P (rfold f xs)"
  unfolding keeps_def using rfold_invariant by metis

lemma commutesD:
  "commutes P f g \<Longrightarrow> P s \<Longrightarrow> f s = Inr s1 \<Longrightarrow> g s1 = Inr s2 \<Longrightarrow> \<exists>t. g s = Inr t \<and> f t = Inr s2"
  by (simp add: commutes_def)

lemma commutes_rbind_right:
  assumes "commutes P f g" "commutes P f h" "keeps P g"
  shows "commutes P f (\<lambda>s. rbind (g s) h)"
  unfolding commutes_def
proof (intro allI impI)
  fix s s1 s2 assume s: "P s" "f s = Inr s1" "rbind (g s1) h = Inr s2"
  then obtain s3 where 3: "g s1 = Inr s3" "h s3 = Inr s2" by auto
  with commutesD [OF assms(1) s(1,2)] obtain t where t: "g s = Inr t" "f t = Inr s3" by blast
  with assms(3) s(1) have "P t" by (auto simp: keeps_def)
  with commutesD [OF assms(2) this t(2) 3(2)] t
  show "\<exists>t. rbind (g s) h = Inr t \<and> f t = Inr s2" by auto
qed

lemma commutes_rbind_left:
  assumes "commutes P g f" "commutes P h f" "keeps P g"
  shows "commutes P (\<lambda>s. rbind (g s) h) f"
  unfolding commutes_def
proof (intro allI impI)
  fix s s1 s2 assume s: "P s" "rbind (g s) h = Inr s1" "f s1 = Inr s2"
  then obtain s3 where 3: "g s = Inr s3" "h s3 = Inr s1" by auto
  with assms(3) s(1) have "P s3" by (auto simp: keeps_def)
  with commutesD [OF assms(2) this 3(2) s(3)] obtain t where t: "f s3 = Inr t" "h t = Inr s2" by blast
  with commutesD [OF assms(1) s(1) 3(1) t(1)]
  show "\<exists>t. f s = Inr t \<and> rbind (g t) h = Inr s2" by auto
qed

lemma commutes_Inr: "commutes P f Inr" "commutes P Inr f"
  by (auto simp: commutes_def)

lemma rfold_eta: "rfold f (x # xs) = (\<lambda>s. rbind (f x s) (rfold f xs))" "rfold f [] = Inr"
  by (simp_all add: fun_eq_iff)

lemma commutes_rfold_right:
  "(\<And>y. y \<in> set ys \<Longrightarrow> commutes P f (g y) \<and> keeps P (g y)) \<Longrightarrow> commutes P f (rfold g ys)"
  by (induction ys) (auto simp: rfold_eta commutes_Inr intro: commutes_rbind_right)

lemma commutes_rfold_left:
  "(\<And>x. x \<in> set xs \<Longrightarrow> commutes P (f x) g \<and> keeps P (f x)) \<Longrightarrow> commutes P (rfold f xs) g"
  by (induction xs) (auto simp: rfold_eta commutes_Inr intro: commutes_rbind_left)

lemma rfold_commute:
  assumes "\<And>x y. x \<in> set xs \<Longrightarrow> y \<in> set ys \<Longrightarrow> commutes P (f x) (g y)"
    "\<And>x. keeps P (f x)" "\<And>y. keeps P (g y)"
  shows "commutes P (rfold f xs) (rfold g ys)"
  using assms by (intro commutes_rfold_left conjI commutes_rfold_right) auto

lemma rfold_ok: "(\<And>x s. x \<in> set xs \<Longrightarrow> f x s = Inr (g x s)) \<Longrightarrow> rfold f xs s = Inr (fold g xs s)"
  by (induction xs arbitrary: s) auto

lemma rmapM_Inr_iff: "rmapM f xs = Inr ys \<longleftrightarrow> list_all2 (\<lambda>x y. f x = Inr y) xs ys"
  by (induction xs arbitrary: ys) (auto simp: list_all2_Cons1)

lemma rmapM_Inr_ex: "rmapM f xs = Inr ys \<Longrightarrow> x \<in> set xs \<Longrightarrow> \<exists>y \<in> set ys. f x = Inr y"
  by (induction xs arbitrary: ys) auto

lemma rmapM_Inr_from: "rmapM f xs = Inr ys \<Longrightarrow> y \<in> set ys \<Longrightarrow> \<exists>x \<in> set xs. f x = Inr y"
  by (induction xs arbitrary: ys) auto

lemma rmapM_ok: "(\<And>x. x \<in> set xs \<Longrightarrow> f x = Inr (g x)) \<Longrightarrow> rmapM f xs = Inr (map g xs)"
  by (induction xs) auto

lemma rmapM_append:
  "rmapM f (xs @ ys) = rbind (rmapM f xs) (\<lambda>as. rbind (rmapM f ys) (\<lambda>bs. Inr (as @ bs)))"
proof (induction xs)
  case Nil
  show ?case by (cases "rmapM f ys") auto
next
  case (Cons x xs)
  then show ?case
    by (cases "f x"; cases "rmapM f xs"; cases "rmapM f ys") auto
qed

subsection \<open>A format as an interface\<close>

text \<open>A writer and a reader that accepts what the writer wrote for a valid value.\<close>

locale codec =
  fixes enc :: "'a \<Rightarrow> 'b" and dec :: "'b \<Rightarrow> 'e + 'a" and valid :: "'a \<Rightarrow> bool"
  assumes dec_enc: "valid x \<Longrightarrow> dec (enc x) = Inr x"
begin

lemma enc_inj: "valid x \<Longrightarrow> valid y \<Longrightarrow> enc x = enc y \<longleftrightarrow> x = y"
  by (metis dec_enc sum.inject(2))

lemma dec_encs: "list_all valid xs \<Longrightarrow> rmapM dec (map enc xs) = Inr xs"
  by (induction xs) (simp_all add: dec_enc)

lemma enc_inj_list: "list_all valid xs \<Longrightarrow> list_all valid ys \<Longrightarrow> map enc xs = map enc ys \<longleftrightarrow> xs = ys"
  by (metis dec_encs sum.inject(2))

end

subsection \<open>Lists\<close>

text \<open>\<open>Iterator::position\<close> and \<open>rposition\<close>.\<close>

fun position :: "('a \<Rightarrow> bool) \<Rightarrow> 'a list \<Rightarrow> nat option" where
  "position P [] = None"
| "position P (x # xs) = (if P x then Some 0 else map_option Suc (position P xs))"

definition rposition :: "('a \<Rightarrow> bool) \<Rightarrow> 'a list \<Rightarrow> nat option" where
  "rposition P xs = map_option (\<lambda>i. length xs - Suc i) (position P (rev xs))"

lemma position_None_iff: "position P xs = None \<longleftrightarrow> (\<forall>x \<in> set xs. \<not> P x)"
  by (induction xs) auto

lemma position_SomeD:
  "position P xs = Some i \<Longrightarrow> i < length xs \<and> P (xs ! i) \<and> (\<forall>j < i. \<not> P (xs ! j))"
proof (induction xs arbitrary: i)
  case (Cons x xs)
  then show ?case
    by (auto split: if_splits simp: less_Suc_eq_0_disj)
qed simp

lemma position_Some_iff:
  "position P xs = Some i \<longleftrightarrow> i < length xs \<and> P (xs ! i) \<and> (\<forall>j < i. \<not> P (xs ! j))"
proof
  assume r: "i < length xs \<and> P (xs ! i) \<and> (\<forall>j < i. \<not> P (xs ! j))"
  then have "position P xs \<noteq> None"
    unfolding position_None_iff by (meson nth_mem)
  then obtain j where j: "position P xs = Some j" by auto
  from position_SomeD [OF j] r have "i = j"
    by (metis linorder_neqE_nat)
  with j show "position P xs = Some i" by simp
qed (rule position_SomeD)

lemma rposition_None_iff: "rposition P xs = None \<longleftrightarrow> (\<forall>x \<in> set xs. \<not> P x)"
  by (simp add: rposition_def position_None_iff)

lemma rposition_SomeD:
  assumes "rposition P xs = Some i"
  shows "i < length xs \<and> P (xs ! i) \<and> (\<forall>j. i < j \<longrightarrow> j < length xs \<longrightarrow> \<not> P (xs ! j))"
proof -
  from assms obtain k where k: "position P (rev xs) = Some k" "i = length xs - Suc k"
    by (auto simp: rposition_def)
  from position_SomeD [OF k(1)]
  have kl: "k < length xs" and pk: "P (rev xs ! k)" and nk: "\<And>j. j < k \<Longrightarrow> \<not> P (rev xs ! j)"
    by auto
  have "\<not> P (xs ! j)" if "i < j" "j < length xs" for j
  proof -
    from that k kl have "length xs - Suc j < k" by linarith
    from nk [OF this] that show ?thesis by (simp add: rev_nth)
  qed
  with k kl pk show ?thesis by (auto simp: rev_nth)
qed

lemma last_take_nth: "i < length xs \<Longrightarrow> last (take (Suc i) xs) = xs ! i"
  by (simp add: take_Suc_conv_app_nth)

end
