(* ===== verification/Text.thy ===== *)
theory Text
  imports Prelude
begin

text \<open>
  The operations of Rust's standard library on \<open>str\<close> and byte slices that the
  program uses: splitting, stripping, UTF-8 validity and character boundaries,
  decimal rendering and parsing.  Strings are byte sequences throughout.
\<close>

subsection \<open>Splitting and stripping\<close>

text \<open>\<open>str::split(c)\<close>: the pieces between the separators, never an empty list.\<close>

fun split_on :: "char \<Rightarrow> string \<Rightarrow> string list" where
  "split_on c [] = [[]]"
| "split_on c (x # xs) =
     (if x = c then [] # split_on c xs
      else (case split_on c xs of [] \<Rightarrow> [[x]] | y # ys \<Rightarrow> (x # y) # ys))"

text \<open>\<open>str::split_inclusive(c)\<close>: each piece keeps its terminator.\<close>

fun split_inclusive :: "char \<Rightarrow> string \<Rightarrow> string list" where
  "split_inclusive c [] = []"
| "split_inclusive c (x # xs) =
     (if x = c then [x] # split_inclusive c xs
      else (case split_inclusive c xs of [] \<Rightarrow> [[x]] | y # ys \<Rightarrow> (x # y) # ys))"

fun join :: "char \<Rightarrow> string list \<Rightarrow> string" where
  "join c [] = []"
| "join c [x] = x"
| "join c (x # xs) = x @ c # join c xs"

definition starts_with :: "string \<Rightarrow> string \<Rightarrow> bool" where
  "starts_with p s \<longleftrightarrow> take (length p) s = p"

definition ends_with :: "string \<Rightarrow> string \<Rightarrow> bool" where
  "ends_with p s \<longleftrightarrow> length p \<le> length s \<and> drop (length s - length p) s = p"

definition strip_prefix :: "string \<Rightarrow> string \<Rightarrow> string option" where
  "strip_prefix p s = (if starts_with p s then Some (drop (length p) s) else None)"

definition strip_suffix :: "string \<Rightarrow> string \<Rightarrow> string option" where
  "strip_suffix p s = (if ends_with p s then Some (take (length s - length p) s) else None)"

fun unwrap_or :: "'a \<Rightarrow> 'a option \<Rightarrow> 'a" where
  "unwrap_or d None = d"
| "unwrap_or d (Some x) = x"

text \<open>\<open>str::lines\<close>: pieces of \<open>split_inclusive\<close> less one LF, then less one CR.\<close>

definition chomp :: "string \<Rightarrow> string" where
  "chomp l = (case strip_suffix [CHR 0x0A] l of
      None \<Rightarrow> l
    | Some l' \<Rightarrow> unwrap_or l' (strip_suffix [CHR 0x0D] l'))"

definition lines :: "string \<Rightarrow> string list" where
  "lines s = map chomp (split_inclusive (CHR 0x0A) s)"

lemma split_on_nonempty [simp]: "split_on c s \<noteq> []"
  by (induction s) (auto split: list.splits)

lemma split_on_none: "c \<notin> set s \<Longrightarrow> split_on c s = [s]"
  by (induction s) auto

lemma split_on_piece: "c \<notin> set a \<Longrightarrow> split_on c (a @ c # b) = a # split_on c b"
  by (induction a) auto

lemma split_on_join: "join c (split_on c s) = s"
proof (induction s)
  case (Cons x xs)
  then show ?case
    by (cases "split_on c xs" rule: list.exhaust; cases "tl (split_on c xs)") auto
qed simp

lemma split_on_no_sep: "p \<in> set (split_on c s) \<Longrightarrow> c \<notin> set p"
proof (induction s arbitrary: p)
  case (Cons x xs)
  then show ?case by (cases "split_on c xs") (auto split: if_splits)
qed simp

lemma concat_split_inclusive [simp]: "concat (split_inclusive c s) = s"
  by (induction s) (auto split: list.splits)

lemma split_inclusive_nonempty: "p \<in> set (split_inclusive c s) \<Longrightarrow> p \<noteq> []"
  by (induction s arbitrary: p) (auto split: list.splits if_splits)

lemma split_inclusive_Nil_iff [simp]: "split_inclusive c s = [] \<longleftrightarrow> s = []"
  by (cases s) (auto split: list.splits)

lemma split_inclusive_piece:
  "c \<notin> set a \<Longrightarrow> split_inclusive c (a @ c # b) = (a @ [c]) # split_inclusive c b"
  by (induction a) auto

lemma split_inclusive_none: "c \<notin> set a \<Longrightarrow> a \<noteq> [] \<Longrightarrow> split_inclusive c a = [a]"
proof (induction a)
  case (Cons x xs)
  then show ?case by (cases xs) auto
qed simp

lemma split_inclusive_concat:
  "(\<And>p. p \<in> set ps \<Longrightarrow> c \<notin> set p) \<Longrightarrow>
   split_inclusive c (concat (map (\<lambda>p. p @ [c]) ps)) = map (\<lambda>p. p @ [c]) ps"
  by (induction ps) (simp_all add: split_inclusive_piece)

lemma split_inclusive_shape:
  assumes "p \<in> set (split_inclusive c s)"
  shows "c \<notin> set (butlast p)"
  using assms
proof (induction s arbitrary: p)
  case (Cons x xs)
  then show ?case
    by (cases "split_inclusive c xs") (auto split: if_splits dest: split_inclusive_nonempty)
qed simp

lemma strip_prefix_Some_iff: "strip_prefix p s = Some r \<longleftrightarrow> s = p @ r"
  by (auto simp: strip_prefix_def starts_with_def) (metis append_take_drop_id)

lemma strip_suffix_Some_iff: "strip_suffix p s = Some r \<longleftrightarrow> s = r @ p"
  by (auto simp: strip_suffix_def ends_with_def) (metis append_take_drop_id)

lemma strip_prefix_append [simp]: "strip_prefix p (p @ r) = Some r"
  by (simp add: strip_prefix_Some_iff)

lemma strip_suffix_append [simp]: "strip_suffix p (r @ p) = Some r"
  by (simp add: strip_suffix_Some_iff)

lemma strip_suffix_None: "\<not> ends_with p s \<Longrightarrow> strip_suffix p s = None"
  by (simp add: strip_suffix_def)

lemma ends_with_append [simp]: "ends_with p (r @ p)"
  by (simp add: ends_with_def)

lemma starts_with_append [simp]: "starts_with p (p @ r)"
  by (simp add: starts_with_def)

lemma starts_with_iff: "starts_with p s \<longleftrightarrow> (\<exists>r. s = p @ r)"
  by (metis append_take_drop_id starts_with_append starts_with_def)

lemma ends_with_iff: "ends_with p s \<longleftrightarrow> (\<exists>r. s = r @ p)"
  by (metis append_take_drop_id ends_with_append ends_with_def)

lemma chomp_line: "ends_with [CHR 0x0D] l = False \<Longrightarrow> chomp (l @ [CHR 0x0A]) = l"
  by (simp add: chomp_def strip_suffix_None)

lemma lines_unlines:
  assumes "\<And>l. l \<in> set ls \<Longrightarrow> CHR 0x0A \<notin> set l \<and> CHR 0x0D \<notin> set l"
  shows "lines (concat (map (\<lambda>l. l @ [CHR 0x0A]) ls)) = ls"
proof -
  have "chomp (l @ [CHR 0x0A]) = l" if "l \<in> set ls" for l
    using assms [OF that] by (auto intro!: chomp_line simp: ends_with_iff)
  then show ?thesis
    using assms by (simp add: lines_def split_inclusive_concat map_idI)
qed

end
