(* ===== verification/Utf8.thy ===== *)
theory Utf8
  imports Text
begin

text \<open>
  UTF-8 as Rust's \<open>std::str::from_utf8\<close> checks it (the well-formed byte sequences
  of the Unicode standard: no overlong forms, no surrogates, at most U+10FFFF),
  the characters of a string, and \<open>str::is_char_boundary\<close>.
\<close>

definition byte :: "char \<Rightarrow> nat" where
  "byte c = of_char c"

definition is_cont :: "char \<Rightarrow> bool" where
  "is_cont c \<longleftrightarrow> 128 \<le> byte c \<and> byte c < 192"

text \<open>The second byte of a three- or four-byte sequence is restricted by the first.\<close>

definition second_ok :: "nat \<Rightarrow> char \<Rightarrow> bool" where
  "second_ok b0 c \<longleftrightarrow> is_cont c \<and>
     (b0 = 0xE0 \<longrightarrow> 0xA0 \<le> byte c) \<and> (b0 = 0xED \<longrightarrow> byte c < 0xA0) \<and>
     (b0 = 0xF0 \<longrightarrow> 0x90 \<le> byte c) \<and> (b0 = 0xF4 \<longrightarrow> byte c < 0x90)"

text \<open>
  The number of bytes of the character a byte opens; \<open>0\<close> when no character
  begins with it.
\<close>

definition seq_len :: "char \<Rightarrow> nat" where
  "seq_len c =
     (if byte c < 0x80 then 1
      else if 0xC2 \<le> byte c \<and> byte c < 0xE0 then 2
      else if 0xE0 \<le> byte c \<and> byte c < 0xF0 then 3
      else if 0xF0 \<le> byte c \<and> byte c < 0xF5 then 4 else 0)"

text \<open>The code points of a byte sequence, \<open>None\<close> when it is not UTF-8.\<close>

fun decode_utf8 :: "bytes \<Rightarrow> nat list option" where
  "decode_utf8 [] = Some []"
| "decode_utf8 (c # s) =
     (if seq_len c = 1 then map_option (Cons (byte c)) (decode_utf8 s)
      else if seq_len c = 2 then
        (case s of c1 # s' \<Rightarrow>
           if is_cont c1 then
             map_option (Cons ((byte c - 0xC0) * 64 + (byte c1 - 0x80))) (decode_utf8 s')
           else None
         | _ \<Rightarrow> None)
      else if seq_len c = 3 then
        (case s of c1 # c2 # s' \<Rightarrow>
           if second_ok (byte c) c1 \<and> is_cont c2 then
             map_option (Cons ((byte c - 0xE0) * 4096 + (byte c1 - 0x80) * 64 + (byte c2 - 0x80)))
               (decode_utf8 s')
           else None
         | _ \<Rightarrow> None)
      else if seq_len c = 4 then
        (case s of c1 # c2 # c3 # s' \<Rightarrow>
           if second_ok (byte c) c1 \<and> is_cont c2 \<and> is_cont c3 then
             map_option (Cons ((byte c - 0xF0) * 262144 + (byte c1 - 0x80) * 4096
                                + (byte c2 - 0x80) * 64 + (byte c3 - 0x80)))
               (decode_utf8 s')
           else None
         | _ \<Rightarrow> None)
      else None)"

definition from_utf8 :: "bytes \<Rightarrow> bool" where
  "from_utf8 s \<longleftrightarrow> decode_utf8 s \<noteq> None"

definition chars :: "string \<Rightarrow> nat list" where
  "chars s = (case decode_utf8 s of None \<Rightarrow> [] | Some cs \<Rightarrow> cs)"

definition is_char_boundary :: "string \<Rightarrow> nat \<Rightarrow> bool" where
  "is_char_boundary s i \<longleftrightarrow>
     i = 0 \<or> i = length s \<or> (i < length s \<and> \<not> is_cont (s ! i))"

lemma seq_len_cases: "seq_len c = 0 \<or> seq_len c = 1 \<or> seq_len c = 2 \<or> seq_len c = 3 \<or> seq_len c = 4"
  by (auto simp: seq_len_def)

lemma seq_len_is_cont: "is_cont c \<Longrightarrow> seq_len c = 0"
  by (auto simp: seq_len_def is_cont_def)

lemma second_ok_is_cont: "second_ok b c \<Longrightarrow> is_cont c"
  by (simp add: second_ok_def)

text \<open>
  The well-formed strings, generated a character at a time: the induction rule
  the slicing lemmas below use.
\<close>

inductive utf8_char :: "bytes \<Rightarrow> bool" where
  one: "seq_len c = 1 \<Longrightarrow> utf8_char [c]"
| two: "seq_len c = 2 \<Longrightarrow> is_cont c1 \<Longrightarrow> utf8_char [c, c1]"
| three: "seq_len c = 3 \<Longrightarrow> second_ok (byte c) c1 \<Longrightarrow> is_cont c2 \<Longrightarrow> utf8_char [c, c1, c2]"
| four: "seq_len c = 4 \<Longrightarrow> second_ok (byte c) c1 \<Longrightarrow> is_cont c2 \<Longrightarrow> is_cont c3 \<Longrightarrow>
     utf8_char [c, c1, c2, c3]"

inductive utf8 :: "bytes \<Rightarrow> bool" where
  nil: "utf8 []"
| cons: "utf8_char u \<Longrightarrow> utf8 s \<Longrightarrow> utf8 (u @ s)"

lemma from_utf8_Nil [simp]: "from_utf8 []"
  by (simp add: from_utf8_def)

lemma from_utf8_char_append: "utf8_char u \<Longrightarrow> from_utf8 (u @ s) = from_utf8 s"
  by (erule utf8_char.cases) (auto simp: from_utf8_def)

lemma utf8_from_utf8: "utf8 s \<Longrightarrow> from_utf8 s"
  by (induction rule: utf8.induct) (simp_all add: from_utf8_char_append)

lemma from_utf8_utf8: "from_utf8 s \<Longrightarrow> utf8 s"
proof (induction s rule: decode_utf8.induct)
  case 1
  show ?case by (rule utf8.nil)
next
  case (2 c s)
  consider (l1) "seq_len c = 1" | (l2) "seq_len c = 2" | (l3) "seq_len c = 3"
    | (l4) "seq_len c = 4" | (l0) "seq_len c = 0"
    using seq_len_cases [of c] by auto
  then show ?case
  proof cases
    case l1
    with 2 have "utf8 s" by (simp add: from_utf8_def)
    from utf8.cons [OF utf8_char.one [OF l1] this] show ?thesis by simp
  next
    case l2
    with "2.prems" obtain c1 s' where s: "s = c1 # s'" "is_cont c1" "from_utf8 s'"
      by (auto simp: from_utf8_def split: list.splits if_splits)
    with 2 l2 have "utf8 s'" by simp
    from utf8.cons [OF utf8_char.two [OF l2 s(2)] this] s show ?thesis by simp
  next
    case l3
    with "2.prems" obtain c1 c2 s' where s: "s = c1 # c2 # s'" "second_ok (byte c) c1" "is_cont c2"
        "from_utf8 s'"
      by (auto simp: from_utf8_def split: list.splits if_splits)
    with 2 l3 have "utf8 s'" by simp
    from utf8.cons [OF utf8_char.three [OF l3 s(2,3)] this] s show ?thesis by simp
  next
    case l4
    with "2.prems" obtain c1 c2 c3 s' where s: "s = c1 # c2 # c3 # s'" "second_ok (byte c) c1"
        "is_cont c2" "is_cont c3" "from_utf8 s'"
      by (auto simp: from_utf8_def split: list.splits if_splits)
    with 2 l4 have "utf8 s'" by simp
    from utf8.cons [OF utf8_char.four [OF l4 s(2,3,4)] this] s show ?thesis by simp
  next
    case l0
    with "2.prems" show ?thesis by (simp add: from_utf8_def)
  qed
qed

lemma from_utf8_iff: "from_utf8 s \<longleftrightarrow> utf8 s"
  using utf8_from_utf8 from_utf8_utf8 by blast

lemma utf8_append: "utf8 a \<Longrightarrow> utf8 b \<Longrightarrow> utf8 (a @ b)"
  by (induction rule: utf8.induct) (auto intro: utf8.cons)

lemma utf8_char_heads:
  "utf8_char u \<Longrightarrow> \<exists>c cs. u = c # cs \<and> \<not> is_cont c \<and> (\<forall>x \<in> set cs. is_cont x)"
  by (erule utf8_char.cases) (auto dest: seq_len_is_cont second_ok_is_cont)

lemma from_utf8_append: "utf8 a \<Longrightarrow> from_utf8 (a @ b) = from_utf8 b"
  by (induction rule: utf8.induct) (simp_all add: from_utf8_char_append)

lemma utf8_append_cancel: "utf8 a \<Longrightarrow> utf8 (a @ b) \<Longrightarrow> utf8 b"
  by (simp add: from_utf8_append flip: from_utf8_iff)


text \<open>Slicing a string at a character boundary leaves two strings.\<close>

lemma utf8_split_boundary:
  assumes "utf8 s" "is_char_boundary s i"
  shows "utf8 (take i s) \<and> utf8 (drop i s)"
  using assms
proof (induction arbitrary: i rule: utf8.induct)
  case (cons u s)
  show ?case
  proof (cases "i = 0 \<or> length u \<le> i")
    case True
    moreover have "is_char_boundary s (i - length u)" if "length u \<le> i"
      using cons.prems that by (auto simp: is_char_boundary_def nth_append)
    ultimately show ?thesis
      using cons by (auto intro: utf8.intros simp: utf8.cons)
  next
    case False
    from utf8_char_heads [OF cons.hyps(1)] obtain c cs where
      u: "u = c # cs" "\<forall>x \<in> set cs. is_cont x" by auto
    with False have "is_cont ((u @ s) ! i)"
      by (auto simp: nth_append nth_Cons')
    with cons.prems False show ?thesis
      by (auto simp: is_char_boundary_def)
  qed
qed (auto intro: utf8.nil)

lemma utf8_slice:
  assumes "utf8 s" "is_char_boundary s i" "is_char_boundary s j" "i \<le> j"
  shows "utf8 (drop i (take j s))"
proof -
  have tj: "utf8 (take j s)" using assms utf8_split_boundary by blast
  moreover have "is_char_boundary (take j s) i"
    using assms by (auto simp: is_char_boundary_def)
  ultimately show ?thesis using utf8_split_boundary by blast
qed

lemma ascii_utf8: "(\<And>c. c \<in> set s \<Longrightarrow> byte c < 128) \<Longrightarrow> utf8 s"
proof (induction s)
  case (Cons c s)
  then have "utf8_char [c]" by (intro utf8_char.one) (simp add: seq_len_def)
  from utf8.cons [OF this] Cons show ?case by fastforce
qed (rule utf8.nil)

lemma utf8_start_not_cont: "utf8 (c # s) \<Longrightarrow> \<not> is_cont c"
  by (erule utf8.cases) (auto dest!: utf8_char_heads)

lemma boundary_of_utf8_prefix:
  assumes "utf8 (a @ b)" "utf8 a"
  shows "is_char_boundary (a @ b) (length a)"
proof (cases b)
  case (Cons c s)
  with utf8_append_cancel [OF assms(2,1)] have "\<not> is_cont c"
    by (simp add: utf8_start_not_cont)
  with Cons show ?thesis by (simp add: is_char_boundary_def)
qed (simp add: is_char_boundary_def)

end
