(* ===== verification/Decimal.thy ===== *)
theory Decimal
  imports Prelude
begin

text \<open>
  Decimal rendering of integers (\<open>to_string\<close>, \<open>format!("{n}")\<close>) and Rust's
  \<open>str::parse\<close> for \<open>u64\<close>/\<open>usize\<close>: a leading \<open>+\<close> is accepted, the digits must be
  nonempty, and a value past \<open>2^64 - 1\<close> is refused.
\<close>

definition digit :: "nat \<Rightarrow> char" where
  "digit d = char_of (48 + d)"

fun show_nat :: "nat \<Rightarrow> string" where
  "show_nat n = (if n < 10 then [digit n] else show_nat (n div 10) @ [digit (n mod 10)])"

declare show_nat.simps [simp del]

definition show_int :: "int \<Rightarrow> string" where
  "show_int i = (if i < 0 then CHR ''-'' # show_nat (nat (- i)) else show_nat (nat i))"

definition is_digit :: "char \<Rightarrow> bool" where
  "is_digit c \<longleftrightarrow> (48::nat) \<le> of_char c \<and> (of_char c :: nat) \<le> 57"

definition digit_val :: "char \<Rightarrow> nat" where
  "digit_val c = of_char c - 48"

definition parse_digits :: "string \<Rightarrow> nat option" where
  "parse_digits s =
     (if s \<noteq> [] \<and> list_all is_digit s
      then Some (foldl (\<lambda>n c. 10 * n + digit_val c) 0 s) else None)"

definition parse_u64 :: "string \<Rightarrow> nat option" where
  "parse_u64 s =
     (case parse_digits (case s of CHR ''+'' # r \<Rightarrow> r | _ \<Rightarrow> s) of
        None \<Rightarrow> None
      | Some n \<Rightarrow> if n < 2 ^ 64 then Some n else None)"

lemma of_char_digit: "d < 10 \<Longrightarrow> of_char (digit d) = (48 + d :: nat)"
  by (simp add: digit_def)

lemma digit_props [simp]:
  assumes "d < 10"
  shows "is_digit (digit d)" "digit_val (digit d) = d"
  using of_char_digit [OF assms] assms by (simp_all add: is_digit_def digit_val_def)

lemma show_nat_nonempty [simp]: "show_nat n \<noteq> []"
  by (subst show_nat.simps) simp

lemma show_nat_digits: "list_all is_digit (show_nat n)"
proof (induction n rule: show_nat.induct)
  case (1 n)
  then show ?case by (subst show_nat.simps) simp
qed

lemma show_nat_value: "foldl (\<lambda>n c. 10 * n + digit_val c) 0 (show_nat n) = n"
proof (induction n rule: show_nat.induct)
  case (1 n)
  then show ?case by (subst show_nat.simps) simp
qed

lemma parse_digits_show: "parse_digits (show_nat n) = Some n"
  by (simp add: parse_digits_def show_nat_digits show_nat_value)

lemma show_nat_chars: "c \<in> set (show_nat n) \<Longrightarrow> is_digit c"
  using show_nat_digits [of n] by (simp add: list_all_iff)

lemma is_digit_not [simp]:
  "\<not> is_digit (CHR ''+'')" "\<not> is_digit (CHR '' '')" "\<not> is_digit (CHR 0x0A)" "\<not> is_digit (CHR 0x0D)"
  "\<not> is_digit (CHR 0x09)" "\<not> is_digit (CHR ''-'')" "\<not> is_digit (CHR ''/'')" "\<not> is_digit (CHR ''.'')"
  by (simp_all add: is_digit_def)

lemma parse_u64_show: "n < 2 ^ 64 \<Longrightarrow> parse_u64 (show_nat n) = Some n"
proof -
  assume n: "n < 2 ^ 64"
  have "(case show_nat n of CHR ''+'' # r \<Rightarrow> r | _ \<Rightarrow> show_nat n) = show_nat n"
  proof (cases "show_nat n")
    case (Cons c r)
    then have "is_digit c" using show_nat_chars [of c n] by simp
    then have "c \<noteq> CHR ''+''" by auto
    with Cons show ?thesis by (simp split: char.splits bool.splits)
  qed simp
  with n show ?thesis by (simp add: parse_u64_def parse_digits_show)
qed

lemma show_nat_inj: "show_nat a = show_nat b \<longleftrightarrow> a = b"
  by (metis parse_digits_show option.inject)

end
