(* ===== verification/BTree.thy ===== *)
theory BTree
  imports Prelude "HOL-Library.List_Lexorder" "HOL-Library.Char_ord"
begin

text \<open>
  \<open>BTreeMap\<close> and \<open>BTreeSet\<close> of Rust's standard library: ordered maps and sets
  whose iteration order is the key order.  A map is the list of its entries in
  ascending key order; strings are ordered bytewise, as \<open>String\<close> is in Rust.

  The interface the other components rely on is the locale \<open>ordered_map\<close>; the
  lemmas about any ordered map are proved in it, and it is interpreted on the
  list implementation as \<open>btree\<close>.
\<close>

type_synonym ('k, 'v) btree = "('k \<times> 'v) list"

abbreviation bt_get :: "('k, 'v) btree \<Rightarrow> 'k \<Rightarrow> 'v option" where
  "bt_get m k \<equiv> map_of m k"

fun bt_insert :: "'k::linorder \<Rightarrow> 'v \<Rightarrow> ('k, 'v) btree \<Rightarrow> ('k, 'v) btree" where
  "bt_insert k v [] = [(k, v)]"
| "bt_insert k v ((k', v') # m) =
     (if k < k' then (k, v) # (k', v') # m
      else if k = k' then (k, v) # m
      else (k', v') # bt_insert k v m)"

definition bt_remove :: "'k \<Rightarrow> ('k, 'v) btree \<Rightarrow> ('k, 'v) btree" where
  "bt_remove k m = filter (\<lambda>p. fst p \<noteq> k) m"

definition bt_keys :: "('k, 'v) btree \<Rightarrow> 'k list" where
  "bt_keys m = map fst m"

definition bt_values :: "('k, 'v) btree \<Rightarrow> 'v list" where
  "bt_values m = map snd m"

definition bt_has :: "('k, 'v) btree \<Rightarrow> 'k \<Rightarrow> bool" where
  "bt_has m k \<longleftrightarrow> bt_get m k \<noteq> None"

definition bt_ok :: "('k::linorder, 'v) btree \<Rightarrow> bool" where
  "bt_ok m \<longleftrightarrow> sorted_wrt (<) (map fst m)"

text \<open>The laws of an ordered map.\<close>

locale ordered_map =
  fixes get :: "'m \<Rightarrow> 'k::linorder \<Rightarrow> 'v option"
    and ins :: "'k \<Rightarrow> 'v \<Rightarrow> 'm \<Rightarrow> 'm"
    and del :: "'k \<Rightarrow> 'm \<Rightarrow> 'm"
    and entries :: "'m \<Rightarrow> ('k \<times> 'v) list"
    and ok :: "'m \<Rightarrow> bool"
  assumes get_ins: "ok m \<Longrightarrow> get (ins k v m) k' = (if k' = k then Some v else get m k')"
    and get_del: "ok m \<Longrightarrow> get (del k m) k' = (if k' = k then None else get m k')"
    and ok_ins: "ok m \<Longrightarrow> ok (ins k v m)"
    and ok_del: "ok m \<Longrightarrow> ok (del k m)"
    and entries_sorted: "ok m \<Longrightarrow> sorted_wrt (<) (map fst (entries m))"
    and entries_get: "ok m \<Longrightarrow> (k, v) \<in> set (entries m) \<longleftrightarrow> get m k = Some v"
    and entries_eq: "ok m \<Longrightarrow> ok m' \<Longrightarrow> entries m = entries m' \<Longrightarrow> m = m'"
begin

lemma entries_distinct: "ok m \<Longrightarrow> distinct (entries m)"
  using entries_sorted [of m] by (auto simp: distinct_map dest: strict_sorted_imp_sorted
      strict_sorted_iff [THEN iffD1])

text \<open>Two maps with the same lookups are the same map.\<close>

lemma extensional:
  assumes "ok m" "ok m'" "\<And>k. get m k = get m' k"
  shows "m = m'"
proof -
  have s: "set (entries m) = set (entries m')"
    using assms by (auto simp: entries_get)
  have "map fst (entries m) = map fst (entries m')"
    using s assms(1,2) by (intro strict_sorted_equal entries_sorted) (simp_all flip: image_set)
  moreover have "inj_on fst (set (entries m) \<union> set (entries m'))"
    using s entries_sorted [OF assms(1)] by (simp add: distinct_map strict_sorted_iff)
  ultimately have "entries m = entries m'" by (simp add: inj_on_map_eq_map)
  with assms(1,2) show ?thesis by (rule entries_eq)
qed

lemma ins_commute:
  "ok m \<Longrightarrow> k \<noteq> k' \<Longrightarrow> ins k v (ins k' v' m) = ins k' v' (ins k v m)"
  by (rule extensional) (simp_all add: ok_ins get_ins)

lemma del_ins: "ok m \<Longrightarrow> del k (ins k v m) = del k m"
  by (rule extensional) (simp_all add: ok_ins ok_del get_ins get_del)

lemma ins_del_other:
  "ok m \<Longrightarrow> k \<noteq> k' \<Longrightarrow> ins k v (del k' m) = del k' (ins k v m)"
  by (rule extensional) (simp_all add: ok_ins ok_del get_ins get_del)

lemma ins_ins: "ok m \<Longrightarrow> ins k v (ins k v' m) = ins k v m"
  by (rule extensional) (simp_all add: ok_ins get_ins)

lemma ins_del: "ok m \<Longrightarrow> ins k v (del k m) = ins k v m"
  by (rule extensional) (simp_all add: ok_ins ok_del get_ins get_del)

lemma del_absent: "ok m \<Longrightarrow> get m k = None \<Longrightarrow> del k m = m"
  by (rule extensional) (auto simp: ok_del get_del)

lemma ins_same: "ok m \<Longrightarrow> get m k = Some v \<Longrightarrow> ins k v m = m"
  by (rule extensional) (auto simp: ok_ins get_ins)

text \<open>Inserting an absent key adds one entry; deleting a present one removes it.\<close>

lemma set_entries_ins:
  "ok m \<Longrightarrow> get m k = None \<Longrightarrow> set (entries (ins k v m)) = insert (k, v) (set (entries m))"
  by (auto simp: entries_get get_ins ok_ins split: if_splits)

lemma set_entries_del:
  "ok m \<Longrightarrow> get m k = Some v \<Longrightarrow> set (entries m) = insert (k, v) (set (entries (del k m)))"
  by (auto simp: entries_get get_del ok_del split: if_splits)

end

subsection \<open>The list implementation\<close>

lemma fst_bt_insert: "fst ` set (bt_insert k v m) = insert k (fst ` set m)"
proof -
  have "set (map fst (bt_insert k v m)) = insert k (set (map fst m))"
  proof (induction m)
    case (Cons p m)
    then show ?case by (cases p) (simp add: insert_commute)
  qed simp
  then show ?thesis by simp
qed

lemma bt_ok_Cons: "bt_ok ((k, v) # m) \<longleftrightarrow> (\<forall>k' \<in> fst ` set m. k < k') \<and> bt_ok m"
  by (auto simp: bt_ok_def)

lemma bt_ok_Nil [simp]: "bt_ok []"
  by (simp add: bt_ok_def)

lemma bt_ok_insert: "bt_ok m \<Longrightarrow> bt_ok (bt_insert k v m)"
proof (induction m)
  case (Cons p m)
  obtain k' v' where p: "p = (k', v')" by force
  with Cons show ?case
    by (auto simp: bt_ok_Cons fst_bt_insert not_less_iff_gr_or_eq simp del: bt_insert.simps(1)
        intro: less_trans)
qed (simp add: bt_ok_def)

lemma bt_get_insert: "bt_ok m \<Longrightarrow> bt_get (bt_insert k v m) k' = (if k' = k then Some v else bt_get m k')"
proof (induction m)
  case (Cons p m)
  obtain a b where p: "p = (a, b)" by force
  with Cons show ?case by (auto simp: bt_ok_Cons)
qed simp

lemma bt_get_remove: "bt_get (bt_remove k m) k' = (if k' = k then None else bt_get m k')"
  by (induction m) (auto simp: bt_remove_def)

lemma bt_ok_remove: "bt_ok m \<Longrightarrow> bt_ok (bt_remove k m)"
  by (induction m) (auto simp: bt_remove_def bt_ok_def)

lemma bt_ok_distinct: "bt_ok m \<Longrightarrow> distinct (map fst m)"
  by (simp add: bt_ok_def strict_sorted_iff)

interpretation btree: ordered_map bt_get bt_insert bt_remove "\<lambda>m. m" bt_ok
proof unfold_locales
  show "(k, v) \<in> set m \<longleftrightarrow> bt_get m k = Some v" if "bt_ok m"
    for k :: "'a::linorder" and v :: 'b and m
    using bt_ok_distinct [OF that] by simp
qed (simp_all add: bt_get_insert bt_get_remove bt_ok_insert bt_ok_remove flip: bt_ok_def)

lemma bt_has_iff: "bt_has m k \<longleftrightarrow> k \<in> fst ` set m"
  by (auto simp: bt_has_def map_of_eq_None_iff)

subsection \<open>Ordered sets\<close>

text \<open>A \<open>BTreeSet\<close> is the ascending list of its members.\<close>

type_synonym 'k bset = "'k list"

definition bs_insert :: "'k::linorder \<Rightarrow> 'k bset \<Rightarrow> 'k bset" where
  "bs_insert = insort_insert"

definition bs_remove :: "'k \<Rightarrow> 'k bset \<Rightarrow> 'k bset" where
  "bs_remove = removeAll"

definition bs_extend :: "'k::linorder list \<Rightarrow> 'k bset \<Rightarrow> 'k bset" where
  "bs_extend xs s = fold bs_insert xs s"

lemma set_bs_insert [simp]: "set (bs_insert x s) = insert x (set s)"
  by (simp add: bs_insert_def set_insort_insert)

lemma set_bs_remove [simp]: "set (bs_remove x s) = set s - {x}"
  by (simp add: bs_remove_def)

lemma set_bs_extend [simp]: "set (bs_extend xs s) = set xs \<union> set s"
  unfolding bs_extend_def by (induction xs arbitrary: s) auto

end
