(* ===== verification/Env.thy ===== *)
theory Env
  imports Utf8 Decimal BTree
begin

text \<open>
  The third-party code the program calls, as one record of parameters: SHA3-256
  (crate \<open>sha3\<close>), the setsum (crate \<open>setsum\<close>), the JSON reader (crate
  \<open>serde_json\<close>) and zstd (crate \<open>zstd\<close>).  Every definition that uses one of them
  takes the record as its argument.  What the program relies on is stated by the
  predicates \<open>sum_laws\<close>, \<open>digest_law\<close> and \<open>zstd_law\<close>, which are the documented
  behaviour of those crates (\<open>src/SPEC.md\<close> sections 1.1, 1.2 and 3.1).
\<close>

subsection \<open>JSON values\<close>

text \<open>
  \<open>serde_json::Value\<close>.  A number is an integer in the union of the \<open>i64\<close> and \<open>u64\<close>
  ranges, or a float, kept as its text.  An object is the list of its members.
\<close>

datatype json =
    JNull
  | JBool bool
  | JInt int
  | JFloat string
  | JStr string
  | JArr "json list"
  | JObj "(string \<times> json) list"

record 's env =
  digest :: "bytes \<Rightarrow> bytes"
  ss_zero :: 's
  ss_insert :: "'s \<Rightarrow> bytes \<Rightarrow> 's"
  ss_remove :: "'s \<Rightarrow> bytes \<Rightarrow> 's"
  ss_add :: "'s \<Rightarrow> 's \<Rightarrow> 's"
  ss_sub :: "'s \<Rightarrow> 's \<Rightarrow> 's"
  ss_hexdigest :: "'s \<Rightarrow> string"
  ss_from_hexdigest :: "string \<Rightarrow> 's option"
  json_parse :: "string \<Rightarrow> json option"
  zstd_encode :: "int \<Rightarrow> bytes \<Rightarrow> bytes option"
  zstd_take :: "bytes \<Rightarrow> nat \<Rightarrow> bytes option"
  zstd_all :: "bytes \<Rightarrow> bytes option"
  zstd_dict :: "bytes \<Rightarrow> bytes \<Rightarrow> bytes option"

subsection \<open>The documented laws\<close>

text \<open>\<open>is_hex64\<close> of \<open>ident.rs\<close>: exactly 64 lowercase hex characters.\<close>

definition is_hex_char :: "char \<Rightarrow> bool" where
  "is_hex_char c \<longleftrightarrow> (48 \<le> byte c \<and> byte c \<le> 57) \<or> (97 \<le> byte c \<and> byte c \<le> 102)"

definition is_hex64 :: "string \<Rightarrow> bool" where
  "is_hex64 s \<longleftrightarrow> length s = 64 \<and> list_all is_hex_char s"

text \<open>
  The setsum: an abelian group, an item's insertion adds a fixed element, its
  removal subtracts it, the rendering is 64 lowercase hex characters and parses
  back, and the empty sum renders as 64 zeros.
\<close>

definition sum_laws :: "'s env \<Rightarrow> bool" where
  "sum_laws E \<longleftrightarrow>
     (\<forall>a b c. ss_add E (ss_add E a b) c = ss_add E a (ss_add E b c)) \<and>
     (\<forall>a b. ss_add E a b = ss_add E b a) \<and>
     (\<forall>a. ss_add E (ss_zero E) a = a) \<and>
     (\<forall>a b. ss_add E (ss_sub E a b) b = a) \<and>
     (\<forall>a x. ss_insert E a x = ss_add E a (ss_insert E (ss_zero E) x)) \<and>
     (\<forall>a x. ss_remove E a x = ss_sub E a (ss_insert E (ss_zero E) x)) \<and>
     (\<forall>a. is_hex64 (ss_hexdigest E a)) \<and>
     (\<forall>a. ss_from_hexdigest E (ss_hexdigest E a) = Some a) \<and>
     ss_hexdigest E (ss_zero E) = replicate 64 (CHR ''0'')"

text \<open>SHA3-256 produces 32 bytes.\<close>

definition digest_law :: "'s env \<Rightarrow> bool" where
  "digest_law E \<longleftrightarrow> (\<forall>x. length (digest E x) = 32)"

text \<open>zstd: reading the first bytes of, or all of, a stream it encoded.\<close>

definition zstd_law :: "'s env \<Rightarrow> bool" where
  "zstd_law E \<longleftrightarrow>
     (\<forall>l x p. zstd_encode E l x = Some p \<longrightarrow> (\<forall>n. zstd_take E p n = Some (take n x)))"

text \<open>The laws of the setsum, as an interface.\<close>

locale setsum =
  fixes E :: "'s env"
  assumes laws: "sum_laws E"
begin

lemma add_assoc: "ss_add E (ss_add E a b) c = ss_add E a (ss_add E b c)"
  and add_comm: "ss_add E a b = ss_add E b a"
  and zero_add [simp]: "ss_add E (ss_zero E) a = a"
  and sub_add [simp]: "ss_add E (ss_sub E a b) b = a"
  and insert_eq: "ss_insert E a x = ss_add E a (ss_insert E (ss_zero E) x)"
  and remove_eq: "ss_remove E a x = ss_sub E a (ss_insert E (ss_zero E) x)"
  and hexdigest_hex [simp]: "is_hex64 (ss_hexdigest E a)"
  and from_hexdigest [simp]: "ss_from_hexdigest E (ss_hexdigest E a) = Some a"
  and hexdigest_zero: "ss_hexdigest E (ss_zero E) = replicate 64 (CHR ''0'')"
  using laws unfolding sum_laws_def by blast+

text \<open>The group as an instance of the library's abelian groups.\<close>

sublocale group: ab_group_add "ss_add E" "ss_zero E" "ss_sub E" "\<lambda>a. ss_sub E (ss_zero E) a"
proof
  fix a b c
  show "ss_add E (ss_add E a b) c = ss_add E a (ss_add E b c)" by (rule add_assoc)
  show "ss_add E a b = ss_add E b a" by (rule add_comm)
  show "ss_add E (ss_zero E) a = a" by simp
  show "ss_add E (ss_sub E (ss_zero E) a) a = ss_zero E" by simp
  show "ss_sub E a b = ss_add E a (ss_sub E (ss_zero E) b)"
  proof -
    have "ss_add E (ss_add E a (ss_sub E (ss_zero E) b)) b = a"
      by (simp add: add_assoc) (metis add_comm zero_add)
    moreover have "ss_add E (ss_sub E a b) b = a" by simp
    moreover have "x = y" if "ss_add E x b = ss_add E y b" for x y
    proof -
      from that have "ss_add E (ss_add E x b) (ss_sub E (ss_zero E) b) =
                      ss_add E (ss_add E y b) (ss_sub E (ss_zero E) b)" by simp
      then show ?thesis
        by (simp add: add_assoc) (metis add_comm sub_add zero_add)
    qed
    ultimately show ?thesis by metis
  qed
qed

lemma hexdigest_inj [simp]: "ss_hexdigest E a = ss_hexdigest E b \<longleftrightarrow> a = b"
  by (metis from_hexdigest option.inject)

lemma remove_insert [simp]: "ss_remove E (ss_insert E a x) x = a"
  by (metis group.add_diff_cancel insert_eq remove_eq)

lemma insert_remove [simp]: "ss_insert E (ss_remove E a x) x = a"
  by (metis insert_eq remove_eq sub_add)

lemma insert_insert_commute: "ss_insert E (ss_insert E a x) y = ss_insert E (ss_insert E a y) x"
  by (metis add_assoc add_comm insert_eq)

lemma insert_add: "ss_insert E (ss_add E a b) x = ss_add E (ss_insert E a x) b"
  by (metis add_assoc add_comm insert_eq)

lemma remove_add: "ss_remove E (ss_add E a b) x = ss_add E (ss_remove E a x) b"
  by (metis insert_add insert_remove remove_insert)

lemma insert_sub: "ss_insert E (ss_sub E a b) x = ss_sub E (ss_insert E a x) b"
  by (metis group.add_diff_cancel insert_add sub_add)

lemma remove_commute: "ss_remove E (ss_insert E a y) x = ss_insert E (ss_remove E a x) y"
  by (metis insert_insert_commute insert_remove remove_insert)

lemma remove_remove_commute: "ss_remove E (ss_remove E a y) x = ss_remove E (ss_remove E a x) y"
  by (metis insert_insert_commute insert_remove remove_insert)

end

end
