(* ===== verification/Manifest.thy ===== *)
theory Manifest
  imports Ident
begin

text \<open>
  \<open>src/src/manifest.rs\<close>: materialized states.  A manifest is an ordered map from
  paths to element records; it adjudicates membership: a remove is refused
  unless exactly that record is present.  Main results: the well-formedness
  invariant and its preservation, insert and remove move the state sum by
  exactly the record's contribution, serialisation parses back to the same
  state, and an accepted file claims the sum of its records.
\<close>

type_synonym manifest = "(string, element_record) btree"

definition MANIFEST_HEADER :: string where
  "MANIFEST_HEADER = ''tally-manifest v0''"

definition m_new :: manifest where
  "m_new = []"

definition m_get :: "manifest \<Rightarrow> string \<Rightarrow> element_record option" where
  "m_get m p = bt_get m p"

definition m_contains :: "manifest \<Rightarrow> element_record \<Rightarrow> bool" where
  "m_contains m r \<longleftrightarrow> bt_get m (er_path r) = Some r"

definition m_insert :: "element_record \<Rightarrow> manifest \<Rightarrow> manifest result" where
  "m_insert r m =
     (if bt_has m (er_path r) then Err Precondition else Ok (bt_insert (er_path r) r m))"

definition m_remove :: "element_record \<Rightarrow> manifest \<Rightarrow> manifest result" where
  "m_remove r m =
     (if \<not> m_contains m r then Err Precondition else Ok (bt_remove (er_path r) m))"

definition from_records :: "element_record list \<Rightarrow> manifest result" where
  "from_records rs = rfold (\<lambda>r m.
     if bt_has m (er_path r) then Err Corrupt else Ok (bt_insert (er_path r) r m)) rs m_new"

definition records :: "manifest \<Rightarrow> element_record list" where
  "records m = bt_values m"

definition m_len :: "manifest \<Rightarrow> nat" where
  "m_len m = length m"

definition m_is_empty :: "manifest \<Rightarrow> bool" where
  "m_is_empty m \<longleftrightarrow> m = []"

definition m_sum :: "'s env \<Rightarrow> manifest \<Rightarrow> 's" where
  "m_sum E m = sum_of_records E (records m)"

definition m_to_bytes :: "'s env \<Rightarrow> manifest \<Rightarrow> bytes" where
  "m_to_bytes E m =
     MANIFEST_HEADER @ [LF] @ ''sum '' @ ss_hexdigest E (m_sum E m) @ [LF] @
     concat (sort (map er_to_bytes (records m)))"

definition strip_LF :: "string \<Rightarrow> string" where
  "strip_LF s = unwrap_or s (strip_suffix [LF] s)"

text \<open>\<open>lines.next().unwrap_or("")\<close>.\<close>

fun next_line :: "string list \<Rightarrow> string \<times> string list" where
  "next_line [] = ([], [])"
| "next_line (l # ls) = (l, ls)"

definition m_parse :: "'s env \<Rightarrow> bytes \<Rightarrow> manifest result" where
  "m_parse E bs =
     (if \<not> from_utf8 bs then Err Corrupt else
      let (header, ls) = next_line (split_inclusive LF bs) in
      if strip_LF header \<noteq> MANIFEST_HEADER then Err Corrupt else
      let (sum_line, ls) = next_line ls in
      rbind (ok_or Corrupt (strip_prefix ''sum '' (strip_LF sum_line))) (\<lambda>claimed.
      rbind (sum_from_hexdigest E claimed) (\<lambda>claimed.
      rbind (rmapM er_parse ls) (\<lambda>rs.
      rbind (from_records rs) (\<lambda>m.
      if m_sum E m \<noteq> claimed then Err Corrupt else Ok m)))))"

subsection \<open>The invariant\<close>

text \<open>Ascending keys, each the path of its record, and every record valid.\<close>

definition m_ok :: "manifest \<Rightarrow> bool" where
  "m_ok m \<longleftrightarrow> bt_ok m \<and> (\<forall>(p, r) \<in> set m. er_path r = p \<and> er_valid r)"

lemma m_ok_new [simp]: "m_ok m_new"
  by (simp add: m_ok_def m_new_def)

lemma m_ok_bt: "m_ok m \<Longrightarrow> bt_ok m"
  by (simp add: m_ok_def)

lemma m_ok_get: "m_ok m \<Longrightarrow> bt_get m p = Some r \<Longrightarrow> er_path r = p \<and> er_valid r"
  by (auto simp: m_ok_def dest!: map_of_SomeD)

lemma m_ok_iff:
  "m_ok m \<longleftrightarrow> bt_ok m \<and> (\<forall>p r. bt_get m p = Some r \<longrightarrow> er_path r = p \<and> er_valid r)"
proof (cases "bt_ok m")
  case True
  then have "(\<forall>(p, r) \<in> set m. er_path r = p \<and> er_valid r) \<longleftrightarrow>
             (\<forall>p r. bt_get m p = Some r \<longrightarrow> er_path r = p \<and> er_valid r)"
    by (simp add: Ball_def split_def btree.entries_get [OF True, symmetric])
  then show ?thesis by (simp add: m_ok_def)
qed (simp add: m_ok_def)

lemma m_ok_bt_insert: "m_ok m \<Longrightarrow> er_valid r \<Longrightarrow> m_ok (bt_insert (er_path r) r m)"
  by (simp add: m_ok_iff bt_get_insert bt_ok_insert)

lemma m_ok_bt_remove: "m_ok m \<Longrightarrow> m_ok (bt_remove p m)"
  by (auto simp: m_ok_def bt_ok_remove) (auto simp: bt_remove_def)

lemma m_insert_Ok:
  "m_insert r m = Ok m' \<longleftrightarrow> bt_get m (er_path r) = None \<and> m' = bt_insert (er_path r) r m"
  by (auto simp: m_insert_def bt_has_def)

lemma m_remove_Ok:
  "m_remove r m = Ok m' \<longleftrightarrow> bt_get m (er_path r) = Some r \<and> m' = bt_remove (er_path r) m"
  by (auto simp: m_remove_def m_contains_def)

lemma m_insert_ok: "m_ok m \<Longrightarrow> er_valid r \<Longrightarrow> m_insert r m = Ok m' \<Longrightarrow> m_ok m'"
  by (auto simp: m_insert_Ok m_ok_bt_insert)

lemma m_remove_ok: "m_ok m \<Longrightarrow> m_remove r m = Ok m' \<Longrightarrow> m_ok m'"
  by (auto simp: m_remove_Ok m_ok_bt_remove)

lemma m_remove_insert: "m_ok m \<Longrightarrow> m_insert r m = Ok m' \<Longrightarrow> m_remove r m' = Ok m"
  by (auto simp: m_insert_Ok m_remove_Ok bt_get_insert m_ok_bt btree.del_ins btree.del_absent)

lemma m_insert_remove: "m_ok m \<Longrightarrow> m_remove r m = Ok m' \<Longrightarrow> m_insert r m' = Ok m"
  by (auto simp: m_insert_Ok m_remove_Ok bt_get_remove m_ok_bt btree.ins_del btree.ins_same)

lemma m_get_after_insert:
  "bt_ok m \<Longrightarrow> m_insert r m = Ok m' \<Longrightarrow> m_get m' p = (if p = er_path r then Some r else m_get m p)"
  by (auto simp: m_insert_Ok m_get_def bt_get_insert)

subsection \<open>Membership as a set of records\<close>

lemma set_records: "m_ok m \<Longrightarrow> r \<in> set (records m) \<longleftrightarrow> bt_get m (er_path r) = Some r"
  using btree.entries_get [of m "er_path r" r]
  by (auto simp: records_def bt_values_def m_ok_def image_iff split_def) force+

lemma records_inj:
  assumes "m_ok m" "m_ok m'" "set (records m) = set (records m')"
  shows "m = m'"
proof (rule btree.extensional)
  fix p
  have "bt_get m p = Some r \<longleftrightarrow> bt_get m' p = Some r" for r
    using assms set_records [of m r] set_records [of m' r] m_ok_get [of m p r] m_ok_get [of m' p r]
    by auto
  then show "bt_get m p = bt_get m' p" by (metis option.exhaust)
qed (use assms in \<open>simp_all add: m_ok_bt\<close>)

lemma distinct_records:
  assumes "m_ok m"
  shows "distinct (map er_path (records m))" "distinct (records m)"
proof -
  have "map er_path (records m) = map fst m"
    using assms by (auto simp: records_def bt_values_def m_ok_def)
  then show "distinct (map er_path (records m))"
    using assms bt_ok_distinct m_ok_bt by metis
  then show "distinct (records m)" by (simp add: distinct_map)
qed

lemma set_records_insert:
  "m_ok m \<Longrightarrow> m_insert r m = Ok m' \<Longrightarrow> set (records m') = insert r (set (records m))"
  using btree.set_entries_ins [of m "er_path r" r]
  by (auto simp: m_insert_Ok records_def bt_values_def m_ok_bt)

lemma mset_records_insert:
  assumes "m_ok m" "er_valid r" "m_insert r m = Ok m'"
  shows "mset (records m') = add_mset r (mset (records m))"
proof -
  have "r \<notin> set (records m)"
    using assms set_records by (auto simp: m_insert_Ok)
  moreover have "distinct (records m')"
    using assms m_insert_ok distinct_records by metis
  ultimately have "mset (records m') = mset (r # records m)"
    using assms distinct_records set_records_insert
    by (subst set_eq_iff_mset_eq_distinct [symmetric]) auto
  then show ?thesis by simp
qed

subsection \<open>Building from records\<close>

lemma from_records_invariant:
  assumes "rfold (\<lambda>r m. if bt_has m (er_path r) then Err Corrupt
                 else Ok (bt_insert (er_path r) r m)) rs m = Ok m'"
    and "m_ok m" "list_all er_valid rs"
  shows "m_ok m' \<and> set (records m') = set rs \<union> set (records m)"
  using assms
proof (induction rs arbitrary: m)
  case (Cons r rs)
  then have i: "m_insert r m = Ok (bt_insert (er_path r) r m)"
    by (auto simp: m_insert_def split: if_splits)
  from Cons have "m_ok (bt_insert (er_path r) r m)" by (simp add: m_ok_bt_insert)
  with Cons i show ?case
    using set_records_insert [OF _ i] by (auto split: if_splits)
qed simp

lemma from_records_ok:
  "from_records rs = Ok m \<Longrightarrow> list_all er_valid rs \<Longrightarrow> m_ok m \<and> set (records m) = set rs"
  using from_records_invariant [of rs m_new m]
  by (simp add: from_records_def records_def bt_values_def m_new_def) (simp add: m_ok_def)

lemma from_records_distinct_ok:
  assumes "distinct (map er_path rs)"
  shows "\<exists>m. from_records rs = Ok m"
proof -
  have "\<exists>m'. rfold (\<lambda>r m. if bt_has m (er_path r) then Err Corrupt
                 else Ok (bt_insert (er_path r) r m)) rs m = Ok m'"
    if "distinct (map er_path rs)" "fst ` set m \<inter> er_path ` set rs = {}" for m :: manifest
    using that
    by (induction rs arbitrary: m) (auto simp: bt_has_iff fst_bt_insert)
  from this [OF assms, of m_new] show ?thesis by (simp add: from_records_def m_new_def)
qed

lemma from_records_records:
  assumes "m_ok m" "mset rs = mset (records m)"
  shows "from_records rs = Ok m"
proof -
  have "distinct (map er_path rs)"
    using assms distinct_records [of m] mset_map mset_eq_imp_distinct_iff by metis
  then obtain m' where m': "from_records rs = Ok m'" using from_records_distinct_ok by blast
  have s: "set rs = set (records m)" using assms mset_eq_setD by blast
  have "list_all er_valid rs"
    using assms by (auto simp: list_all_iff s set_records dest: m_ok_get)
  from from_records_ok [OF m' this] s records_inj assms m' show ?thesis by metis
qed

lemma from_records_duplicate:
  assumes "\<not> distinct (map er_path rs)" "list_all er_valid rs"
  shows "from_records rs = Err Corrupt"
proof (cases "from_records rs")
  case (Inl e)
  have "rfold (\<lambda>r m. if bt_has m (er_path r) then Err Corrupt
                 else Ok (bt_insert (er_path r) r m)) rs m = Err e \<Longrightarrow> e = Corrupt" for m e
    by (induction rs arbitrary: m) (auto simp: rbind_eq_Inl split: if_splits)
  with Inl show ?thesis by (simp add: from_records_def)
next
  case (Inr m)
  have "rfold (\<lambda>r m. if bt_has m (er_path r) then Err Corrupt
                 else Ok (bt_insert (er_path r) r m)) rs m = Ok m' \<Longrightarrow>
        distinct (map er_path rs) \<and> fst ` set m \<inter> er_path ` set rs = {}" for m m' :: manifest
  proof (induction rs arbitrary: m)
    case (Cons r rs)
    from Cons.prems have n: "er_path r \<notin> fst ` set m"
      and "rfold (\<lambda>r m. if bt_has m (er_path r) then Err Corrupt
                 else Ok (bt_insert (er_path r) r m)) rs (bt_insert (er_path r) r m) = Ok m'"
      by (auto simp: bt_has_iff split: if_splits)
    from Cons.IH [OF this(2)] n show ?case by (auto simp: fst_bt_insert)
  qed simp
  with Inr assms show ?thesis by (auto simp: from_records_def)
qed

subsection \<open>The state sum\<close>

context setsum
begin

lemma m_sum_new: "m_sum E m_new = ss_zero E"
  by (simp add: m_sum_def m_new_def records_def bt_values_def sum_of_records_def)

lemma m_sum_insert:
  assumes "m_ok m" "er_valid r" "m_insert r m = Ok m'"
  shows "m_sum E m' = ss_insert E (m_sum E m) (er_to_bytes r)"
proof -
  have "mset (records m') = mset (r # records m)"
    using mset_records_insert [OF assms] by simp
  from sum_of_records_mset [OF this] show ?thesis
    by (simp add: m_sum_def sum_of_records_Cons)
qed

lemma m_sum_remove:
  assumes "m_ok m" "er_valid r" "m_remove r m = Ok m'"
  shows "m_sum E m' = ss_remove E (m_sum E m) (er_to_bytes r)"
proof -
  have "m_insert r m' = Ok m" using assms m_insert_remove by blast
  then have "m_sum E m = ss_insert E (m_sum E m') (er_to_bytes r)"
    using assms m_remove_ok m_sum_insert by blast
  then show ?thesis by simp
qed

end

subsection \<open>Serialisation\<close>

text \<open>Every string of the program is UTF-8; for records this concerns the path.\<close>

definition m_utf8 :: "manifest \<Rightarrow> bool" where
  "m_utf8 m \<longleftrightarrow> (\<forall>r \<in> set (records m). utf8 (er_path r))"

lemma utf8_MODES: "m \<in> set MODES \<Longrightarrow> utf8 m"
  by (rule ascii_utf8) (auto simp: MODES_def byte_def)

lemma utf8_literals [simp]: "utf8 [TAB]" "utf8 [LF]" "utf8 MANIFEST_HEADER" "utf8 ''sum ''"
  by (rule ascii_utf8; auto simp: byte_def TAB_def LF_def MANIFEST_HEADER_def)+

lemma er_bytes_utf8: "er_valid r \<Longrightarrow> utf8 (er_path r) \<Longrightarrow> utf8 (er_to_bytes r)"
  unfolding er_to_bytes_def
  by (intro utf8_append) (simp_all add: er_valid_iff utf8_MODES ascii_hex64)

lemma utf8_concat: "(\<And>x. x \<in> set xs \<Longrightarrow> utf8 x) \<Longrightarrow> utf8 (concat xs)"
  by (induction xs) (auto intro: utf8_append utf8.nil)

lemma sort_image_bytes: "\<exists>rs'. sort (map er_to_bytes rs) = map er_to_bytes rs' \<and> mset rs' = mset rs"
proof -
  have "set (sort (map er_to_bytes rs)) \<subseteq> er_to_bytes ` set rs" by simp
  have "mset (map er_to_bytes (sort_key er_to_bytes rs)) = mset (map er_to_bytes rs)" by simp
  moreover have "sorted (map er_to_bytes (sort_key er_to_bytes rs))" by simp
  ultimately have "sort (map er_to_bytes rs) = map er_to_bytes (sort_key er_to_bytes rs)"
    by (intro properties_for_sort) auto
  then show ?thesis by (metis mset_sort)
qed

lemma strip_LF_line [simp]: "strip_LF (s @ [LF]) = s"
  by (simp add: strip_LF_def)

lemma split_LF_piece:
  "LF \<notin> set a \<Longrightarrow> split_inclusive LF (a @ LF # b) = (a @ [LF]) # split_inclusive LF b"
  by (rule split_inclusive_piece)

context setsum
begin

lemma m_parse_to_bytes:
  assumes m: "m_ok m" and u: "m_utf8 m"
  shows "m_parse E (m_to_bytes E m) = Ok m"
proof -
  have v: "list_all er_valid (records m)"
    using m by (auto simp: list_all_iff set_records dest: m_ok_get)
  obtain rs where rs: "sort (map er_to_bytes (records m)) = map er_to_bytes rs"
    "mset rs = mset (records m)" using sort_image_bytes by blast
  have set_rs: "set rs = set (records m)" using rs(2) mset_eq_setD by blast
  with v have vr: "list_all er_valid rs" by (simp add: list_all_iff)
  let ?h = "ss_hexdigest E (m_sum E m)"
  have "utf8 (concat (map er_to_bytes rs))"
    using vr u set_rs by (auto intro!: utf8_concat er_bytes_utf8 simp: m_utf8_def list_all_iff)
  then have utf: "from_utf8 (m_to_bytes E m)"
    unfolding from_utf8_iff m_to_bytes_def rs(1)
    by (intro utf8_append) (simp_all add: ascii_hex64)
  have "split_inclusive LF (concat (map er_to_bytes rs)) = map er_to_bytes rs"
  proof -
    have "LF \<notin> set p" if "p \<in> set (map er_to_line rs)" for p
      using that vr by (auto simp: list_all_iff er_line_no_LF)
    then have "split_inclusive LF (concat (map (\<lambda>p. p @ [LF]) (map er_to_line rs))) =
               map (\<lambda>p. p @ [LF]) (map er_to_line rs)"
      by (rule split_inclusive_concat)
    then show ?thesis by (simp add: comp_def er_bytes_line [abs_def])
  qed
  moreover have a: "LF \<notin> set (''sum '' @ ?h)" and b: "LF \<notin> set MANIFEST_HEADER"
    using is_hex64_not_in(2) [OF hexdigest_hex] by (simp_all add: LF_def MANIFEST_HEADER_def)
  moreover have "m_to_bytes E m =
      MANIFEST_HEADER @ LF # ((''sum '' @ ?h) @ LF # concat (map er_to_bytes rs))"
    by (simp add: m_to_bytes_def rs(1))
  ultimately have "split_inclusive LF (m_to_bytes E m) =
      (MANIFEST_HEADER @ [LF]) # ((''sum '' @ ?h) @ [LF]) # map er_to_bytes rs"
    by (simp only: split_LF_piece [OF a] split_LF_piece [OF b])
  then show ?thesis
    using utf m rs(2) vr
    by (simp add: m_parse_def Let_def er_bytes.dec_encs from_records_records sum_from_hexdigest_def
        del: append_assoc append.simps)
qed

lemma next_line_strip: "next_line ls = (l, rest) \<Longrightarrow> strip_LF l \<noteq> [] \<Longrightarrow> ls = l # rest"
  by (cases ls) (auto simp: strip_LF_def strip_suffix_def ends_with_def)

lemma m_parse_sound:
  assumes "m_parse E bs = Ok m"
  shows "m_ok m \<and> from_utf8 bs \<and>
    (\<exists>hl sl ls claimed rs. split_inclusive LF bs = hl # sl # ls \<and>
       strip_LF hl = MANIFEST_HEADER \<and> strip_LF sl = ''sum '' @ claimed \<and>
       sum_from_hexdigest E claimed = Ok (m_sum E m) \<and>
       list_all2 (\<lambda>l r. er_parse l = Ok r) ls rs \<and> set (records m) = set rs)"
proof -
  obtain hl ls1 where 1: "next_line (split_inclusive LF bs) = (hl, ls1)" by force
  obtain sl ls where 2: "next_line ls1 = (sl, ls)" by force
  from assms 1 2 obtain claimed rs where u: "from_utf8 bs" and h: "strip_LF hl = MANIFEST_HEADER"
    and c: "strip_prefix ''sum '' (strip_LF sl) = Some claimed"
    and f: "sum_from_hexdigest E claimed = Ok (m_sum E m)"
    and r: "rmapM er_parse ls = Ok rs" and m: "from_records rs = Ok m"
    by (auto simp: m_parse_def Let_def split: if_splits)
  from c have sl: "strip_LF sl = ''sum '' @ claimed" by (simp only: strip_prefix_Some_iff)
  have "split_inclusive LF bs = hl # ls1" "ls1 = sl # ls"
    using next_line_strip [OF 1] next_line_strip [OF 2] h sl by (simp_all add: MANIFEST_HEADER_def)
  moreover from r have l: "list_all2 (\<lambda>l r. er_parse l = Ok r) ls rs" by (simp only: rmapM_Inr_iff)
  moreover from l have "list_all er_valid rs"
    by (auto simp: list_all2_conv_all_nth list_all_length dest: er_parse_Ok(1))
  ultimately show ?thesis using from_records_ok [OF m] u h sl f by blast
qed

end

end
