(* ===== verification/Blobs.thy ===== *)
theory Blobs
  imports Ident
begin

text \<open>
  \<open>src/src/blobs.rs\<close>: the content-addressed blob pool.  The directory tree under
  \<open>blobs/\<close> is a map from names to the file's bytes together with whether the file
  is durable, that is, survives a crash.  A write that fsyncs makes its own file
  durable, \<open>sync\<close> makes every file durable, and a crash keeps exactly the durable
  ones.  Temporary files, the fan-out directories and I/O failures of the file
  system are not modelled; an absent file is an I/O error, as in the code.

  The contract of a content-addressed store is the locale \<open>content_store\<close>,
  interpreted on this pool.
\<close>

type_synonym pool = "(string, bytes \<times> bool) btree"

datatype durability = Immediate | Deferred

definition path_for :: "string \<Rightarrow> (string \<times> string) result" where
  "path_for h = (if \<not> is_hex64 h then Err Invalid else Ok (take 2 h, drop 2 h))"

definition blob_has :: "pool \<Rightarrow> string \<Rightarrow> bool result" where
  "blob_has s h = rmap (\<lambda>_. bt_has s h) (path_for h)"

definition blob_get :: "pool \<Rightarrow> string \<Rightarrow> bytes result" where
  "blob_get s h = rbind (path_for h) (\<lambda>_. rmap fst (ok_or Io (bt_get s h)))"

definition blob_list :: "pool \<Rightarrow> string list" where
  "blob_list s = filter is_hex64 (bt_keys s)"

definition blob_write :: "'s env \<Rightarrow> durability \<Rightarrow> bytes \<Rightarrow> pool \<Rightarrow> (string \<times> pool) result" where
  "blob_write E d content s =
     (let h = sha3_hex E content in
      rbind (path_for h) (\<lambda>_.
        if bt_has s h then Ok (h, s)
        else Ok (h, bt_insert h (content, d = Immediate) s)))"

definition blob_put :: "'s env \<Rightarrow> bytes \<Rightarrow> pool \<Rightarrow> (string \<times> pool) result" where
  "blob_put E = blob_write E Immediate"

definition blob_put_unsynced :: "'s env \<Rightarrow> bytes \<Rightarrow> pool \<Rightarrow> (string \<times> pool) result" where
  "blob_put_unsynced E = blob_write E Deferred"

definition blob_sync :: "pool \<Rightarrow> pool" where
  "blob_sync s = map (\<lambda>(h, c, d). (h, c, True)) s"

definition blob_remove :: "string \<Rightarrow> pool \<Rightarrow> pool result" where
  "blob_remove h s = rmap (\<lambda>_. bt_remove h s) (path_for h)"

text \<open>What is left of the pool after a crash.\<close>

definition blob_crash :: "pool \<Rightarrow> pool" where
  "blob_crash s = filter (\<lambda>(h, c, d). d) s"

subsection \<open>The invariant: the name is the hash\<close>

definition pool_ok :: "'s env \<Rightarrow> pool \<Rightarrow> bool" where
  "pool_ok E s \<longleftrightarrow> bt_ok s \<and> (\<forall>(h, c, d) \<in> set s. sha3_hex E c = h \<and> is_hex64 h)"

lemma path_for_Ok: "path_for h = Ok p \<longleftrightarrow> is_hex64 h \<and> p = (take 2 h, drop 2 h)"
  by (auto simp: path_for_def)

lemma blob_get_Ok: "blob_get s h = Ok c \<longleftrightarrow> is_hex64 h \<and> (\<exists>d. bt_get s h = Some (c, d))"
  by (auto simp: blob_get_def path_for_Ok)

lemma blob_has_Ok: "blob_has s h = Ok b \<longleftrightarrow> is_hex64 h \<and> b = (\<exists>x. bt_get s h = Some x)"
  by (auto simp: blob_has_def path_for_Ok bt_has_def)

lemma pool_ok_bt: "pool_ok E s \<Longrightarrow> bt_ok s"
  by (simp add: pool_ok_def)

lemma pool_ok_get: "pool_ok E s \<Longrightarrow> bt_get s h = Some (c, d) \<Longrightarrow> sha3_hex E c = h \<and> is_hex64 h"
  by (auto simp: pool_ok_def dest!: map_of_SomeD)

lemma pool_ok_iff:
  "pool_ok E s \<longleftrightarrow> bt_ok s \<and> (\<forall>h c d. bt_get s h = Some (c, d) \<longrightarrow> sha3_hex E c = h \<and> is_hex64 h)"
proof (cases "bt_ok s")
  case True
  then show ?thesis
    by (simp add: pool_ok_def Ball_def split_def btree.entries_get [OF True, symmetric])
qed (simp add: pool_ok_def)

lemma pool_ok_Nil [simp]: "pool_ok E []"
  by (simp add: pool_ok_def)

lemma blob_write_Ok:
  "blob_write E d c s = Ok (h, s') \<longleftrightarrow>
     h = sha3_hex E c \<and> is_hex64 h \<and>
     s' = (if bt_has s h then s else bt_insert h (c, d = Immediate) s)"
  by (auto simp: blob_write_def Let_def path_for_Ok split: if_splits)

lemma blob_write_total: "digest_law E \<Longrightarrow> \<exists>s'. blob_write E d c s = Ok (sha3_hex E c, s')"
  by (simp add: blob_write_def Let_def path_for_def is_hex64_sha3)

lemma pool_ok_write: "pool_ok E s \<Longrightarrow> blob_write E d c s = Ok (h, s') \<Longrightarrow> pool_ok E s'"
  by (auto simp: blob_write_Ok pool_ok_iff bt_ok_insert bt_get_insert split: if_splits)

lemma pool_ok_remove: "pool_ok E s \<Longrightarrow> blob_remove h s = Ok s' \<Longrightarrow> pool_ok E s'"
  by (auto simp: blob_remove_def pool_ok_iff bt_ok_remove bt_get_remove split: if_splits)

lemma bt_get_sync: "bt_get (blob_sync s) h = map_option (\<lambda>(c, d). (c, True)) (bt_get s h)"
  by (induction s) (auto simp: blob_sync_def)

lemma bt_get_crash:
  "bt_ok s \<Longrightarrow> bt_get (blob_crash s) h = (case bt_get s h of Some (c, True) \<Rightarrow> Some (c, True) | _ \<Rightarrow> None)"
proof (induction s)
  case (Cons p s)
  obtain k c d where p: "p = (k, c, d)" by (cases p) auto
  with Cons.prems have n: "bt_get s k = None"
    by (auto simp: bt_ok_Cons map_of_eq_None_iff)
  with Cons p show ?case by (auto simp: blob_crash_def bt_ok_Cons)
qed (simp add: blob_crash_def)

lemma bt_ok_sync: "bt_ok s \<Longrightarrow> bt_ok (blob_sync s)"
  by (simp add: bt_ok_def blob_sync_def comp_def split_def)

lemma pool_ok_sync: "pool_ok E s \<Longrightarrow> pool_ok E (blob_sync s)"
  by (auto simp: pool_ok_iff bt_ok_sync bt_get_sync)

lemma blob_sync_crash: "blob_crash (blob_sync s) = blob_sync s"
  by (induction s) (auto simp: blob_crash_def blob_sync_def)

lemma blob_get_sync [simp]: "blob_get (blob_sync s) h = blob_get s h"
  by (simp add: blob_get_def bt_get_sync option.map_comp comp_def split_def
      option.case_distrib ok_or.simps rmap_def) (cases "bt_get s h"; auto)

subsection \<open>A content-addressed store as an interface\<close>

text \<open>
  What the components that read and write content rely on: a stored content is
  found under its name with exactly its bytes, the store only grows, and a name
  never changes its content.
\<close>

locale content_store =
  fixes name :: "'c \<Rightarrow> 'n"
    and lookup :: "'st \<Rightarrow> 'n \<Rightarrow> 'c option"
    and store :: "'c \<Rightarrow> 'st \<Rightarrow> 'st"
    and inv :: "'st \<Rightarrow> bool"
  assumes named: "inv s \<Longrightarrow> lookup s n = Some c \<Longrightarrow> name c = n"
    and inv_store: "inv s \<Longrightarrow> inv (store c s)"
    and present: "inv s \<Longrightarrow> \<exists>c'. lookup (store c s) (name c) = Some c'"
    and grows: "inv s \<Longrightarrow> lookup s n = Some c' \<Longrightarrow> lookup (store c s) n = Some c'"
    and only: "inv s \<Longrightarrow> lookup (store c s) n = Some c' \<Longrightarrow> lookup s n = None \<Longrightarrow> n = name c \<and> c' = c"
begin

lemma store_many_grows:
  "inv s \<Longrightarrow> lookup s n = Some c \<Longrightarrow> lookup (fold store cs s) n = Some c"
  by (induction cs arbitrary: s) (auto simp: inv_store grows)

lemma store_many_inv: "inv s \<Longrightarrow> inv (fold store cs s)"
  by (induction cs arbitrary: s) (auto simp: inv_store)

text \<open>A stored content is found again, unless its name already collided.\<close>

lemma store_found:
  assumes "inv s" "\<And>c'. lookup s (name c) = Some c' \<Longrightarrow> c' = c"
  shows "lookup (store c s) (name c) = Some c"
proof -
  obtain c' where c': "lookup (store c s) (name c) = Some c'" using present assms by blast
  then show ?thesis
  proof (cases "lookup s (name c)")
    case None
    with c' only assms show ?thesis by blast
  next
    case (Some c'')
    with assms(2) have "lookup s (name c) = Some c" by blast
    then show ?thesis using grows [OF assms(1)] by blast
  qed
qed

lemma store_many_present:
  "inv s \<Longrightarrow> c \<in> set cs \<Longrightarrow> \<exists>c'. lookup (fold store cs s) (name c) = Some c' \<and> name c' = name c"
proof (induction cs arbitrary: s)
  case (Cons x cs)
  show ?case
  proof (cases "c = x")
    case True
    obtain c' where "lookup (store c s) (name c) = Some c'" using present Cons.prems by blast
    then have "lookup (fold store cs (store c s)) (name c) = Some c'"
      using Cons.prems by (intro store_many_grows inv_store)
    with True show ?thesis
      using named [OF store_many_inv [OF inv_store [OF Cons.prems(1)]]] by fastforce
  next
    case False
    with Cons show ?thesis by (simp add: inv_store)
  qed
qed simp

lemma store_idempotent:
  assumes "inv s"
  shows "lookup (store c (store c s)) n = lookup (store c s) n"
proof (cases "lookup (store c s) n")
  case (Some c')
  with grows [OF inv_store [OF assms] Some] show ?thesis by simp
next
  case None
  then show ?thesis using only [OF inv_store [OF assms, of c], of c n] present [OF assms, of c]
    by (cases "lookup (store c (store c s)) n") auto
qed

end

definition pool_lookup :: "pool \<Rightarrow> string \<Rightarrow> bytes option" where
  "pool_lookup s h = map_option fst (bt_get s h)"

definition pool_store :: "'s env \<Rightarrow> durability \<Rightarrow> bytes \<Rightarrow> pool \<Rightarrow> pool" where
  "pool_store E d c s = (case blob_write E d c s of Inl _ \<Rightarrow> s | Inr (h, s') \<Rightarrow> s')"

text \<open>The digest as an interface; the pool is a content store for any such digest.\<close>

locale hashing =
  fixes E :: "'s env"
  assumes digest_32: "digest_law E"
begin

lemma sha3_hex64 [simp]: "is_hex64 (sha3_hex E x)"
  using digest_32 by (rule is_hex64_sha3)

lemma write_total: "\<exists>s'. blob_write E d c s = Ok (sha3_hex E c, s')"
  using digest_32 by (rule blob_write_total)

end

sublocale hashing \<subseteq> pool: content_store "sha3_hex E" pool_lookup "pool_store E d" "pool_ok E" for d
proof unfold_locales
  fix s n c c'
  assume s: "pool_ok E s"
  obtain s' where w: "blob_write E d c s = Ok (sha3_hex E c, s')"
    using write_total by blast
  then have st: "pool_store E d c s = s'" by (simp add: pool_store_def)
  show "pool_ok E (pool_store E d c s)" using pool_ok_write [OF s w] st by simp
  show "pool_lookup s n = Some c \<Longrightarrow> sha3_hex E c = n"
    using pool_ok_get [OF s] by (auto simp: pool_lookup_def)
  note s' = w [unfolded blob_write_Ok]
  show "\<exists>c'. pool_lookup (pool_store E d c s) (sha3_hex E c) = Some c'"
    using s' st pool_ok_bt [OF s] by (auto simp: pool_lookup_def bt_get_insert bt_has_def)
  show "pool_lookup s n = Some c' \<Longrightarrow> pool_lookup (pool_store E d c s) n = Some c'"
    using s' st pool_ok_bt [OF s] by (auto simp: pool_lookup_def bt_get_insert bt_has_def)
  show "pool_lookup (pool_store E d c s) n = Some c' \<Longrightarrow> pool_lookup s n = None \<Longrightarrow>
        n = sha3_hex E c \<and> c' = c"
    using s' st pool_ok_bt [OF s] by (auto simp: pool_lookup_def bt_get_insert split: if_splits)
qed

end
