(* ===== verification/Span.thy ===== *)
theory Span
  imports Utf8
begin

text \<open>
  The span operations of \<open>src/src/patch.rs\<close>: counting and finding occurrences,
  replacing the unique occurrence of a span, and the translation of a
  replace-all into uniquely anchored edits.  Main results: the one-scan search
  agrees with the counting definition; edits of disjoint spans commute; the
  anchored edits exist for every text that contains the span, each is unique
  when its turn comes, and replaying them is the one-pass replace-all.
\<close>

definition slice :: "nat \<Rightarrow> nat \<Rightarrow> 'a list \<Rightarrow> 'a list" where
  "slice from to xs = drop from (take to xs)"

definition occurs_at :: "bytes \<Rightarrow> bytes \<Rightarrow> nat \<Rightarrow> bool" where
  "occurs_at haystack needle i \<longleftrightarrow> slice i (i + length needle) haystack = needle"

definition count_occurrences :: "bytes \<Rightarrow> bytes \<Rightarrow> nat" where
  "count_occurrences haystack needle =
     (if needle = [] \<or> length needle > length haystack then 0
      else length (filter (occurs_at haystack needle)
             [0..<Suc (length haystack - length needle)]))"

text \<open>\<open>Ok\<close> is the offset of the one occurrence; \<open>Err\<close> carries the count otherwise.\<close>

definition find_unique :: "bytes \<Rightarrow> bytes \<Rightarrow> nat + nat" where
  "find_unique haystack needle =
     (if needle = [] \<or> length needle > length haystack then Err 0
      else (case filter (occurs_at haystack needle)
                   [0..<Suc (length haystack - length needle)] of
              [] \<Rightarrow> Err 0
            | [at] \<Rightarrow> Ok at
            | _ # _ # more \<Rightarrow> Err (2 + length more)))"

definition replace_unique :: "bytes \<Rightarrow> bytes \<Rightarrow> bytes \<Rightarrow> nat + bytes" where
  "replace_unique content old new =
     rbind (find_unique content old) (\<lambda>at.
       Ok (take at content @ new @ drop (at + length old) content))"

subsection \<open>Occurrences\<close>

lemma slice_split: "i \<le> j \<Longrightarrow> take i h @ slice i j h @ drop j h = h"
proof -
  assume "i \<le> j"
  then have "take i h = take i (take j h)" by (simp add: min_absorb1)
  then have "take i h @ slice i j h = take j h"
    unfolding slice_def by (metis append_take_drop_id)
  then show ?thesis by (metis append.assoc append_take_drop_id)
qed

lemma occurs_at_split:
  "occurs_at h n i \<Longrightarrow> h = take i h @ n @ drop (i + length n) h"
  using slice_split [of i "i + length n" h] by (simp add: occurs_at_def)

lemma occurs_at_append [simp]: "occurs_at (a @ n @ b) n (length a)"
  by (simp add: occurs_at_def slice_def)

text \<open>The positions the scans enumerate.\<close>

definition positions :: "bytes \<Rightarrow> bytes \<Rightarrow> nat set" where
  "positions h n = {i. i + length n \<le> length h \<and> occurs_at h n i}"

lemma scan_set:
  "length n \<le> length h \<Longrightarrow>
   set (filter (occurs_at h n) [0..<Suc (length h - length n)]) = positions h n"
  by (auto simp: positions_def less_Suc_eq_le simp del: upt_Suc)

lemma positions_iff: "i \<in> positions h n \<longleftrightarrow> (\<exists>a b. h = a @ n @ b \<and> length a = i)"
proof
  assume "i \<in> positions h n"
  then have le: "i + length n \<le> length h" and o: "occurs_at h n i"
    by (auto simp: positions_def)
  from occurs_at_split [OF o] le show "\<exists>a b. h = a @ n @ b \<and> length a = i"
    by (intro exI [of _ "take i h"] exI [of _ "drop (i + length n) h"]) simp
next
  assume "\<exists>a b. h = a @ n @ b \<and> length a = i"
  then show "i \<in> positions h n" by (auto simp: positions_def)
qed

lemma finite_positions [simp]: "finite (positions h n)"
  by (rule finite_subset [of _ "{..length h}"]) (auto simp: positions_def)

lemma count_occurrences_card:
  "count_occurrences h n = (if n = [] then 0 else card (positions h n))"
proof (cases "n = [] \<or> length n > length h")
  case True
  moreover have "positions h n = {}" if "length n > length h" using that by (auto simp: positions_def)
  ultimately show ?thesis by (auto simp: count_occurrences_def)
next
  case False
  then have "card (positions h n) =
      length (filter (occurs_at h n) [0..<Suc (length h - length n)])"
    by (subst scan_set [symmetric]) (simp_all only: distinct_card distinct_filter distinct_upt, auto)
  with False show ?thesis by (simp add: count_occurrences_def)
qed

lemma find_unique_Ok:
  "find_unique h n = Ok at \<longleftrightarrow> n \<noteq> [] \<and> positions h n = {at}"
proof (cases "n = [] \<or> length n > length h")
  case True
  moreover have "positions h n = {}" if "length n > length h" using that by (auto simp: positions_def)
  ultimately show ?thesis by (auto simp: find_unique_def)
next
  case False
  let ?f = "filter (occurs_at h n) [0..<Suc (length h - length n)]"
  have d: "distinct ?f" by simp
  have s: "set ?f = positions h n" using False scan_set [of n h] by linarith
  have f: "find_unique h n = (case ?f of [] \<Rightarrow> Err 0 | [at] \<Rightarrow> Ok at | _ # _ # more \<Rightarrow> Err (2 + length more))"
    using False by (simp add: find_unique_def)
  consider "?f = []" | a where "?f = [a]" | a b r where "?f = a # b # r"
    by (cases ?f; cases "tl ?f") auto
  then show ?thesis
  proof cases
    case 3
    with d s have "a \<in> positions h n" "b \<in> positions h n" "a \<noteq> b" by (auto simp del: upt_Suc)
    with 3 f show ?thesis by auto
  next
    case 2
    with s have "positions h n = {a}" by (metis list.set(1) list.simps(15))
    with 2 f False show ?thesis by auto
  next
    case 1
    with s have "positions h n = {}" by (metis list.set(1))
    with 1 f show ?thesis by simp
  qed
qed

text \<open>The search and the count agree: the error carries the count.\<close>

lemma find_unique_count:
  "find_unique h n = (if count_occurrences h n = 1
     then Ok (the_elem (positions h n)) else Err (count_occurrences h n))"
proof (cases "n = [] \<or> length n > length h")
  case True
  then show ?thesis by (auto simp: find_unique_def count_occurrences_def)
next
  case False
  let ?f = "filter (occurs_at h n) [0..<Suc (length h - length n)]"
  have s: "set ?f = positions h n" using False scan_set [of n h] by linarith
  consider "?f = []" | a where "?f = [a]" | a b r where "?f = a # b # r"
    by (cases ?f; cases "tl ?f") auto
  then show ?thesis
  proof cases
    case 2
    with s have "positions h n = {a}" by (metis list.set(1) list.simps(15))
    with 2 False show ?thesis by (simp add: find_unique_def count_occurrences_def del: upt_Suc)
  qed (use False in \<open>simp_all add: find_unique_def count_occurrences_def del: upt_Suc\<close>)
qed

lemma replace_unique_Ok:
  "replace_unique c old new = Ok c' \<longleftrightarrow>
     old \<noteq> [] \<and> (\<exists>a b. c = a @ old @ b \<and> positions c old = {length a} \<and> c' = a @ new @ b)"
proof
  assume "replace_unique c old new = Ok c'"
  then obtain at where n: "old \<noteq> []" and p: "positions c old = {at}"
    and c': "c' = take at c @ new @ drop (at + length old) c"
    by (auto simp: replace_unique_def find_unique_Ok)
  from p obtain a b where "c = a @ old @ b" "length a = at"
    using positions_iff by blast
  with n p c' show "old \<noteq> [] \<and> (\<exists>a b. c = a @ old @ b \<and> positions c old = {length a} \<and> c' = a @ new @ b)"
    by auto
next
  assume "old \<noteq> [] \<and> (\<exists>a b. c = a @ old @ b \<and> positions c old = {length a} \<and> c' = a @ new @ b)"
  then show "replace_unique c old new = Ok c'"
    by (auto simp: replace_unique_def find_unique_Ok)
qed

lemma replace_unique_count:
  "count_occurrences c old \<noteq> 1 \<Longrightarrow> replace_unique c old new = Err (count_occurrences c old)"
  by (simp add: replace_unique_def find_unique_count)

lemma count_1_positions: "count_occurrences h n = Suc 0 \<longleftrightarrow> n \<noteq> [] \<and> (\<exists>i. positions h n = {i})"
  by (auto simp: count_occurrences_card card_1_singleton_iff [unfolded One_nat_def])

text \<open>Editing a span whose slice is unique replaces exactly that slice.\<close>

lemma replace_unique_slice:
  assumes "count_occurrences c (slice i j c) = 1" "i \<le> j" "j \<le> length c"
  shows "replace_unique c (slice i j c) new = Ok (take i c @ new @ drop j c)"
proof -
  have c: "c = take i c @ slice i j c @ drop j c"
    by (simp add: slice_split [OF assms(2)])
  then have "i \<in> positions c (slice i j c)"
    using assms(2,3) by (subst positions_iff) (metis length_take min.absorb2 le_trans)
  with assms(1) have "positions c (slice i j c) = {i}"
    by (auto simp: count_1_positions)
  moreover have "length (take i c) = i" using assms(2,3) by simp
  moreover have "slice i j c \<noteq> []" using assms(1) by (auto simp: count_1_positions)
  ultimately show ?thesis using c unfolding replace_unique_Ok by metis
qed

lemma count_self: "c \<noteq> [] \<Longrightarrow> count_occurrences c c = 1"
  by (auto simp: count_1_positions positions_def occurs_at_def slice_def)

subsection \<open>Edits of disjoint spans commute\<close>

lemma disjoint_edits_commute:
  assumes "find_unique c o1 = Ok i" "find_unique c o2 = Ok j" "i + length o1 \<le> j"
    and "replace_unique c o1 n1 = Ok c1" "replace_unique c1 o2 n2 = Ok c12"
    and "replace_unique c o2 n2 = Ok c2" "replace_unique c2 o1 n1 = Ok c21"
  shows "c12 = c21"
proof -
  from assms(1,2) have p: "positions c o1 = {i}" "positions c o2 = {j}"
    by (auto simp: find_unique_Ok)
  then obtain a r where a: "c = a @ o1 @ r" "length a = i" using positions_iff by blast
  from p obtain a' d where d: "c = a' @ o2 @ d" "length a' = j" using positions_iff by blast
  define b where "b = drop (i + length o1) a'"
  have "a' = take j c" using d by simp
  moreover have "take (i + length o1) c = a @ o1" using a by simp
  ultimately have "a' = (a @ o1) @ b"
    using assms(3) unfolding b_def by (metis append_take_drop_id min.absorb1 take_take)
  with d have c: "c = a @ o1 @ b @ o2 @ d" and j: "length (a @ o1 @ b) = j" by auto
  have c1: "c1 = a @ n1 @ b @ o2 @ d"
    using assms(4) p(1) a(2) by (auto simp: replace_unique_Ok c)
  have c2: "c2 = a @ o1 @ b @ n2 @ d"
    using assms(6) p(2) j c by (simp add: replace_unique_def find_unique_Ok assms(2))
  have "length (a @ n1 @ b) \<in> positions c1 o2"
    unfolding positions_iff c1 by (rule exI [of _ "a @ n1 @ b"]) simp
  with assms(5) have "c12 = take (length (a @ n1 @ b)) c1 @ n2 @ drop (length (a @ n1 @ b) + length o2) c1"
    by (auto simp: replace_unique_def find_unique_Ok)
  moreover have "length a \<in> positions c2 o1"
    using c2 by (subst positions_iff) auto
  with assms(7) have "c21 = take (length a) c2 @ n1 @ drop (length a + length o1) c2"
    by (auto simp: replace_unique_def find_unique_Ok)
  ultimately show ?thesis by (simp add: c1 c2)
qed

subsection \<open>Replace-all as anchored edits\<close>

definition is_LF :: "char \<Rightarrow> bool" where
  "is_LF c \<longleftrightarrow> c = CHR 0x0A"

definition line_start :: "bytes \<Rightarrow> nat \<Rightarrow> nat" where
  "line_start content from =
     (case rposition is_LF (take from content) of None \<Rightarrow> 0 | Some i \<Rightarrow> i + 1)"

definition line_end :: "bytes \<Rightarrow> nat \<Rightarrow> nat" where
  "line_end content from =
     (case position is_LF (drop from content) of
        None \<Rightarrow> length content | Some i \<Rightarrow> from + i + 1)"

lemma line_start_le: "line_start c i \<le> i"
  by (auto simp: line_start_def split: option.splits dest!: rposition_SomeD)

lemma line_end_gt: "i < length c \<Longrightarrow> i < line_end c i \<and> line_end c i \<le> length c"
  by (auto simp: line_end_def split: option.splits dest!: position_SomeD)

lemma line_end_ge: "i \<le> length c \<Longrightarrow> i \<le> line_end c i \<and> line_end c i \<le> length c"
  by (auto simp: line_end_def split: option.splits dest!: position_SomeD)

text \<open>
  The widening loop: whole lines in both directions until the window is unique.
  A window outside the content, where the slice of the source would panic, is
  \<open>None\<close> as well.
\<close>

function widen :: "bytes \<Rightarrow> nat \<Rightarrow> nat \<Rightarrow> (nat \<times> nat) option" where
  "widen content from to =
     (if from > to \<or> to > length content then None
      else if count_occurrences content (slice from to content) = 1 then Some (from, to)
      else if from = 0 \<and> to = length content then None
      else widen content
             (if from > 0 then line_start content (from - 1) else from)
             (if to < length content then line_end content to else to))"
  by pat_completeness auto
termination
proof (relation "measure (\<lambda>(c, from, to). from + (length c - to))", goal_cases)
  case (2 c lo hi)
  have "line_start c (lo - 1) < lo" if "lo > 0"
    using line_start_le [of c "lo - 1"] that by linarith
  moreover have "length c - line_end c hi < length c - hi" if "hi < length c"
    using line_end_gt [OF that] that by linarith
  ultimately show ?case using 2 by (cases "lo > 0"; cases "hi < length c") auto
qed simp

declare widen.simps [simp del]

definition unique_window :: "bytes \<Rightarrow> nat \<Rightarrow> nat \<Rightarrow> (nat \<times> nat) option" where
  "unique_window content at len =
     widen content (line_start content at) (line_end content (at + len))"

text \<open>The starts of the non-overlapping occurrences, left to right.\<close>

function occurrence_starts :: "bytes \<Rightarrow> bytes \<Rightarrow> nat \<Rightarrow> nat list" where
  "occurrence_starts content old at =
     (if old = [] \<or> at + length old > length content then []
      else if occurs_at content old at
        then at # occurrence_starts content old (at + length old)
        else occurrence_starts content old (at + 1))"
  by pat_completeness auto
termination
  by (relation "measure (\<lambda>(c, old, at). Suc (length c) - at)")
    (auto simp: diff_less_mono2)

declare occurrence_starts.simps [simp del]

text \<open>
  One iteration of the edit loop over the working content, the edits so far and
  the shift (an \<open>isize\<close>) the earlier replacements caused.
\<close>

definition anchor_step ::
  "string \<Rightarrow> string \<Rightarrow> nat \<Rightarrow> bytes \<times> (string \<times> string) list \<times> int \<Rightarrow>
   (bytes \<times> (string \<times> string) list \<times> int) option" where
  "anchor_step old new start st =
     (case st of (working, edits, shift) \<Rightarrow>
      let at = nat (int start + shift) in
      case unique_window working at (length old) of
        None \<Rightarrow> None
      | Some (from, to) \<Rightarrow>
          let span = slice from to working in
          if from_utf8 span \<and> from_utf8 (slice from at working) \<and>
             from_utf8 (slice (at + length old) to working) then
            Some (take at working @ new @ drop (at + length old) working,
                  edits @ [(span, slice from at working @ new @ slice (at + length old) to working)],
                  shift + int (length new) - int (length old))
          else None)"

fun anchor_loop ::
  "string \<Rightarrow> string \<Rightarrow> nat list \<Rightarrow> bytes \<times> (string \<times> string) list \<times> int \<Rightarrow>
   (bytes \<times> (string \<times> string) list \<times> int) option" where
  "anchor_loop old new [] st = Some st"
| "anchor_loop old new (s # starts) st =
     Option.bind (anchor_step old new s st) (anchor_loop old new starts)"

definition anchored_replace_all :: "bytes \<Rightarrow> string \<Rightarrow> string \<Rightarrow> (string \<times> string) list option" where
  "anchored_replace_all content old new =
     (if old = [] \<or> \<not> from_utf8 content then None
      else let starts = occurrence_starts content old 0 in
        if starts = [] then None
        else map_option (\<lambda>(working, edits, shift). edits)
               (anchor_loop old new starts (content, [], 0)))"

text \<open>The specification: replacing every non-overlapping occurrence in one pass.\<close>

function replace_all :: "bytes \<Rightarrow> bytes \<Rightarrow> bytes \<Rightarrow> bytes" where
  "replace_all old new [] = []"
| "replace_all old new (c # cs) =
     (if old \<noteq> [] \<and> starts_with old (c # cs)
      then new @ replace_all old new (drop (length old) (c # cs))
      else c # replace_all old new cs)"
  by pat_completeness auto
termination by (relation "measure (\<lambda>(old, new, s). length s)") auto

text \<open>Applying a series of edits, each to what the one before left.\<close>

fun replay_edits :: "(string \<times> string) list \<Rightarrow> bytes \<Rightarrow> nat + bytes" where
  "replay_edits [] c = Ok c"
| "replay_edits ((old, new) # es) c = rbind (replace_unique c old new) (replay_edits es)"

subsection \<open>Anchored edits replay as one replace-all\<close>

lemma utf8_LF: "utf8 [CHR 0x0A]"
  by (rule ascii_utf8) (simp add: byte_def)

lemma boundary_after_LF:
  assumes "utf8 s" "i < length s" "s ! i = CHR 0x0A"
  shows "is_char_boundary s (Suc i)"
proof -
  have "is_char_boundary s i"
    using assms by (simp add: is_char_boundary_def is_cont_def byte_def)
  from utf8_split_boundary [OF assms(1) this]
  have "utf8 (take i s)" by simp
  from utf8_append [OF this utf8_LF]
  have "utf8 (take (Suc i) s)" using assms(2,3) by (simp add: take_Suc_conv_app_nth)
  with boundary_of_utf8_prefix [of "take (Suc i) s" "drop (Suc i) s"] assms
  show ?thesis by simp
qed

lemma boundary_0 [simp]: "is_char_boundary s 0"
  and boundary_length [simp]: "is_char_boundary s (length s)"
  by (simp_all add: is_char_boundary_def)

lemma boundary_line_start:
  assumes "utf8 s" "i \<le> length s" shows "is_char_boundary s (line_start s i)"
proof (cases "rposition is_LF (take i s)")
  case (Some j)
  from rposition_SomeD [OF this] assms(2) have "j < length s" "s ! j = CHR 0x0A"
    by (auto simp: is_LF_def)
  with Some assms(1) show ?thesis by (simp add: line_start_def boundary_after_LF)
qed (simp add: line_start_def)

lemma boundary_line_end:
  assumes "utf8 s" "i \<le> length s" shows "is_char_boundary s (line_end s i)"
proof (cases "position is_LF (drop i s)")
  case (Some j)
  from position_SomeD [OF this] have "i + j < length s" "s ! (i + j) = CHR 0x0A"
    by (auto simp: is_LF_def)
  with Some assms(1) show ?thesis by (simp add: line_end_def boundary_after_LF)
qed (simp add: line_end_def)

lemma slice_all [simp]: "slice 0 (length c) c = c"
  by (simp add: slice_def)

lemma widen_Some:
  assumes "utf8 c" "c \<noteq> []" "lo \<le> hi" "hi \<le> length c"
    "is_char_boundary c lo" "is_char_boundary c hi"
  shows "\<exists>l h. widen c lo hi = Some (l, h) \<and> l \<le> lo \<and> hi \<le> h \<and> h \<le> length c \<and>
    is_char_boundary c l \<and> is_char_boundary c h \<and> count_occurrences c (slice l h c) = 1"
  using assms
proof (induction c lo hi rule: widen.induct)
  case (1 c lo hi)
  show ?case
  proof (cases "count_occurrences c (slice lo hi c) = 1")
    case True
    with 1 show ?thesis by (auto simp: widen.simps [of c lo hi])
  next
    case False
    have ne: "\<not> (lo = 0 \<and> hi = length c)"
      using False count_self [OF 1(3)] by auto
    let ?l = "if lo > 0 then line_start c (lo - 1) else lo"
    let ?h = "if hi < length c then line_end c hi else hi"
    have l: "?l \<le> lo" using line_start_le [of c "lo - 1"] by auto
    have h: "hi \<le> ?h" "?h \<le> length c"
      using line_end_ge [of hi c] 1(5) by (auto split: if_splits)
    have "is_char_boundary c ?l" "is_char_boundary c ?h"
      using boundary_line_start [OF 1(2), of "lo - 1"] boundary_line_end [OF 1(2), of hi] 1
      by (auto split: if_splits)
    moreover have "\<not> (lo > hi \<or> hi > length c)" "?l \<le> ?h" using l h 1(4,5) by linarith+
    ultimately have "\<exists>l' h'. widen c ?l ?h = Some (l', h') \<and> l' \<le> ?l \<and> ?h \<le> h' \<and>
        h' \<le> length c \<and> is_char_boundary c l' \<and> is_char_boundary c h' \<and>
        count_occurrences c (slice l' h' c) = 1"
      using 1(1) [OF _ False ne 1(2,3) _ h(2)] by blast
    then obtain l' h' where "widen c ?l ?h = Some (l', h')" "l' \<le> ?l" "?h \<le> h'"
      "h' \<le> length c" "is_char_boundary c l'" "is_char_boundary c h'"
      "count_occurrences c (slice l' h' c) = 1" by blast
    moreover have "widen c lo hi = widen c ?l ?h"
      using False ne 1(4,5) by (subst widen.simps) (simp only: linorder_not_less [symmetric] simp_thms if_False)
    ultimately show ?thesis using l h(1)
      by (intro exI [of _ l'] exI [of _ h']) (simp only: simp_thms, linarith)
  qed
qed

lemma unique_window_Some:
  assumes "utf8 c" "c \<noteq> []" "at + len \<le> length c"
  shows "\<exists>l h. unique_window c at len = Some (l, h) \<and> l \<le> at \<and> at + len \<le> h \<and> h \<le> length c \<and>
    is_char_boundary c l \<and> is_char_boundary c h \<and> count_occurrences c (slice l h c) = 1"
proof -
  have "line_start c at \<le> at" "at + len \<le> line_end c (at + len)"
    "line_end c (at + len) \<le> length c"
    using line_start_le line_end_ge assms(3) by auto
  with widen_Some [OF assms(1,2), of "line_start c at" "line_end c (at + len)"]
    boundary_line_start [OF assms(1), of at] boundary_line_end [OF assms(1,3)] assms(3)
  show ?thesis unfolding unique_window_def by (metis add_leD1 le_trans)
qed

text \<open>One iteration of the loop is one uniquely anchored edit.\<close>

lemma anchor_step_Some:
  assumes "working = p @ old @ r" "utf8 working" "utf8 old" "old \<noteq> []"
    and at: "int start + shift = int (length p)"
  shows "\<exists>span repl. anchor_step old new start (working, edits, shift) =
      Some (p @ new @ r, edits @ [(span, repl)], shift + int (length new) - int (length old)) \<and>
      replace_unique working span repl = Ok (p @ new @ r) \<and> utf8 span"
proof -
  let ?at = "length p"
  have n: "nat (int start + shift) = ?at" using at by simp
  have le: "?at + length old \<le> length working" and ne: "working \<noteq> []" using assms by auto
  from unique_window_Some [OF assms(2) ne le] obtain l h where
    w: "unique_window working ?at (length old) = Some (l, h)" and
    b: "l \<le> ?at" "?at + length old \<le> h" "h \<le> length working"
      "is_char_boundary working l" "is_char_boundary working h"
    and c: "count_occurrences working (slice l h working) = 1" by blast
  have "\<not> is_cont (hd old)" using assms(3,4) utf8_start_not_cont [of "hd old" "tl old"] by simp
  then have "is_char_boundary working ?at"
    using assms(1,4) by (cases old) (auto simp: is_char_boundary_def nth_append)
  moreover have "utf8 p"
    using utf8_split_boundary [OF assms(2) \<open>is_char_boundary working ?at\<close>] assms(1) by simp
  then have "utf8 (p @ old)" using assms(3) by (rule utf8_append)
  then have "is_char_boundary working (?at + length old)"
    using boundary_of_utf8_prefix [of "p @ old" r] assms(1,2) by simp
  ultimately have u: "utf8 (slice l h working)" "utf8 (slice l ?at working)"
    "utf8 (slice (?at + length old) h working)"
    using b utf8_slice [OF assms(2)] by (simp_all add: slice_def)
  have "take l working @ slice l ?at working = p"
    using slice_split [OF b(1), of working] assms(1) by simp
  moreover have "slice (?at + length old) h working @ drop h working = r"
    using slice_split [OF b(2), of working] assms(1) by (simp add: assms(1))
  moreover have "replace_unique working (slice l h working)
      (slice l ?at working @ new @ slice (?at + length old) h working) =
      Ok (take l working @ (slice l ?at working @ new @ slice (?at + length old) h working)
          @ drop h working)"
    using replace_unique_slice [OF c] b by simp
  ultimately have "replace_unique working (slice l h working)
      (slice l ?at working @ new @ slice (?at + length old) h working) = Ok (p @ new @ r)"
    by (metis append_assoc)
  then show ?thesis using u w assms(1)
    by (auto simp: anchor_step_def n Let_def from_utf8_iff)
qed

lemma replace_all_drop_match:
  assumes "old \<noteq> []" "starts_with old s"
  shows "replace_all old new s = new @ replace_all old new (drop (length old) s)"
  using assms by (cases s) (auto simp: starts_with_iff)

lemma occurs_at_starts_with:
  "i + length n \<le> length h \<Longrightarrow> occurs_at h n i \<longleftrightarrow> starts_with n (drop i h)"
  by (auto simp: occurs_at_def slice_def starts_with_iff drop_take)
    (metis append_take_drop_id)

lemma replace_all_no_room: "length s < length old \<Longrightarrow> replace_all old new s = s"
proof (induction s)
  case (Cons c s)
  then have "\<not> starts_with old (c # s)" by (auto simp: starts_with_iff dest!: arg_cong [of _ _ length])
  with Cons show ?case by simp
qed simp

lemma anchor_loop_replays:
  assumes "utf8 (p @ drop pos content)" "utf8 old" "utf8 new" "old \<noteq> []"
    "int (length p) = int pos + shift" "pos \<le> length content"
  shows "\<exists>es shift'. anchor_loop old new (occurrence_starts content old pos)
      (p @ drop pos content, edits, shift) =
      Some (p @ replace_all old new (drop pos content), edits @ es, shift') \<and>
      replay_edits es (p @ drop pos content) = Ok (p @ replace_all old new (drop pos content)) \<and>
      length es = length (occurrence_starts content old pos)"
  using assms
proof (induction content old pos arbitrary: p edits shift rule: occurrence_starts.induct)
  case (1 content old pos)
  let ?s = "drop pos content"
  consider (stop) "pos + length old > length content"
    | (hit) "pos + length old \<le> length content" "occurs_at content old pos"
    | (miss) "pos + length old \<le> length content" "\<not> occurs_at content old pos" by linarith
  then show ?case
  proof cases
    case stop
    then show ?thesis using 1(8)
      by (auto simp: occurrence_starts.simps [of content old pos] replace_all_no_room)
  next
    case hit
    let ?r = "drop (pos + length old) content"
    have sw: "starts_with old ?s" using hit occurs_at_starts_with by blast
    then have s: "?s = old @ ?r"
      by (auto simp: starts_with_iff) (metis append_eq_conv_conj add.commute drop_drop)
    obtain span repl where step: "anchor_step old new pos (p @ ?s, edits, shift) =
        Some (p @ new @ ?r, edits @ [(span, repl)], shift + int (length new) - int (length old))"
      and rep: "replace_unique (p @ ?s) span repl = Ok (p @ new @ ?r)"
      using anchor_step_Some [of "p @ ?s" p old ?r pos shift new edits] s 1(3-7) by auto
    have "utf8 p \<and> utf8 ?r"
    proof -
      have "is_char_boundary (p @ ?s) (length p)"
        using utf8_start_not_cont [of "hd old" "tl old"] 1(4,6) s
        by (cases old) (auto simp: is_char_boundary_def nth_append)
      from utf8_split_boundary [OF 1(3) this] have "utf8 p" "utf8 ?s" by auto
      with utf8_append_cancel [OF 1(4), of ?r] s show ?thesis by simp
    qed
    then have "utf8 ((p @ new) @ ?r)" using 1(5) by (simp add: utf8_append)
    from 1(1) [OF _ hit(2) this 1(4-6), of "shift + int (length new) - int (length old)"
        "edits @ [(span, repl)]"] hit 1(6,7)
    obtain es shift' where
      "anchor_loop old new (occurrence_starts content old (pos + length old))
        ((p @ new) @ ?r, edits @ [(span, repl)], shift + int (length new) - int (length old)) =
        Some ((p @ new) @ replace_all old new ?r, (edits @ [(span, repl)]) @ es, shift')"
      "replay_edits es ((p @ new) @ ?r) = Ok ((p @ new) @ replace_all old new ?r)"
      "length es = length (occurrence_starts content old (pos + length old))" by auto
    moreover have "replace_all old new ?s = new @ replace_all old new ?r"
      using replace_all_drop_match [OF 1(6) sw] by (simp add: add.commute)
    ultimately show ?thesis using hit 1(6) step rep
      by (intro exI [of _ "(span, repl) # es"] exI [of _ shift'])
        (simp add: occurrence_starts.simps [of content old pos])
  next
    case miss
    have lt: "pos < length content" using miss 1(6) by (cases old) auto
    then have s: "?s = content ! pos # drop (Suc pos) content" by (simp add: Cons_nth_drop_Suc)
    have sw: "\<not> starts_with old ?s" using miss occurs_at_starts_with by blast
    from 1(2) [OF _ miss(2), of "p @ [content ! pos]" shift edits] miss 1 lt s
    obtain es shift' where
      "anchor_loop old new (occurrence_starts content old (pos + 1))
        ((p @ [content ! pos]) @ drop (pos + 1) content, edits, shift) =
        Some ((p @ [content ! pos]) @ replace_all old new (drop (pos + 1) content), edits @ es, shift')"
      "replay_edits es ((p @ [content ! pos]) @ drop (pos + 1) content) =
        Ok ((p @ [content ! pos]) @ replace_all old new (drop (pos + 1) content))"
      "length es = length (occurrence_starts content old (pos + 1))" by auto
    then show ?thesis using miss 1(6) s sw
      by (intro exI [of _ es] exI [of _ shift'])
        (simp add: occurrence_starts.simps [of content old pos])
  qed
qed

lemma anchored_edits_exist:
  assumes "from_utf8 content" "from_utf8 old" "from_utf8 new" "old \<noteq> []"
    "count_occurrences content old > 0"
  shows "\<exists>edits. anchored_replace_all content old new = Some edits \<and>
    replay_edits edits content = Ok (replace_all old new content) \<and>
    length edits = length (occurrence_starts content old 0)"
proof -
  have "occurrence_starts content old pos \<noteq> []"
    if "i \<in> positions content old" "pos \<le> i" for i pos
    using that
  proof (induction "i - pos" arbitrary: pos)
    case (Suc n)
    then have "occurrence_starts content old (pos + 1) \<noteq> []"
      by (intro Suc(1)) auto
    then show ?case using assms(4) Suc(3)
      by (auto simp: occurrence_starts.simps [of content old pos] positions_def)
        (use Suc.prems(2) in linarith)
  qed (auto simp: occurrence_starts.simps [of content old] positions_def assms(4))
  moreover obtain i where "i \<in> positions content old"
    using assms(4,5) by (auto simp: count_occurrences_card card_gt_0_iff)
  ultimately have ne: "occurrence_starts content old 0 \<noteq> []" by blast
  show ?thesis
    using anchor_loop_replays [of "[]" 0 content old new 0 "[]"] assms ne
    by (auto simp: anchored_replace_all_def from_utf8_iff)
qed

end
