(* ===== verification/B64.thy ===== *)
theory B64
  imports Prelude "HOL-Library.Word"
begin

text \<open>
  \<open>src/src/b64.rs\<close>: standard base64 with padding.  The 24-bit groups are \<open>u32\<close>
  values in the code and \<open>32 word\<close> here; \<open>as u8\<close> is \<open>to_u8\<close>, which keeps the
  low eight bits.  Main results: decoding inverts encoding, and an accepted
  input is a multiple of four bytes with padding only in its last group.
\<close>

unbundle bit_operations_syntax

type_synonym u32 = "32 word"

definition ALPHABET :: string where
  "ALPHABET = ''ABCDEFGHIJKLMNOPQRSTUVWXYZabcdefghijklmnopqrstuvwxyz0123456789+/''"

definition of_u8 :: "char \<Rightarrow> u32" where
  "of_u8 c = of_nat (of_char c)"

definition to_u8 :: "u32 \<Rightarrow> char" where
  "to_u8 w = char_of (unat w)"

text \<open>\<open>slice::chunks(n)\<close>.\<close>

function chunks :: "nat \<Rightarrow> 'a list \<Rightarrow> 'a list list" where
  "chunks n xs = (if n = 0 \<or> xs = [] then [] else take n xs # chunks n (drop n xs))"
  by pat_completeness auto
termination by (relation "measure (\<lambda>(n, xs). length xs)") auto

declare chunks.simps [simp del]

subsection \<open>Encoding\<close>

definition get_or_0 :: "bytes \<Rightarrow> nat \<Rightarrow> u32" where
  "get_or_0 chunk i = (if i < length chunk then of_u8 (chunk ! i) else 0)"

definition group24 :: "u32 \<Rightarrow> u32 \<Rightarrow> u32 \<Rightarrow> u32" where
  "group24 b0 b1 b2 = push_bit 16 b0 OR push_bit 8 b1 OR b2"

definition sextet :: "nat \<Rightarrow> u32 \<Rightarrow> char" where
  "sextet k n = ALPHABET ! unat (drop_bit k n AND 63)"

definition encode_chunk :: "bytes \<Rightarrow> string" where
  "encode_chunk chunk =
     (let n = group24 (get_or_0 chunk 0) (get_or_0 chunk 1) (get_or_0 chunk 2)
      in [sextet 18 n, sextet 12 n,
          if length chunk > 1 then sextet 6 n else CHR ''='',
          if length chunk > 2 then sextet 0 n else CHR ''=''])"

definition encode :: "bytes \<Rightarrow> string" where
  "encode input = concat (map encode_chunk (chunks 3 input))"

subsection \<open>Decoding\<close>

definition between :: "char \<Rightarrow> char \<Rightarrow> char \<Rightarrow> bool" where
  "between lo hi c \<longleftrightarrow> (of_char lo :: nat) \<le> of_char c \<and> (of_char c :: nat) \<le> of_char hi"

definition value_of :: "char \<Rightarrow> u32 result" where
  "value_of c =
     (if between (CHR ''A'') (CHR ''Z'') c then Ok (of_u8 c - of_u8 (CHR ''A''))
      else if between (CHR ''a'') (CHR ''z'') c then Ok (of_u8 c - of_u8 (CHR ''a'') + 26)
      else if between (CHR ''0'') (CHR ''9'') c then Ok (of_u8 c - of_u8 (CHR ''0'') + 52)
      else if c = CHR ''+'' then Ok 62
      else if c = CHR ''/'' then Ok 63
      else Err Invalid)"

definition group_of :: "u32 \<Rightarrow> u32 \<Rightarrow> u32 \<Rightarrow> u32 \<Rightarrow> u32" where
  "group_of v0 v1 v2 v3 = push_bit 18 v0 OR push_bit 12 v1 OR push_bit 6 v2 OR v3"

text \<open>One iteration of the decoding loop: the bytes the chunk contributes.\<close>

definition decode_chunk :: "bool \<Rightarrow> bytes \<Rightarrow> bytes result" where
  "decode_chunk is_last chunk =
     (let pad = length (takeWhile (\<lambda>c. c = CHR ''='') (rev chunk)) in
      if pad > 2 \<or> (pad > 0 \<and> \<not> is_last) then Err Invalid
      else rbind (value_of (chunk ! 0)) (\<lambda>v0.
           rbind (value_of (chunk ! 1)) (\<lambda>v1.
           rbind (if pad \<ge> 2 then Ok 0 else value_of (chunk ! 2)) (\<lambda>v2.
           rbind (if pad \<ge> 1 then Ok 0 else value_of (chunk ! 3)) (\<lambda>v3.
             let n = group_of v0 v1 v2 v3 in
             Ok ([to_u8 (drop_bit 16 n)] @
                 (if pad < 2 then [to_u8 (drop_bit 8 n)] else []) @
                 (if pad < 1 then [to_u8 n] else [])))))))"

fun decode_chunks :: "bytes list \<Rightarrow> bytes \<Rightarrow> bytes result" where
  "decode_chunks [] out = Ok out"
| "decode_chunks (chunk # rest) out =
     rbind (decode_chunk (rest = []) chunk) (\<lambda>bs. decode_chunks rest (out @ bs))"

definition decode :: "string \<Rightarrow> bytes result" where
  "decode input =
     (if length input mod 4 \<noteq> 0 then Err Invalid else decode_chunks (chunks 4 input) [])"

subsection \<open>Bit-level lemmas\<close>

lemma of_u8_lt: "unat (of_u8 c) < 256"
  and unat_of_u8: "unat (of_u8 c) = of_char c"
proof -
  have lt: "(of_char c :: nat) < 256" by simp
  then have "(of_char c :: nat) mod 4294967296 = of_char c"
    by (intro mod_less) linarith
  with lt show "unat (of_u8 c) = of_char c" "unat (of_u8 c) < 256"
    by (simp_all add: of_u8_def unat_of_nat)
qed

lemma to_u8_of_u8 [simp]: "to_u8 (of_u8 c) = c"
  by (simp add: to_u8_def unat_of_u8)

lemma bit_of_u8: "bit (of_u8 c) m \<Longrightarrow> m < 8"
proof (rule ccontr)
  assume "bit (of_u8 c) m" "\<not> m < 8"
  then have "bit (unat (of_u8 c)) m" by (simp add: bit_unsigned_iff)
  moreover have "unat (of_u8 c) < 2 ^ m"
    using of_u8_lt [of c] \<open>\<not> m < 8\<close> power_increasing [of 8 m "2::nat"] by simp
  ultimately show False
    by (metis bit_take_bit_iff less_irrefl take_bit_nat_eq_self_iff)
qed

lemma to_u8_take_bit: "to_u8 (take_bit 8 w) = to_u8 w"
proof -
  have "unat (take_bit 8 w) = take_bit 8 (unat w)"
    by (rule unsigned_take_bit_eq)
  then have "unat (take_bit 8 w) mod 256 = unat w mod 256"
    by (simp add: take_bit_eq_mod)
  then show ?thesis unfolding to_u8_def by (metis char_of_mod_256)
qed

lemma to_u8_eqI: "(\<And>m. m < 8 \<Longrightarrow> bit w m = bit (of_u8 c) m) \<Longrightarrow> to_u8 w = c"
proof -
  assume a: "\<And>m. m < 8 \<Longrightarrow> bit w m = bit (of_u8 c) m"
  have "take_bit 8 w = of_u8 c"
  proof (rule bit_word_eqI)
    fix m
    show "bit (take_bit 8 w) m = bit (of_u8 c) m"
      using bit_of_u8 [of c m] by (cases "m < 8") (auto simp: bit_simps a)
  qed
  then show ?thesis by (metis to_u8_of_u8 to_u8_take_bit)
qed

lemma and_63: "(w :: u32) AND 63 = take_bit 6 w"
  by (simp add: take_bit_eq_mask mask_eq_exp_minus_1)

text \<open>Four sextets of a 24-bit group put the group back together.\<close>

lemma group_of_sextets:
  assumes "\<And>m. bit (n :: u32) m \<Longrightarrow> m < 24"
  shows "group_of (drop_bit 18 n AND 63) (drop_bit 12 n AND 63) (drop_bit 6 n AND 63)
           (n AND 63) = n"
proof (rule bit_word_eqI)
  fix m assume "m < LENGTH(32)"
  then show "bit (group_of (drop_bit 18 n AND 63) (drop_bit 12 n AND 63) (drop_bit 6 n AND 63)
           (n AND 63)) m = bit n m"
    using assms [of m]
    by (cases "m < 6"; cases "m < 12"; cases "m < 18"; cases "m < 24")
      (auto simp: group_of_def and_63 bit_simps)
qed

lemma bit_group24:
  "bit (group24 (of_u8 a) (of_u8 b) (of_u8 c)) m \<longleftrightarrow>
     (if m < 8 then bit (of_u8 c) m
      else if m < 16 then bit (of_u8 b) (m - 8)
      else m < 24 \<and> bit (of_u8 a) (m - 16))"
  using bit_of_u8 [of a "m - 16"] bit_of_u8 [of b "m - 8"] bit_of_u8 [of c m]
  by (auto simp: group24_def bit_simps dest: bit_imp_le_length)

lemma group24_bytes:
  fixes a b c :: char
  defines "n \<equiv> group24 (of_u8 a) (of_u8 b) (of_u8 c)"
  shows "to_u8 (drop_bit 16 n) = a" "to_u8 (drop_bit 8 n) = b" "to_u8 n = c"
    and "bit n m \<Longrightarrow> m < 24"
  by (auto intro!: to_u8_eqI simp: n_def bit_group24 bit_simps add.commute split: if_splits)

subsection \<open>The alphabet\<close>

lemma ALPHABET_length: "length ALPHABET = 64"
  by (simp add: ALPHABET_def)

lemma value_of_table:
  "list_all (\<lambda>i. value_of (ALPHABET ! i) = Ok (of_nat i) \<and> ALPHABET ! i \<noteq> CHR ''='') [0..<64]"
  by code_simp

lemma value_of_ALPHABET:
  assumes "i < 64"
  shows "value_of (ALPHABET ! i) = Ok (of_nat i)" "ALPHABET ! i \<noteq> CHR ''=''"
  using value_of_table assms by (auto simp: list_all_iff)

lemma sextet_lt: "unat (w AND (63 :: u32)) < 64"
proof -
  have "unat (take_bit 6 w) = take_bit 6 (unat w)" by (rule unsigned_take_bit_eq)
  also have "\<dots> < 2 ^ 6" by (rule take_bit_nat_less_exp)
  finally show ?thesis by (simp add: and_63)
qed

lemma value_of_sextet [simp]:
  "value_of (sextet k n) = Ok (drop_bit k n AND 63)" "sextet k n \<noteq> CHR ''=''"
  using value_of_ALPHABET [OF sextet_lt [of "drop_bit k n"]] by (simp_all add: sextet_def)

subsection \<open>Round trip\<close>

lemma chunks_Nil [simp]: "chunks n [] = []"
  by (simp add: chunks.simps)

lemma chunks_append: "0 < n \<Longrightarrow> length a = n \<Longrightarrow> chunks n (a @ b) = a # chunks n b"
  by (subst chunks.simps) auto

lemma chunks_short: "xs \<noteq> [] \<Longrightarrow> length xs \<le> n \<Longrightarrow> chunks n xs = [xs]"
  by (subst chunks.simps) (cases xs; auto)

lemma length_encode_chunk: "length (encode_chunk c) = 4"
  by (simp add: encode_chunk_def Let_def)

lemma chunks_encode: "chunks 4 (encode s) = map encode_chunk (chunks 3 s)"
proof -
  have "chunks 4 (concat (map encode_chunk cs)) = map encode_chunk cs" for cs
    by (induction cs) (simp_all add: chunks_append length_encode_chunk)
  then show ?thesis by (simp add: encode_def)
qed

lemma length_encode: "length (encode s) = 4 * length (chunks 3 s)"
  by (simp add: encode_def length_concat length_encode_chunk comp_def sum_list_triv)

lemma decode_encode_chunk3:
  "decode_chunk is_last (encode_chunk [a, b, c]) = Ok [a, b, c]"
  using group24_bytes [of a b c] group_of_sextets [of "group24 (of_u8 a) (of_u8 b) (of_u8 c)"]
  by (simp add: decode_chunk_def encode_chunk_def get_or_0_def Let_def)

lemma of_u8_zero: "0 = of_u8 (CHR 0x00)"
  by (simp add: of_u8_def)

text \<open>
  A short final group: the sextets that become padding are zero because the
  missing bytes are.
\<close>

lemma group24_zero_low:
  "group24 (of_u8 a) (of_u8 b) 0 AND 63 = 0"
  "drop_bit 6 (group24 (of_u8 a) 0 0) AND 63 = 0"
  "group24 (of_u8 a) 0 0 AND 63 = 0"
proof -
  have [simp]: "\<not> bit (0::u32) m" for m by simp
  note g = bit_group24 [of _ _ "CHR 0x00", folded of_u8_zero]
           bit_group24 [of _ "CHR 0x00" "CHR 0x00", folded of_u8_zero]
  show "group24 (of_u8 a) (of_u8 b) 0 AND 63 = 0"
    "drop_bit 6 (group24 (of_u8 a) 0 0) AND 63 = 0" "group24 (of_u8 a) 0 0 AND 63 = 0"
    by (rule bit_word_eqI, simp add: and_63 bit_simps g)+
qed

lemma decode_encode_chunk2:
  "decode_chunk True (encode_chunk [a, b]) = Ok [a, b]"
  using group24_bytes [of a b "CHR 0x00"]
    group_of_sextets [of "group24 (of_u8 a) (of_u8 b) 0"]
  by (simp add: decode_chunk_def encode_chunk_def get_or_0_def Let_def group24_zero_low
        flip: of_u8_zero)

lemma decode_encode_chunk1: "decode_chunk True (encode_chunk [a]) = Ok [a]"
  using group24_bytes [of a "CHR 0x00" "CHR 0x00"]
    group_of_sextets [of "group24 (of_u8 a) 0 0"]
  by (simp add: decode_chunk_def encode_chunk_def get_or_0_def Let_def group24_zero_low
        flip: of_u8_zero)

lemma decode_chunks_encode:
  "decode_chunks (map encode_chunk (chunks 3 s)) out = Ok (out @ s)"
proof (induction "length s" arbitrary: s out rule: less_induct)
  case less
  consider "s = []" | a where "s = [a]" | a b where "s = [a, b]"
    | a b c r where "s = [a, b, c] @ r"
    by (cases s; cases "tl s"; cases "tl (tl s)") auto
  then show ?case
  proof cases
    case 4
    then have "chunks 3 s = [a, b, c] # chunks 3 r"
      using chunks_append [of 3 "[a, b, c]" r] by simp
    with 4 less [of r] show ?thesis by (simp add: decode_encode_chunk3)
  qed (simp_all add: chunks_short decode_encode_chunk1 decode_encode_chunk2)
qed

lemma decode_encode: "decode (encode s) = Ok s"
  by (simp add: decode_def length_encode chunks_encode decode_chunks_encode)

end
