(* ===== verification/Patch.thy ===== *)
theory Patch
  imports Manifest Blobs Span B64
begin

text \<open>
  \<open>src/src/patch.rs\<close>: intents (the span operations an author writes), the
  realization an application produces, and replaying a realization on a state
  or on a sum.  Main results: an accepted intent keeps the manifest invariant,
  leaves every other path alone, and its realization replays to the same state
  and moves the sum to that state's sum; a realization is undone by its inverse;
  realizations on disjoint paths commute, and so do edits of disjoint spans of
  one file; every blob the new state names is known.
\<close>

subsection \<open>Operations and intents\<close>

datatype op =
    Edit string string string
  | Create string string "string option" "string option"
  | Delete string string
  | Chmod string string string

fun op_path :: "op \<Rightarrow> string" where
  "op_path (Edit path _ _) = path"
| "op_path (Create path _ _ _) = path"
| "op_path (Delete path _) = path"
| "op_path (Chmod path _ _) = path"

record intent =
  ops :: "op list"

subsection \<open>Realized deltas\<close>

record realized_entry =
  re_remove :: "string option"
  re_add :: "string option"

definition parse_side :: "string option \<Rightarrow> element_record option result" where
  "parse_side s = (case s of None \<Rightarrow> Ok None | Some l \<Rightarrow> rmap Some (er_parse l))"

definition removed :: "realized_entry \<Rightarrow> element_record option result" where
  "removed e = parse_side (re_remove e)"

definition added :: "realized_entry \<Rightarrow> element_record option result" where
  "added e = parse_side (re_add e)"

record realization =
  realized :: "realized_entry list"
  new_blobs :: "(string \<times> bytes) list"

text \<open>One iteration of each loop, then the loop.\<close>

definition remove_side_sum :: "'s env \<Rightarrow> element_record option \<Rightarrow> 's \<Rightarrow> 's" where
  "remove_side_sum E r s = (case r of None \<Rightarrow> s | Some r \<Rightarrow> ss_remove E s (er_to_bytes r))"

definition insert_side_sum :: "'s env \<Rightarrow> element_record option \<Rightarrow> 's \<Rightarrow> 's" where
  "insert_side_sum E a s = (case a of None \<Rightarrow> s | Some a \<Rightarrow> ss_insert E s (er_to_bytes a))"

definition entry_to_sum :: "'s env \<Rightarrow> realized_entry \<Rightarrow> 's \<Rightarrow> 's result" where
  "entry_to_sum E e s =
     rbind (removed e) (\<lambda>r. let s = remove_side_sum E r s in
     rbind (added e) (\<lambda>a. Ok (insert_side_sum E a s)))"

definition apply_realized_to_sum :: "'s env \<Rightarrow> 's \<Rightarrow> realized_entry list \<Rightarrow> 's result" where
  "apply_realized_to_sum E s es = rfold (entry_to_sum E) es s"

text \<open>
  On an error the source leaves the entries before it applied; every caller
  drops the manifest then, so the model returns the error alone.
\<close>

definition remove_side :: "element_record option \<Rightarrow> manifest \<Rightarrow> manifest result" where
  "remove_side r m = (case r of None \<Rightarrow> Ok m | Some r \<Rightarrow> m_remove r m)"

definition insert_side :: "element_record option \<Rightarrow> manifest \<Rightarrow> manifest result" where
  "insert_side a m = (case a of None \<Rightarrow> Ok m | Some a \<Rightarrow> m_insert a m)"

definition entry_to_manifest :: "realized_entry \<Rightarrow> manifest \<Rightarrow> manifest result" where
  "entry_to_manifest e m =
     rbind (removed e) (\<lambda>r.
     rbind (remove_side r m) (\<lambda>m.
     rbind (added e) (\<lambda>a. insert_side a m)))"

definition apply_realized_to_manifest :: "manifest \<Rightarrow> realized_entry list \<Rightarrow> manifest result" where
  "apply_realized_to_manifest m es = rfold entry_to_manifest es m"

subsection \<open>Applying an intent\<close>

definition read_blob :: "pool \<Rightarrow> (string \<times> bytes) list \<Rightarrow> string \<Rightarrow> bytes result" where
  "read_blob pool new h =
     (case find (\<lambda>(h', c). h' = h) new of Some (_, c) \<Rightarrow> Ok c | None \<Rightarrow> blob_get pool h)"

definition op_precondition :: "nat + 'a \<Rightarrow> 'a result" where
  "op_precondition r = (case r of Inl n \<Rightarrow> Err Precondition | Inr x \<Rightarrow> Ok x)"

definition realize ::
  "realization \<Rightarrow> string option \<Rightarrow> string option \<Rightarrow> (string \<times> bytes) list \<Rightarrow> realization" where
  "realize rz rm ad new =
     \<lparr>realized = realized rz @ [\<lparr>re_remove = rm, re_add = ad\<rparr>],
      new_blobs = new_blobs rz @ new\<rparr>"

text \<open>The content of a create: the blob it names, or the one it carries.\<close>

definition create_content ::
  "'s env \<Rightarrow> pool \<Rightarrow> realization \<Rightarrow> string option \<Rightarrow> string option \<Rightarrow>
   (string \<times> (string \<times> bytes) list) result" where
  "create_content E pool rz blob content =
     (case (blob, content) of
        (Some h, None) \<Rightarrow>
          if list_ex (\<lambda>(h', _). h' = h) (new_blobs rz) then Ok (h, [])
          else rbind (blob_has pool h) (\<lambda>b. if b then Ok (h, []) else Err Precondition)
      | (None, Some c) \<Rightarrow>
          rbind (decode c) (\<lambda>content.
            let h = sha3_hex E content in Ok (h, [(h, content)]))
      | _ \<Rightarrow> Err Invalid)"

fun apply_op :: "'s env \<Rightarrow> pool \<Rightarrow> op \<Rightarrow> manifest \<times> realization \<Rightarrow> (manifest \<times> realization) result" where
  "apply_op E pool (Edit path old new) (m, rz) =
     rbind (validate_path path) (\<lambda>_.
     rbind (ok_or Precondition (m_get m path)) (\<lambda>element.
     rbind (read_blob pool (new_blobs rz) (er_blob element)) (\<lambda>content.
     rbind (op_precondition (replace_unique content old new)) (\<lambda>new_content.
     let new_hash = sha3_hex E new_content in
     rbind (er_new (er_mode element) path new_hash) (\<lambda>new_record.
     rbind (m_remove element m) (\<lambda>m.
     rbind (m_insert new_record m) (\<lambda>m.
     Ok (m, realize rz (Some (er_to_line element)) (Some (er_to_line new_record))
              [(new_hash, new_content)]))))))))"
| "apply_op E pool (Create path mode blob content) (m, rz) =
     rbind (validate_path path) (\<lambda>_.
     rbind (validate_mode mode) (\<lambda>_.
     if m_get m path \<noteq> None then Err Precondition else
     rbind (create_content E pool rz blob content) (\<lambda>(h, new).
     rbind (er_new mode path h) (\<lambda>r.
     rbind (m_insert r m) (\<lambda>m.
     Ok (m, realize rz None (Some (er_to_line r)) new))))))"
| "apply_op E pool (Delete path blob) (m, rz) =
     rbind (validate_path path) (\<lambda>_.
     rbind (ok_or Precondition (m_get m path)) (\<lambda>element.
     if er_blob element \<noteq> blob then Err Precondition else
     rbind (m_remove element m) (\<lambda>m.
     Ok (m, realize rz (Some (er_to_line element)) None []))))"
| "apply_op E pool (Chmod path old_mode new_mode) (m, rz) =
     rbind (validate_path path) (\<lambda>_.
     rbind (validate_mode new_mode) (\<lambda>_.
     rbind (ok_or Precondition (m_get m path)) (\<lambda>element.
     if er_mode element \<noteq> old_mode then Err Precondition else
     rbind (er_new new_mode path (er_blob element)) (\<lambda>new_record.
     rbind (m_remove element m) (\<lambda>m.
     rbind (m_insert new_record m) (\<lambda>m.
     Ok (m, realize rz (Some (er_to_line element)) (Some (er_to_line new_record)) [])))))))"

definition empty_realization :: realization where
  "empty_realization = \<lparr>realized = [], new_blobs = []\<rparr>"

definition apply_intent ::
  "'s env \<Rightarrow> intent \<Rightarrow> manifest \<Rightarrow> pool \<Rightarrow> (manifest \<times> realization) result" where
  "apply_intent E i m pool = rfold (apply_op E pool) (ops i) (m, empty_realization)"

text \<open>The inverse of a realized delta, newest entry first.\<close>

definition swap_entry :: "realized_entry \<Rightarrow> realized_entry" where
  "swap_entry e = \<lparr>re_remove = re_add e, re_add = re_remove e\<rparr>"

definition inverse_realized :: "realized_entry list \<Rightarrow> realized_entry list" where
  "inverse_realized es = rev (map swap_entry es)"

subsection \<open>Replaying a realization\<close>

lemma parse_side_simps [simp]:
  "parse_side None = Ok None"
  "er_valid r \<Longrightarrow> parse_side (Some (er_to_line r)) = Ok (Some r)"
  by (simp_all add: parse_side_def)

definition side_valid :: "element_record option \<Rightarrow> bool" where
  "side_valid s = pred_option er_valid s"

lemma side_valid_parse:
  "removed e = Ok r \<Longrightarrow> side_valid r" "added e = Ok a \<Longrightarrow> side_valid a"
  by (auto simp: removed_def added_def parse_side_def side_valid_def dest: er_parse_Ok
      split: option.splits)

lemma entry_to_manifest_Ok:
  "entry_to_manifest e m = Ok m' \<longleftrightarrow>
     (\<exists>r a m1. removed e = Ok r \<and> added e = Ok a \<and>
        remove_side r m = Ok m1 \<and> insert_side a m1 = Ok m')"
  by (auto simp: entry_to_manifest_def)

lemma remove_side_ok: "m_ok m \<Longrightarrow> remove_side r m = Ok m' \<Longrightarrow> m_ok m'"
  by (auto simp: remove_side_def intro: m_remove_ok split: option.splits)

lemma insert_side_ok: "m_ok m \<Longrightarrow> side_valid a \<Longrightarrow> insert_side a m = Ok m' \<Longrightarrow> m_ok m'"
  by (auto simp: insert_side_def side_valid_def intro: m_insert_ok split: option.splits)

lemma insert_side_undo: "m_ok m \<Longrightarrow> insert_side a m = Ok m' \<Longrightarrow> remove_side a m' = Ok m"
  by (auto simp: insert_side_def remove_side_def intro: m_remove_insert split: option.splits)

lemma remove_side_undo: "m_ok m \<Longrightarrow> remove_side a m = Ok m' \<Longrightarrow> insert_side a m' = Ok m"
  by (auto simp: insert_side_def remove_side_def intro: m_insert_remove split: option.splits)

lemma entry_to_manifest_ok:
  assumes "m_ok m" "entry_to_manifest e m = Ok m'" shows "m_ok m'"
  using assms unfolding entry_to_manifest_Ok
  by (blast intro: remove_side_ok insert_side_ok dest: side_valid_parse)

lemma apply_realized_ok:
  "m_ok m \<Longrightarrow> apply_realized_to_manifest m es = Ok m' \<Longrightarrow> m_ok m'"
  unfolding apply_realized_to_manifest_def
  by (erule rfold_invariant) (auto intro: entry_to_manifest_ok)

lemma swap_entry_simps [simp]:
  "removed (swap_entry e) = added e" "added (swap_entry e) = removed e"
  "swap_entry (swap_entry e) = e"
  by (simp_all add: swap_entry_def removed_def added_def)

lemma entry_to_manifest_swap:
  assumes "m_ok m" "entry_to_manifest e m = Ok m'"
  shows "entry_to_manifest (swap_entry e) m' = Ok m"
  using assms unfolding entry_to_manifest_Ok swap_entry_simps
  by (blast intro: remove_side_ok insert_side_undo remove_side_undo)

lemma apply_realized_Cons:
  "apply_realized_to_manifest m (e # es) =
     rbind (entry_to_manifest e m) (\<lambda>m. apply_realized_to_manifest m es)"
  by (simp add: apply_realized_to_manifest_def)

lemma apply_realized_append:
  "apply_realized_to_manifest m (es @ fs) =
     rbind (apply_realized_to_manifest m es) (\<lambda>m. apply_realized_to_manifest m fs)"
  by (simp add: apply_realized_to_manifest_def rfold_append)

lemma apply_realized_Nil [simp]: "apply_realized_to_manifest m [] = Ok m"
  by (simp add: apply_realized_to_manifest_def)

lemma inverse_realized_simps [simp]:
  "inverse_realized [] = []"
  "inverse_realized (e # es) = inverse_realized es @ [swap_entry e]"
  by (simp_all add: inverse_realized_def)

lemma realized_inverse:
  assumes "m_ok m" "apply_realized_to_manifest m es = Ok m'"
  shows "apply_realized_to_manifest m' (inverse_realized es) = Ok m"
  using assms
proof (induction es arbitrary: m)
  case (Cons e es)
  then obtain m1 where 1: "entry_to_manifest e m = Ok m1"
    and 2: "apply_realized_to_manifest m1 es = Ok m'"
    by (auto simp: apply_realized_Cons)
  from Cons.IH [OF entry_to_manifest_ok [OF Cons.prems(1) 1] 2]
    entry_to_manifest_swap [OF Cons.prems(1) 1]
  show ?case by (simp add: apply_realized_append apply_realized_Cons)
qed simp

text \<open>Every path an entry does not name keeps its record.\<close>

definition entry_paths :: "realized_entry \<Rightarrow> string set" where
  "entry_paths e = {p. \<exists>r. (removed e = Ok (Some r) \<or> added e = Ok (Some r)) \<and> er_path r = p}"

lemma remove_side_get:
  "remove_side r m = Ok m' \<Longrightarrow> (\<And>x. r = Some x \<Longrightarrow> er_path x \<noteq> p) \<Longrightarrow> bt_get m' p = bt_get m p"
  by (auto simp: remove_side_def m_remove_Ok bt_get_remove split: option.splits)

lemma insert_side_get:
  "m_ok m \<Longrightarrow> insert_side r m = Ok m' \<Longrightarrow> (\<And>x. r = Some x \<Longrightarrow> er_path x \<noteq> p) \<Longrightarrow>
   bt_get m' p = bt_get m p"
  by (auto simp: insert_side_def m_insert_Ok bt_get_insert m_ok_bt split: option.splits)

lemma entry_frame:
  assumes "m_ok m" "entry_to_manifest e m = Ok m'" "p \<notin> entry_paths e"
  shows "bt_get m' p = bt_get m p"
proof -
  from assms(2) obtain r a m1 where "removed e = Ok r" "added e = Ok a"
    and r: "remove_side r m = Ok m1" and a: "insert_side a m1 = Ok m'"
    unfolding entry_to_manifest_Ok by blast
  with assms(3) have "x = r \<or> x = a \<Longrightarrow> x = Some y \<Longrightarrow> er_path y \<noteq> p" for x y
    by (auto simp: entry_paths_def)
  with remove_side_get [OF r] insert_side_get [OF remove_side_ok [OF assms(1) r] a]
  show ?thesis by metis
qed

lemma realized_frame:
  assumes "m_ok m" "apply_realized_to_manifest m es = Ok m'" "p \<notin> (\<Union>e \<in> set es. entry_paths e)"
  shows "bt_get m' p = bt_get m p"
  using assms
proof (induction es arbitrary: m)
  case (Cons e es)
  then obtain m1 where 1: "entry_to_manifest e m = Ok m1"
    and 2: "apply_realized_to_manifest m1 es = Ok m'"
    by (auto simp: apply_realized_Cons)
  from Cons.IH [OF entry_to_manifest_ok [OF Cons.prems(1) 1] 2] Cons.prems(3)
    entry_frame [OF Cons.prems(1) 1, of p] show ?case by simp
qed simp

subsection \<open>Realizations and sums\<close>

context setsum
begin

lemma entry_sum:
  assumes "m_ok m" "entry_to_manifest e m = Ok m'"
  shows "entry_to_sum E e (m_sum E m) = Ok (m_sum E m')"
proof -
  from assms(2) obtain r a m1 where e: "removed e = Ok r" "added e = Ok a"
    and r: "remove_side r m = Ok m1" and a: "insert_side a m1 = Ok m'"
    unfolding entry_to_manifest_Ok by blast
  have m1: "m_ok m1" using remove_side_ok [OF assms(1) r] .
  have "m_sum E m1 = remove_side_sum E r (m_sum E m)"
    using r side_valid_parse(1) [OF e(1)] m_sum_remove [OF assms(1)]
    by (auto simp: remove_side_def remove_side_sum_def side_valid_def split: option.splits)
  moreover have "m_sum E m' = insert_side_sum E a (m_sum E m1)"
    using a side_valid_parse(2) [OF e(2)] m_sum_insert [OF m1]
    by (auto simp: insert_side_def insert_side_sum_def side_valid_def split: option.splits)
  ultimately show ?thesis using e by (simp add: entry_to_sum_def Let_def)
qed

lemma realized_sum:
  assumes "m_ok m" "apply_realized_to_manifest m es = Ok m'"
  shows "apply_realized_to_sum E (m_sum E m) es = Ok (m_sum E m')"
  using assms
proof (induction es arbitrary: m)
  case (Cons e es)
  then obtain m1 where 1: "entry_to_manifest e m = Ok m1"
    and 2: "apply_realized_to_manifest m1 es = Ok m'"
    by (auto simp: apply_realized_Cons)
  from Cons.IH [OF entry_to_manifest_ok [OF Cons.prems(1) 1] 2] entry_sum [OF Cons.prems(1) 1]
  show ?case by (simp add: apply_realized_to_sum_def)
qed (simp add: apply_realized_to_sum_def)

text \<open>An entry whose records parse adds a fixed sum, whatever it meets.\<close>

lemma entry_to_sum_shift:
  "\<exists>d. \<forall>s. entry_to_sum E e s = (if is_ok (removed e) \<and> is_ok (added e)
     then Ok (ss_add E d s)
     else (case removed e of Inl x \<Rightarrow> Inl x | Inr _ \<Rightarrow> (case added e of Inl x \<Rightarrow> Inl x | Inr _ \<Rightarrow> Err Io)))"
proof (cases "removed e")
  case (Inr r)
  show ?thesis
  proof (cases "added e")
    case a: (Inr a)
    let ?d = "insert_side_sum E a (remove_side_sum E r (ss_zero E))"
    have d: "insert_side_sum E a (remove_side_sum E r (ss_add E (ss_zero E) s)) =
          ss_add E (insert_side_sum E a (remove_side_sum E r (ss_zero E))) s" for s
      unfolding insert_side_sum_def remove_side_sum_def
      by (cases r; cases a) (simp_all only: option.case remove_add insert_add)
    have "entry_to_sum E e s = Ok (ss_add E ?d s)" for s
      using Inr a d [of s] by (simp only: entry_to_sum_def Let_def rbind.simps zero_add)
    then show ?thesis using Inr a by (intro exI [of _ ?d]) (simp only: is_ok.simps simp_thms if_True)
  qed (use Inr in \<open>auto simp: entry_to_sum_def Let_def\<close>)
qed (auto simp: entry_to_sum_def)

lemma sides_undo:
  "insert_side_sum E r (remove_side_sum E a (insert_side_sum E a (remove_side_sum E r s))) = s"
  by (simp add: insert_side_sum_def remove_side_sum_def split: option.splits)

lemma entry_to_sum_swap:
  "entry_to_sum E e s = Ok s' \<Longrightarrow> entry_to_sum E (swap_entry e) s' = Ok s"
  by (auto simp: entry_to_sum_def Let_def sides_undo)

lemma sum_inverse:
  "apply_realized_to_sum E s es = Ok s' \<Longrightarrow>
   apply_realized_to_sum E s' (inverse_realized es) = Ok s"
proof (induction es arbitrary: s)
  case (Cons e es)
  then obtain s1 where "entry_to_sum E e s = Ok s1" "apply_realized_to_sum E s1 es = Ok s'"
    by (auto simp: apply_realized_to_sum_def)
  with Cons.IH entry_to_sum_swap show ?case
    by (auto simp: apply_realized_to_sum_def rfold_append)
qed (simp add: apply_realized_to_sum_def)

text \<open>The sum a delta leads to does not depend on the order of its entries.\<close>

lemma entry_to_sum_commute:
  assumes "entry_to_sum E e s = Ok s1" "entry_to_sum E f s1 = Ok s2"
  shows "\<exists>t. entry_to_sum E f s = Ok t \<and> entry_to_sum E e t = Ok s2"
proof -
  have ok: "is_ok (removed e) \<and> is_ok (added e)" "is_ok (removed f) \<and> is_ok (added f)"
    using assms by (auto simp: entry_to_sum_def)
  from entry_to_sum_shift ok obtain d d' where "\<forall>s. entry_to_sum E e s = Ok (ss_add E d s)"
    "\<forall>s. entry_to_sum E f s = Ok (ss_add E d' s)" by (metis (mono_tags, lifting))
  then show ?thesis using assms by (auto simp: group.add.left_commute)
qed

end

subsection \<open>Applying an intent\<close>

lemma realize_simps [simp]:
  "realized (realize rz r a new) = realized rz @ [\<lparr>re_remove = r, re_add = a\<rparr>]"
  "new_blobs (realize rz r a new) = new_blobs rz @ new"
  by (simp_all add: realize_def)

text \<open>What the application has produced so far: the blob names are hashes.\<close>

definition blobs_named :: "'s env \<Rightarrow> (string \<times> bytes) list \<Rightarrow> bool" where
  "blobs_named E bs \<longleftrightarrow> (\<forall>(h, c) \<in> set bs. sha3_hex E c = h)"

text \<open>A blob the caller can read: pooled, produced so far, or named by the state met.\<close>

definition blob_known :: "pool \<Rightarrow> (string \<times> bytes) list \<Rightarrow> manifest \<Rightarrow> string \<Rightarrow> bool" where
  "blob_known pool bs m h \<longleftrightarrow>
     bt_has pool h \<or> h \<in> fst ` set bs \<or> h \<in> er_blob ` set (records m)"

lemma create_content_Ok:
  assumes "create_content E pool rz b c = Ok (h, new)"
  shows "blobs_named E new \<and> (h \<in> fst ` set (new_blobs rz @ new) \<or> bt_has pool h)"
  using assms
  by (auto simp: create_content_def blobs_named_def list_ex_iff Let_def blob_has_Ok bt_has_def
      split: option.splits if_splits) (force simp: blob_has_def)+

text \<open>
  One operation appends one entry, which replays to the state it produced,
  names the operation's path only, and whose new record's blob is known.
\<close>

definition op_realizes ::
  "'s env \<Rightarrow> pool \<Rightarrow> string \<Rightarrow> manifest \<times> realization \<Rightarrow> manifest \<times> realization \<Rightarrow> bool" where
  "op_realizes E pool p st st' \<longleftrightarrow> (\<exists>e new.
     realized (snd st') = realized (snd st) @ [e] \<and>
     new_blobs (snd st') = new_blobs (snd st) @ new \<and> blobs_named E new \<and>
     entry_to_manifest e (fst st) = Ok (fst st') \<and> entry_paths e = {p} \<and>
     is_ok (removed e) \<and> is_ok (added e) \<and>
     (\<forall>r. added e = Ok (Some r) \<longrightarrow> blob_known pool (new_blobs (snd st')) (fst st) (er_blob r)))"

lemma op_realizesI:
  assumes "r = None \<or> (\<exists>x. r = Some x \<and> er_valid x \<and> er_path x = p)"
    "a = None \<or> (\<exists>x. a = Some x \<and> er_valid x \<and> er_path x = p)"
    "r \<noteq> None \<or> a \<noteq> None" "blobs_named E new"
    "remove_side r m = Ok m1" "insert_side a m1 = Ok m'"
    "\<And>x. a = Some x \<Longrightarrow> blob_known pool (new_blobs rz @ new) m (er_blob x)"
  shows "op_realizes E pool p (m, rz)
     (m', realize rz (map_option er_to_line r) (map_option er_to_line a) new)"
proof -
  let ?e = "\<lparr>re_remove = map_option er_to_line r, re_add = map_option er_to_line a\<rparr>"
  have r: "removed ?e = Ok r" and a: "added ?e = Ok a"
    using assms(1,2) by (auto simp: removed_def added_def)
  have "entry_paths ?e = {p}" unfolding entry_paths_def r a using assms(1-3) by auto
  moreover have "entry_to_manifest ?e m = Ok m'"
    unfolding entry_to_manifest_Ok using r a assms(5,6) by blast
  ultimately show ?thesis unfolding op_realizes_def
    using assms(4,7) r a by (intro exI [of _ ?e] exI [of _ new]) simp
qed

lemma apply_op_realizes:
  assumes "m_ok m" "apply_op E pool op (m, rz) = Ok st"
  shows "op_realizes E pool (op_path op) (m, rz) st"
proof (cases op)
  case (Edit path old new)
  with assms(2) obtain el c c' r m1 m2 where
    el: "m_get m path = Some el" and r: "er_new (er_mode el) path (sha3_hex E c') = Ok r"
    and m: "m_remove el m = Ok m1" "m_insert r m1 = Ok m2"
    and st: "st = (m2, realize rz (Some (er_to_line el)) (Some (er_to_line r)) [(sha3_hex E c', c')])"
    by (auto simp: Let_def)
  have "er_valid el" "er_path el = path"
    using m_ok_get [OF assms(1)] el by (auto simp: m_get_def)
  with op_realizesI [of "Some el" path "Some r" E "[(sha3_hex E c', c')]" m m1 m2 pool rz]
    er_new_valid [OF r] er_new_fields [OF r] m st Edit
  show ?thesis by (simp add: blobs_named_def remove_side_def insert_side_def blob_known_def)
next
  case (Create path mode blob content)
  with assms(2) obtain h new r m1 where c: "create_content E pool rz blob content = Ok (h, new)"
    and r: "er_new mode path h = Ok r" and m: "m_insert r m = Ok m1"
    and st: "st = (m1, realize rz None (Some (er_to_line r)) new)"
    by (auto split: if_splits)
  with op_realizesI [of None path "Some r" E new m m m1 pool rz] create_content_Ok [OF c]
    er_new_valid [OF r] er_new_fields [OF r] Create
  show ?thesis by (auto simp: remove_side_def insert_side_def blob_known_def)
next
  case (Delete path blob)
  with assms(2) obtain el m1 where el: "m_get m path = Some el"
    and m: "m_remove el m = Ok m1"
    and st: "st = (m1, realize rz (Some (er_to_line el)) None [])"
    by (auto split: if_splits)
  have "er_valid el" "er_path el = path"
    using m_ok_get [OF assms(1)] el by (auto simp: m_get_def)
  with op_realizesI [of "Some el" path None E "[]" m m1 m1 pool rz] m st Delete
  show ?thesis by (simp add: blobs_named_def remove_side_def insert_side_def)
next
  case (Chmod path old_mode new_mode)
  with assms(2) obtain el r m1 m2 where
    el: "m_get m path = Some el" and r: "er_new new_mode path (er_blob el) = Ok r"
    and m: "m_remove el m = Ok m1" "m_insert r m1 = Ok m2"
    and st: "st = (m2, realize rz (Some (er_to_line el)) (Some (er_to_line r)) [])"
    by (auto split: if_splits)
  have "er_valid el" "er_path el = path"
    using m_ok_get [OF assms(1)] el by (auto simp: m_get_def)
  moreover have "el \<in> set (records m)"
    using assms(1) el calculation by (simp add: set_records m_get_def)
  ultimately show ?thesis
    using op_realizesI [of "Some el" path "Some r" E "[]" m m1 m2 pool rz]
    er_new_valid [OF r] er_new_fields [OF r] m st Chmod
    by (simp add: blobs_named_def remove_side_def insert_side_def blob_known_def)
qed

lemma op_realizes_ok:
  "op_realizes E pool p (m, rz) (m', rz') \<Longrightarrow> m_ok m \<Longrightarrow> m_ok m'"
  by (auto simp: op_realizes_def intro: entry_to_manifest_ok)

lemma records_added:
  assumes "m_ok m" "entry_to_manifest e m = Ok m'" "r \<in> set (records m')"
  shows "r \<in> set (records m) \<or> added e = Ok (Some r)"
proof -
  from assms(2) obtain x a m1 where e: "removed e = Ok x" "added e = Ok a"
    and x: "remove_side x m = Ok m1" and a: "insert_side a m1 = Ok m'"
    unfolding entry_to_manifest_Ok by blast
  have ok: "m_ok m1" "m_ok m'" using assms(1,2) x remove_side_ok entry_to_manifest_ok by blast+
  with assms(3) have r: "bt_get m' (er_path r) = Some r" by (simp add: set_records)
  show ?thesis
  proof (cases "a = Some r")
    case False
    then have "bt_get m1 (er_path r) = Some r"
      using a r ok(1) by (auto simp: insert_side_def m_insert_Ok bt_get_insert m_ok_bt
          split: option.splits if_splits)
    then have "bt_get m (er_path r) = Some r"
      using x by (auto simp: remove_side_def m_remove_Ok bt_get_remove split: option.splits if_splits)
    with assms(1) show ?thesis by (simp add: set_records)
  qed (use e in simp)
qed

text \<open>A run of operations: the entries it appended, and what they do.\<close>

lemma apply_ops_realizes:
  assumes "m_ok m" "rfold (apply_op E pool) os (m, rz) = Ok (m', rz')"
    "blobs_named E (new_blobs rz)"
  shows "\<exists>es. realized rz' = realized rz @ es \<and> length es = length os \<and>
     apply_realized_to_manifest m es = Ok m' \<and> (\<Union>e \<in> set es. entry_paths e) = op_path ` set os \<and>
     blobs_named E (new_blobs rz') \<and> set (new_blobs rz) \<subseteq> set (new_blobs rz') \<and>
     (\<forall>r \<in> set (records m'). blob_known pool (new_blobs rz') m (er_blob r))"
  using assms
proof (induction os arbitrary: m rz)
  case Nil
  then show ?case by (auto simp: blob_known_def)
next
  case (Cons op os)
  then obtain m1 rz1 where 1: "apply_op E pool op (m, rz) = Ok (m1, rz1)"
    and 2: "rfold (apply_op E pool) os (m1, rz1) = Ok (m', rz')" by auto
  note step = apply_op_realizes [OF Cons.prems(1) 1]
  from step obtain e new where e: "realized rz1 = realized rz @ [e]"
      "new_blobs rz1 = new_blobs rz @ new" "blobs_named E new" "entry_to_manifest e m = Ok m1"
      "entry_paths e = {op_path op}"
    and k: "\<And>r. added e = Ok (Some r) \<Longrightarrow> blob_known pool (new_blobs rz1) m (er_blob r)"
    by (auto simp: op_realizes_def)
  have "m_ok m1" using op_realizes_ok [OF step] Cons.prems(1) by simp
  moreover have "blobs_named E (new_blobs rz1)"
    using e(2,3) Cons.prems(3) by (auto simp: blobs_named_def)
  ultimately obtain es where es: "realized rz' = realized rz1 @ es" "length es = length os"
    "apply_realized_to_manifest m1 es = Ok m'" "(\<Union>e \<in> set es. entry_paths e) = op_path ` set os"
    "blobs_named E (new_blobs rz')" "set (new_blobs rz1) \<subseteq> set (new_blobs rz')"
    and kn: "\<forall>r \<in> set (records m'). blob_known pool (new_blobs rz') m1 (er_blob r)"
    using Cons.IH [OF _ 2] by blast
  have "blob_known pool (new_blobs rz') m h" if "blob_known pool (new_blobs rz') m1 h" for h
  proof -
    have "blob_known pool (new_blobs rz') m (er_blob r)" if "r \<in> set (records m1)" for r
      using records_added [OF Cons.prems(1) e(4) that] k es(6) image_mono [OF es(6), of fst]
      by (simp add: blob_known_def) blast
    with that show ?thesis by (auto simp: blob_known_def)
  qed
  with kn e es show ?case
    by (intro exI [of _ "e # es"]) (simp add: apply_realized_Cons)
qed

lemma apply_intent_realizes:
  assumes "m_ok m" "apply_intent E i m pool = Ok (m', rz)"
  shows "m_ok m' \<and> apply_realized_to_manifest m (realized rz) = Ok m' \<and>
     length (realized rz) = length (ops i) \<and>
     (\<Union>e \<in> set (realized rz). entry_paths e) = op_path ` set (ops i) \<and>
     blobs_named E (new_blobs rz) \<and>
     (\<forall>r \<in> set (records m'). blob_known pool (new_blobs rz) m (er_blob r))"
proof -
  have "blobs_named E (new_blobs empty_realization)"
    by (simp add: empty_realization_def blobs_named_def)
  from apply_ops_realizes [OF assms(1) assms(2) [unfolded apply_intent_def] this]
  obtain es where "realized rz = es" "length es = length (ops i)"
    "apply_realized_to_manifest m es = Ok m'" "(\<Union>e \<in> set es. entry_paths e) = op_path ` set (ops i)"
    "blobs_named E (new_blobs rz)"
    "\<forall>r \<in> set (records m'). blob_known pool (new_blobs rz) m (er_blob r)"
    by (auto simp: empty_realization_def)
  then show ?thesis using apply_realized_ok [OF assms(1)] by simp
qed

subsection \<open>Independent changes commute\<close>

text \<open>The atomic steps of a delta: a checked removal or a checked insertion.\<close>

fun atom :: "bool \<times> element_record \<Rightarrow> manifest \<Rightarrow> manifest result" where
  "atom (True, r) m = m_remove r m"
| "atom (False, r) m = m_insert r m"

definition atoms :: "realized_entry \<Rightarrow> (bool \<times> element_record) list" where
  "atoms e = (case (removed e, added e) of
     (Inr r, Inr a) \<Rightarrow> map (Pair True) (case r of None \<Rightarrow> [] | Some r \<Rightarrow> [r]) @
                       map (Pair False) (case a of None \<Rightarrow> [] | Some a \<Rightarrow> [a])
   | _ \<Rightarrow> [])"

lemma entry_atoms:
  "entry_to_manifest e m = Ok m' \<longleftrightarrow>
     is_ok (removed e) \<and> is_ok (added e) \<and> rfold atom (atoms e) m = Ok m'"
  by (cases "removed e"; cases "added e")
    (auto simp: entry_to_manifest_def atoms_def remove_side_def insert_side_def split: option.splits)

lemma atoms_paths: "x \<in> set (atoms e) \<Longrightarrow> er_path (snd x) \<in> entry_paths e"
  by (cases "removed e"; cases "added e")
    (auto simp: atoms_def entry_paths_def split: option.splits)

lemma keeps_atom: "keeps bt_ok (atom x)"
  unfolding keeps_def
  by (cases x; cases "fst x") (auto simp: m_remove_Ok m_insert_Ok bt_ok_insert bt_ok_remove)

lemma atom_commute:
  assumes "er_path (snd x) \<noteq> er_path (snd y)"
  shows "commutes bt_ok (atom x) (atom y)"
  unfolding commutes_def
proof (intro allI impI)
  fix m m1 m2 assume m: "bt_ok m" "atom x m = Ok m1" "atom y m1 = Ok m2"
  obtain b r c q where xy: "x = (b, r)" "y = (c, q)" by (metis surj_pair)
  have ne: "er_path r \<noteq> er_path q" using assms xy by simp
  have "bt_remove (er_path q) (bt_remove (er_path r) m) = bt_remove (er_path r) (bt_remove (er_path q) m)"
    by (auto simp: bt_remove_def intro: filter_cong)
  then show "\<exists>t. atom y m = Ok t \<and> atom x t = Ok m2"
    using m ne btree.ins_commute [OF m(1), of "er_path r" "er_path q"]
      btree.ins_del_other [OF m(1), of "er_path r" "er_path q"]
      btree.ins_del_other [OF m(1), of "er_path q" "er_path r"] unfolding xy
    by (cases b; cases c) (auto simp: m_remove_Ok m_insert_Ok bt_get_insert bt_get_remove)
qed

lemma keeps_entry: "keeps bt_ok (entry_to_manifest e)"
proof -
  have "keeps bt_ok (rfold atom (atoms e))" by (rule keeps_rfold) (rule keeps_atom)
  then show ?thesis unfolding keeps_def entry_atoms by blast
qed

lemma entry_commute:
  assumes "entry_paths e \<inter> entry_paths f = {}"
  shows "commutes bt_ok (entry_to_manifest e) (entry_to_manifest f)"
proof -
  have "er_path (snd x) \<noteq> er_path (snd y)" if "x \<in> set (atoms e)" "y \<in> set (atoms f)" for x y
    using atoms_paths [OF that(1)] atoms_paths [OF that(2)] assms by auto
  then have "commutes bt_ok (rfold atom (atoms e)) (rfold atom (atoms f))"
    by (intro rfold_commute atom_commute keeps_atom)
  then show ?thesis unfolding commutes_def entry_atoms by blast
qed

lemma realized_commute:
  assumes "bt_ok m"
    "(\<Union>e \<in> set es. entry_paths e) \<inter> (\<Union>f \<in> set fs. entry_paths f) = {}"
    "apply_realized_to_manifest m (es @ fs) = Ok m'"
  shows "apply_realized_to_manifest m (fs @ es) = Ok m'"
proof -
  have "commutes bt_ok (rfold entry_to_manifest es) (rfold entry_to_manifest fs)"
    using assms(2) by (intro rfold_commute entry_commute keeps_entry) blast
  with assms(1,3) show ?thesis
    by (auto simp: apply_realized_to_manifest_def rfold_append dest: commutesD)
qed

text \<open>What an edit does to the state it meets.\<close>

lemma apply_edit:
  assumes "m_ok m" "apply_op E pool (Edit p old new) (m, rz) = Ok (m', rz')"
  shows "\<exists>el c c'. m_get m p = Some el \<and> read_blob pool (new_blobs rz) (er_blob el) = Ok c \<and>
    replace_unique c old new = Ok c' \<and>
    m' = bt_insert p \<lparr>er_mode = er_mode el, er_path = p, er_blob = sha3_hex E c'\<rparr> m \<and>
    new_blobs rz' = new_blobs rz @ [(sha3_hex E c', c')] \<and> m_ok m'"
proof -
  from assms(2) obtain el c c' r m1 where el: "m_get m p = Some el"
    and c: "read_blob pool (new_blobs rz) (er_blob el) = Ok c"
    and c': "op_precondition (replace_unique c old new) = Ok c'"
    and r: "er_new (er_mode el) p (sha3_hex E c') = Ok r"
    and m: "m_remove el m = Ok m1" "m_insert r m1 = Ok m'"
    and rz: "new_blobs rz' = new_blobs rz @ [(sha3_hex E c', c')]"
    by (auto simp: Let_def)
  have "m_ok m'" using m_insert_ok [OF m_remove_ok [OF assms(1) m(1)] er_new_valid [OF r] m(2)] .
  moreover have "er_path el = p" using m_ok_get [OF assms(1)] el by (simp add: m_get_def)
  ultimately show ?thesis using el c c' r m rz m_ok_bt [OF assms(1)]
    by (auto simp: op_precondition_def m_remove_Ok m_insert_Ok er_new_Ok btree.ins_del
        split: sum.splits)
qed

lemma apply_two_edits:
  assumes "m_ok m" "apply_intent E \<lparr>ops = [Edit p o1 n1, Edit p o2 n2]\<rparr> m pool = Ok (m', rz)"
    "m_get m p = Some el" "read_blob pool [] (er_blob el) = Ok c"
  shows "\<exists>c1 c2. replace_unique c o1 n1 = Ok c1 \<and> replace_unique c1 o2 n2 = Ok c2 \<and>
    m' = bt_insert p \<lparr>er_mode = er_mode el, er_path = p, er_blob = sha3_hex E c2\<rparr> m"
proof -
  from assms(2) obtain m1 rz1 where 1: "apply_op E pool (Edit p o1 n1) (m, empty_realization) = Ok (m1, rz1)"
    and 2: "apply_op E pool (Edit p o2 n2) (m1, rz1) = Ok (m', rz)"
    by (auto simp: apply_intent_def simp del: apply_op.simps)
  from apply_edit [OF assms(1) 1] assms(3,4) obtain c1 where c1: "replace_unique c o1 n1 = Ok c1"
    "m1 = bt_insert p \<lparr>er_mode = er_mode el, er_path = p, er_blob = sha3_hex E c1\<rparr> m"
    "new_blobs rz1 = [(sha3_hex E c1, c1)]" and ok: "m_ok m1"
    by (auto simp: empty_realization_def)
  have g: "m_get m1 p = Some \<lparr>er_mode = er_mode el, er_path = p, er_blob = sha3_hex E c1\<rparr>"
    using m_ok_bt [OF assms(1)] by (simp add: c1(2) m_get_def bt_get_insert)
  have "read_blob pool (new_blobs rz1) (sha3_hex E c1) = Ok c1"
    by (simp add: c1(3) read_blob_def)
  with apply_edit [OF ok 2] g c1 m_ok_bt [OF assms(1)] show ?thesis
    by (auto simp: btree.ins_ins)
qed

lemma edits_commute:
  assumes "m_ok m" "m_get m p = Some el" "read_blob pool [] (er_blob el) = Ok c"
    "find_unique c o1 = Ok i" "find_unique c o2 = Ok j" "i + length o1 \<le> j"
    "apply_intent E \<lparr>ops = [Edit p o1 n1, Edit p o2 n2]\<rparr> m pool = Ok (m1, rz1)"
    "apply_intent E \<lparr>ops = [Edit p o2 n2, Edit p o1 n1]\<rparr> m pool = Ok (m2, rz2)"
  shows "m1 = m2"
proof -
  from apply_two_edits [OF assms(1,7,2,3)] obtain c1 c12 where 1: "replace_unique c o1 n1 = Ok c1"
    "replace_unique c1 o2 n2 = Ok c12"
    "m1 = bt_insert p \<lparr>er_mode = er_mode el, er_path = p, er_blob = sha3_hex E c12\<rparr> m" by blast
  from apply_two_edits [OF assms(1,8,2,3)] obtain c2 c21 where 2: "replace_unique c o2 n2 = Ok c2"
    "replace_unique c2 o1 n1 = Ok c21"
    "m2 = bt_insert p \<lparr>er_mode = er_mode el, er_path = p, er_blob = sha3_hex E c21\<rparr> m" by blast
  from disjoint_edits_commute [OF assms(4-6) 1(1,2) 2(1,2)] 1(3) 2(3) show ?thesis by simp
qed

text \<open>A failing precondition refuses the intent; nothing is produced.\<close>

lemma apply_edit_refused:
  "validate_path p = Ok () \<Longrightarrow> m_get m p = Some el \<Longrightarrow> read_blob pool (new_blobs rz) (er_blob el) = Ok c \<Longrightarrow>
   count_occurrences c old \<noteq> 1 \<Longrightarrow> apply_op E pool (Edit p old new) (m, rz) = Err Precondition"
  by (simp add: replace_unique_count op_precondition_def)

end
