(* ===== verification/LogData.thy ===== *)
theory LogData
  imports Patch
begin

text \<open>
  The log's data (\<open>src/src/log.rs\<close>) and its JSON form: the values the derived
  \<open>Serialize\<close> of each type writes and the reader the derived \<open>Deserialize\<close>
  provides, as the \<open>serde\<close> attributes of the source fix them (external tags,
  lower-case variants, skipped options, defaults, ignored unknown fields, a
  structure also read from the array of its fields).  Objects list their members
  in key order, as \<open>serde_json\<close>'s map does.  Main result: reading the written
  value gives the line back.
\<close>

subsection \<open>Data\<close>

datatype provenance = PAgent | PAndon | PUnion | PFuse

record fuse =
  fuse_name :: string
  fuse_from :: string
  fuse_to :: string

record origin =
  origin_fork :: string
  origin_id :: string

record git_import =
  gi_algorithm :: string
  gi_commit :: string
  gi_tree :: string
  gi_reference :: "string option"

record harness_call =
  hc_harness :: string
  hc_tool :: string
  hc_entry :: string
  hc_call :: string
  hc_absorbed :: "string list"

record annotation =
  an_author :: string
  an_provenance :: provenance
  an_reason :: "string option"
  an_sig :: "string option"
  an_session :: "string option"
  an_prose :: "string option"
  an_reads :: "json option"
  an_origin :: "origin option"
  an_import :: "git_import option"
  an_harness :: "harness_call option"
  an_fuse :: "fuse option"

text \<open>\<open>committed_ms\<close> is a \<open>u64\<close>.\<close>

record log_line =
  ll_id :: string
  ll_prev :: string
  ll_intent :: intent
  ll_realized :: "realized_entry list"
  ll_sum_after :: string
  ll_committed_ms :: nat
  ll_annotation :: annotation

subsection \<open>Writing\<close>

definition str_or_null :: "string option \<Rightarrow> json" where
  "str_or_null s = (case s of None \<Rightarrow> JNull | Some s \<Rightarrow> JStr s)"

text \<open>A member skipped when the option is empty.\<close>

definition member :: "string \<Rightarrow> ('a \<Rightarrow> json) \<Rightarrow> 'a option \<Rightarrow> (string \<times> json) list" where
  "member k f x = (case x of None \<Rightarrow> [] | Some x \<Rightarrow> [(k, f x)])"

fun op_to_value :: "op \<Rightarrow> json" where
  "op_to_value (Edit path old new) =
     JObj [(''edit'', JObj [(''new_str'', JStr new), (''old_str'', JStr old), (''path'', JStr path)])]"
| "op_to_value (Create path mode blob content) =
     JObj [(''create'', JObj (member ''blob'' JStr blob @ member ''content_b64'' JStr content @
       [(''mode'', JStr mode), (''path'', JStr path)]))]"
| "op_to_value (Delete path blob) =
     JObj [(''delete'', JObj [(''blob'', JStr blob), (''path'', JStr path)])]"
| "op_to_value (Chmod path old new) =
     JObj [(''chmod'', JObj [(''new_mode'', JStr new), (''old_mode'', JStr old), (''path'', JStr path)])]"

definition intent_to_value :: "intent \<Rightarrow> json" where
  "intent_to_value i = JObj [(''ops'', JArr (map op_to_value (ops i)))]"

definition realized_to_value :: "realized_entry \<Rightarrow> json" where
  "realized_to_value e = JObj (member ''add'' JStr (re_add e) @ member ''remove'' JStr (re_remove e))"

definition provenance_name :: "provenance \<Rightarrow> string" where
  "provenance_name p =
     (case p of PAgent \<Rightarrow> ''agent'' | PAndon \<Rightarrow> ''andon'' | PUnion \<Rightarrow> ''union'' | PFuse \<Rightarrow> ''fuse'')"

definition fuse_to_value :: "fuse \<Rightarrow> json" where
  "fuse_to_value f =
     JObj [(''from'', JStr (fuse_from f)), (''name'', JStr (fuse_name f)), (''to'', JStr (fuse_to f))]"

definition origin_to_value :: "origin \<Rightarrow> json" where
  "origin_to_value r = JObj [(''fork'', JStr (origin_fork r)), (''id'', JStr (origin_id r))]"

definition import_to_value :: "git_import \<Rightarrow> json" where
  "import_to_value g =
     JObj ([(''algorithm'', JStr (gi_algorithm g)), (''commit'', JStr (gi_commit g))] @
       member ''reference'' JStr (gi_reference g) @ [(''tree'', JStr (gi_tree g))])"

definition harness_to_value :: "harness_call \<Rightarrow> json" where
  "harness_to_value h =
     JObj ((if hc_absorbed h = [] then [] else [(''absorbed'', JArr (map JStr (hc_absorbed h)))]) @
       [(''call'', JStr (hc_call h)), (''entry'', JStr (hc_entry h)),
        (''harness'', JStr (hc_harness h)), (''tool'', JStr (hc_tool h))])"

definition annotation_to_value :: "annotation \<Rightarrow> json" where
  "annotation_to_value a =
     JObj ([(''author'', JStr (an_author a))] @
       member ''fuse'' fuse_to_value (an_fuse a) @
       member ''harness'' harness_to_value (an_harness a) @
       member ''import'' import_to_value (an_import a) @
       [(''origin'', case an_origin a of None \<Rightarrow> JNull | Some r \<Rightarrow> origin_to_value r),
        (''prose'', str_or_null (an_prose a)),
        (''provenance'', JStr (provenance_name (an_provenance a)))] @
       member ''reads'' id (an_reads a) @
       [(''reason'', str_or_null (an_reason a)),
        (''session'', str_or_null (an_session a)),
        (''sig'', str_or_null (an_sig a))])"

definition line_to_value :: "log_line \<Rightarrow> json" where
  "line_to_value l =
     JObj [(''annotation'', annotation_to_value (ll_annotation l)),
           (''committed_ms'', JInt (int (ll_committed_ms l))),
           (''id'', JStr (ll_id l)),
           (''intent'', intent_to_value (ll_intent l)),
           (''prev'', JStr (ll_prev l)),
           (''realized'', JArr (map realized_to_value (ll_realized l))),
           (''sum_after'', JStr (ll_sum_after l))]"

subsection \<open>Reading\<close>

type_synonym members = "string \<Rightarrow> json option"

text \<open>
  A structure with the named fields: the members of an object, or an array of
  exactly the fields in declaration order; the last \<open>n\<close> fields of an array may
  be missing where they have a default.
\<close>

definition struct_fields :: "string list \<Rightarrow> nat \<Rightarrow> json \<Rightarrow> members result" where
  "struct_fields names n v = (case v of
       JObj m \<Rightarrow> Ok (map_of m)
     | JArr xs \<Rightarrow> if length names - n \<le> length xs \<and> length xs \<le> length names
                  then Ok (map_of (zip names xs)) else Err Json
     | _ \<Rightarrow> Err Json)"

definition str_of :: "json \<Rightarrow> string result" where
  "str_of v = ok_or Json (as_str v)"

definition req :: "members \<Rightarrow> string \<Rightarrow> (json \<Rightarrow> 'a result) \<Rightarrow> 'a result" where
  "req f k rd = rbind (ok_or Json (f k)) rd"

definition opt :: "members \<Rightarrow> string \<Rightarrow> (json \<Rightarrow> 'a result) \<Rightarrow> 'a option result" where
  "opt f k rd = (case f k of None \<Rightarrow> Ok None | Some JNull \<Rightarrow> Ok None | Some v \<Rightarrow> rmap Some (rd v))"

definition arr_of :: "(json \<Rightarrow> 'a result) \<Rightarrow> json \<Rightarrow> 'a list result" where
  "arr_of rd v = (case v of JArr xs \<Rightarrow> rmapM rd xs | _ \<Rightarrow> Err Json)"

definition u64_of :: "json \<Rightarrow> nat result" where
  "u64_of v = (case v of JInt i \<Rightarrow> if 0 \<le> i \<and> i < 2 ^ 64 then Ok (nat i) else Err Json | _ \<Rightarrow> Err Json)"

text \<open>A default where the field is missing.\<close>

definition default_to :: "'a \<Rightarrow> members \<Rightarrow> string \<Rightarrow> (json \<Rightarrow> 'a result) \<Rightarrow> 'a result" where
  "default_to d f k rd = (case f k of None \<Rightarrow> Ok d | Some v \<Rightarrow> rd v)"

definition op_body :: "string \<Rightarrow> members \<Rightarrow> op result" where
  "op_body tag f =
     (if tag = ''edit'' then
        rbind (req f ''path'' str_of) (\<lambda>path.
        rbind (req f ''old_str'' str_of) (\<lambda>old.
        rbind (req f ''new_str'' str_of) (\<lambda>new. Ok (Edit path old new))))
      else if tag = ''create'' then
        rbind (req f ''path'' str_of) (\<lambda>path.
        rbind (req f ''mode'' str_of) (\<lambda>mode.
        rbind (opt f ''blob'' str_of) (\<lambda>blob.
        rbind (opt f ''content_b64'' str_of) (\<lambda>content. Ok (Create path mode blob content)))))
      else if tag = ''delete'' then
        rbind (req f ''path'' str_of) (\<lambda>path.
        rbind (req f ''blob'' str_of) (\<lambda>blob. Ok (Delete path blob)))
      else if tag = ''chmod'' then
        rbind (req f ''path'' str_of) (\<lambda>path.
        rbind (req f ''old_mode'' str_of) (\<lambda>old.
        rbind (req f ''new_mode'' str_of) (\<lambda>new. Ok (Chmod path old new))))
      else Err Json)"

definition op_of_value :: "json \<Rightarrow> op result" where
  "op_of_value v = (case v of JObj [(tag, JObj m)] \<Rightarrow> op_body tag (map_of m) | _ \<Rightarrow> Err Json)"

definition intent_of_value :: "json \<Rightarrow> intent result" where
  "intent_of_value v =
     rbind (struct_fields [''ops''] 0 v) (\<lambda>f.
     rbind (req f ''ops'' (arr_of op_of_value)) (\<lambda>os. Ok \<lparr>ops = os\<rparr>))"

definition realized_of_value :: "json \<Rightarrow> realized_entry result" where
  "realized_of_value v =
     rbind (struct_fields [''remove'', ''add''] 0 v) (\<lambda>f.
     rbind (opt f ''remove'' str_of) (\<lambda>r.
     rbind (opt f ''add'' str_of) (\<lambda>a. Ok \<lparr>re_remove = r, re_add = a\<rparr>)))"

definition provenance_named :: "string \<Rightarrow> provenance result" where
  "provenance_named s =
     (if s = ''agent'' then Ok PAgent else if s = ''andon'' then Ok PAndon
      else if s = ''union'' then Ok PUnion else if s = ''fuse'' then Ok PFuse else Err Json)"

definition provenance_of_value :: "json \<Rightarrow> provenance result" where
  "provenance_of_value v = (case v of
       JStr s \<Rightarrow> provenance_named s
     | JObj [(s, JNull)] \<Rightarrow> provenance_named s
     | _ \<Rightarrow> Err Json)"

definition fuse_of_value :: "json \<Rightarrow> fuse result" where
  "fuse_of_value v =
     rbind (struct_fields [''name'', ''from'', ''to''] 0 v) (\<lambda>f.
     rbind (req f ''name'' str_of) (\<lambda>n.
     rbind (req f ''from'' str_of) (\<lambda>a.
     rbind (req f ''to'' str_of) (\<lambda>b. Ok \<lparr>fuse_name = n, fuse_from = a, fuse_to = b\<rparr>))))"

definition origin_of_value :: "json \<Rightarrow> origin result" where
  "origin_of_value v =
     rbind (struct_fields [''fork'', ''id''] 0 v) (\<lambda>f.
     rbind (req f ''fork'' str_of) (\<lambda>k.
     rbind (req f ''id'' str_of) (\<lambda>i. Ok \<lparr>origin_fork = k, origin_id = i\<rparr>)))"

definition import_of_value :: "json \<Rightarrow> git_import result" where
  "import_of_value v =
     rbind (struct_fields [''algorithm'', ''commit'', ''tree'', ''reference''] 0 v) (\<lambda>f.
     rbind (req f ''algorithm'' str_of) (\<lambda>a.
     rbind (req f ''commit'' str_of) (\<lambda>c.
     rbind (req f ''tree'' str_of) (\<lambda>t.
     rbind (opt f ''reference'' str_of) (\<lambda>r.
       Ok \<lparr>gi_algorithm = a, gi_commit = c, gi_tree = t, gi_reference = r\<rparr>)))))"

definition harness_of_value :: "json \<Rightarrow> harness_call result" where
  "harness_of_value v =
     rbind (struct_fields [''harness'', ''tool'', ''entry'', ''call'', ''absorbed''] 1 v) (\<lambda>f.
     rbind (req f ''harness'' str_of) (\<lambda>h.
     rbind (req f ''tool'' str_of) (\<lambda>t.
     rbind (req f ''entry'' str_of) (\<lambda>e.
     rbind (req f ''call'' str_of) (\<lambda>c.
     rbind (default_to [] f ''absorbed'' (arr_of str_of)) (\<lambda>a.
       Ok \<lparr>hc_harness = h, hc_tool = t, hc_entry = e, hc_call = c, hc_absorbed = a\<rparr>))))))"

definition annotation_of_value :: "json \<Rightarrow> annotation result" where
  "annotation_of_value v =
     rbind (struct_fields [''author'', ''provenance'', ''reason'', ''sig'', ''session'', ''prose'',
       ''reads'', ''origin'', ''import'', ''harness'', ''fuse''] 0 v) (\<lambda>f.
     rbind (req f ''author'' str_of) (\<lambda>author.
     rbind (req f ''provenance'' provenance_of_value) (\<lambda>prov.
     rbind (opt f ''reason'' str_of) (\<lambda>reason.
     rbind (opt f ''sig'' str_of) (\<lambda>sig.
     rbind (opt f ''session'' str_of) (\<lambda>session.
     rbind (opt f ''prose'' str_of) (\<lambda>prose.
     rbind (opt f ''reads'' Ok) (\<lambda>reads.
     rbind (opt f ''origin'' origin_of_value) (\<lambda>orig.
     rbind (opt f ''import'' import_of_value) (\<lambda>imp.
     rbind (opt f ''harness'' harness_of_value) (\<lambda>har.
     rbind (opt f ''fuse'' fuse_of_value) (\<lambda>fus.
       Ok \<lparr>an_author = author, an_provenance = prov, an_reason = reason, an_sig = sig,
           an_session = session, an_prose = prose, an_reads = reads, an_origin = orig,
           an_import = imp, an_harness = har, an_fuse = fus\<rparr>))))))))))))"

definition line_of_value :: "json \<Rightarrow> log_line result" where
  "line_of_value v =
     rbind (struct_fields [''id'', ''prev'', ''intent'', ''realized'', ''sum_after'',
       ''committed_ms'', ''annotation''] 0 v) (\<lambda>f.
     rbind (req f ''id'' str_of) (\<lambda>i.
     rbind (req f ''prev'' str_of) (\<lambda>prev.
     rbind (req f ''intent'' intent_of_value) (\<lambda>intent.
     rbind (req f ''realized'' (arr_of realized_of_value)) (\<lambda>real.
     rbind (req f ''sum_after'' str_of) (\<lambda>sum.
     rbind (default_to 0 f ''committed_ms'' u64_of) (\<lambda>ms.
     rbind (req f ''annotation'' annotation_of_value) (\<lambda>a.
       Ok \<lparr>ll_id = i, ll_prev = prev, ll_intent = intent, ll_realized = real,
           ll_sum_after = sum, ll_committed_ms = ms, ll_annotation = a\<rparr>))))))))"

subsection \<open>Reading what was written\<close>

lemma str_of_JStr [simp]: "str_of (JStr s) = Ok s"
  by (simp add: str_of_def as_str_def)

lemma member_simps [simp]:
  "member k f None = []" "member k f (Some x) = [(k, f x)]"
  by (simp_all add: member_def)

lemma map_of_member:
  "map_of (member k f x) k' = (if k' = k then map_option f x else None)"
  by (cases x) auto

lemmas reading = struct_fields_def req_def opt_def default_to_def map_of_member map_add_def

lemma opt_str_or_null: "f k = Some (str_or_null s) \<Longrightarrow> opt f k str_of = Ok s"
  by (cases s) (simp_all add: opt_def str_or_null_def)

lemma opt_member:
  "f k = map_option w x \<Longrightarrow> (\<And>y. x = Some y \<Longrightarrow> rd (w y) = Ok y \<and> w y \<noteq> JNull) \<Longrightarrow> opt f k rd = Ok x"
  by (cases x) (auto simp: opt_def split: json.splits)

lemma opt_or_null:
  "f k = Some (case x of None \<Rightarrow> JNull | Some y \<Rightarrow> w y) \<Longrightarrow>
   (\<And>y. x = Some y \<Longrightarrow> rd (w y) = Ok y \<and> w y \<noteq> JNull) \<Longrightarrow> opt f k rd = Ok x"
  by (cases x) (auto simp: opt_def split: json.splits)

lemma arr_of_map: "(\<And>x. x \<in> set xs \<Longrightarrow> rd (w x) = Ok x) \<Longrightarrow> arr_of rd (JArr (map w xs)) = Ok xs"
  by (simp add: arr_of_def) (induction xs; simp)

lemma op_roundtrip: "op_of_value (op_to_value oper) = Ok oper"
proof (cases oper)
  case (Create path mode blob content)
  then show ?thesis
    by (cases blob; cases content) (simp_all add: op_of_value_def op_body_def reading)
qed (simp_all add: op_of_value_def op_body_def reading)

lemma intent_roundtrip: "intent_of_value (intent_to_value i) = Ok i"
  by (simp add: intent_of_value_def intent_to_value_def reading arr_of_map op_roundtrip)

lemma realized_roundtrip: "realized_of_value (realized_to_value e) = Ok e"
  by (cases "re_remove e"; cases "re_add e")
    (simp_all add: realized_of_value_def realized_to_value_def reading)

lemma provenance_roundtrip: "provenance_of_value (JStr (provenance_name p)) = Ok p"
  by (cases p) (simp_all add: provenance_of_value_def provenance_named_def provenance_name_def)

lemma fuse_roundtrip: "fuse_of_value (fuse_to_value f) = Ok f"
  by (simp add: fuse_of_value_def fuse_to_value_def reading)

lemma origin_roundtrip: "origin_of_value (origin_to_value r) = Ok r"
  by (simp add: origin_of_value_def origin_to_value_def reading)

lemma import_roundtrip: "import_of_value (import_to_value g) = Ok g"
  by (cases "gi_reference g") (simp_all add: import_of_value_def import_to_value_def reading)

lemma harness_roundtrip: "harness_of_value (harness_to_value h) = Ok h"
  by (simp add: harness_of_value_def harness_to_value_def reading arr_of_map)

lemma not_null [simp]:
  "origin_to_value r \<noteq> JNull" "fuse_to_value f \<noteq> JNull" "import_to_value g \<noteq> JNull"
  "harness_to_value h \<noteq> JNull"
  by (simp_all add: origin_to_value_def fuse_to_value_def import_to_value_def harness_to_value_def)

text \<open>The one value the format cannot tell from an absent one.\<close>

definition an_valid :: "annotation \<Rightarrow> bool" where
  "an_valid a \<longleftrightarrow> an_reads a \<noteq> Some JNull"

lemma annotation_roundtrip:
  assumes "an_valid a" shows "annotation_of_value (annotation_to_value a) = Ok a"
proof -
  obtain ms where v: "annotation_to_value a = JObj ms" and f:
    "map_of ms ''author'' = Some (JStr (an_author a))"
    "map_of ms ''provenance'' = Some (JStr (provenance_name (an_provenance a)))"
    "map_of ms ''reason'' = Some (str_or_null (an_reason a))"
    "map_of ms ''sig'' = Some (str_or_null (an_sig a))"
    "map_of ms ''session'' = Some (str_or_null (an_session a))"
    "map_of ms ''prose'' = Some (str_or_null (an_prose a))"
    "map_of ms ''reads'' = map_option id (an_reads a)"
    "map_of ms ''origin'' = Some (case an_origin a of None \<Rightarrow> JNull | Some r \<Rightarrow> origin_to_value r)"
    "map_of ms ''import'' = map_option import_to_value (an_import a)"
    "map_of ms ''harness'' = map_option harness_to_value (an_harness a)"
    "map_of ms ''fuse'' = map_option fuse_to_value (an_fuse a)"
    by (auto simp: annotation_to_value_def map_of_member map_add_def split: option.splits)
  have "opt (map_of ms) ''origin'' origin_of_value = Ok (an_origin a)"
    using f(8) by (intro opt_or_null [where w = origin_to_value]) (simp_all add: origin_roundtrip)
  moreover have "opt (map_of ms) ''reads'' Ok = Ok (an_reads a)"
    using assms f(7) by (intro opt_member [where w = id]) (auto simp: an_valid_def)
  moreover have "opt (map_of ms) ''import'' import_of_value = Ok (an_import a)"
    using f(9) by (intro opt_member [where w = import_to_value]) (simp_all add: import_roundtrip)
  moreover have "opt (map_of ms) ''harness'' harness_of_value = Ok (an_harness a)"
    using f(10) by (intro opt_member [where w = harness_to_value]) (simp_all add: harness_roundtrip)
  moreover have "opt (map_of ms) ''fuse'' fuse_of_value = Ok (an_fuse a)"
    using f(11) by (intro opt_member [where w = fuse_to_value]) (simp_all add: fuse_roundtrip)
  moreover have "opt (map_of ms) ''reason'' str_of = Ok (an_reason a)"
    "opt (map_of ms) ''sig'' str_of = Ok (an_sig a)"
    "opt (map_of ms) ''session'' str_of = Ok (an_session a)"
    "opt (map_of ms) ''prose'' str_of = Ok (an_prose a)"
    using f(3-6) by (simp_all add: opt_str_or_null)
  ultimately show ?thesis
    by (simp add: annotation_of_value_def v struct_fields_def req_def f(1,2) provenance_roundtrip)
qed

definition ll_valid :: "log_line \<Rightarrow> bool" where
  "ll_valid l \<longleftrightarrow> ll_committed_ms l < 2 ^ 64 \<and> an_valid (ll_annotation l)"

lemma line_roundtrip: "ll_valid l \<Longrightarrow> line_of_value (line_to_value l) = Ok l"
  by (simp add: line_of_value_def line_to_value_def reading intent_roundtrip arr_of_map
      realized_roundtrip u64_of_def annotation_roundtrip ll_valid_def)

interpretation log_line: codec line_to_value line_of_value ll_valid
  by unfold_locales (rule line_roundtrip)

end
