(* ===== verification/Canonical.thy ===== *)
theory Canonical
  imports Ident
begin

text \<open>
  What the canonical JSON of \<open>src/src/ident.rs\<close> promises (its definitions are in
  theory \<open>Ident\<close>): the text does not depend on the order of an object's members,
  it is one line and, for UTF-8 strings, UTF-8; a record's id does not depend on
  the \<open>id\<close> member, and a record sealed with its id verifies.
\<close>

subsection \<open>Values all of whose strings satisfy a predicate\<close>

inductive json_all :: "(string \<Rightarrow> bool) \<Rightarrow> json \<Rightarrow> bool" for P where
  null: "json_all P JNull"
| bool: "json_all P (JBool b)"
| int: "json_all P (JInt i)"
| float: "json_all P (JFloat f)"
| str: "P s \<Longrightarrow> json_all P (JStr s)"
| arr: "(\<And>x. x \<in> set a \<Longrightarrow> json_all P x) \<Longrightarrow> json_all P (JArr a)"
| obj: "(\<And>k v. (k, v) \<in> set m \<Longrightarrow> P k \<and> json_all P v) \<Longrightarrow> json_all P (JObj m)"

inductive_simps json_all_simps [simp]:
  "json_all P JNull" "json_all P (JBool b)" "json_all P (JInt i)" "json_all P (JFloat f)"
  "json_all P (JStr s)" "json_all P (JArr a)" "json_all P (JObj m)"

lemma json_all_True [simp]: "json_all (\<lambda>_. True) v"
  by (induction v) (force simp: snds.simps)+

lemma rmapM_id_Ok: "rmapM id rs = Ok ys \<longleftrightarrow> rs = map Ok ys"
  by (induction rs arbitrary: ys) auto

text \<open>The shape of an accepted value's text.\<close>

lemma write_canonical_JArr:
  "write_canonical (JArr a) = Ok s \<longleftrightarrow>
     (\<exists>items. map write_canonical a = map Ok items \<and>
        s = CHR ''['' # join (CHR '','') items @ [CHR '']''])"
  by (auto simp: rmapM_id_Ok)

definition members_text :: "(string \<times> string) list \<Rightarrow> string" where
  "members_text ms = CHR ''{'' # join (CHR '','')
     (map (\<lambda>(k, v). write_canonical_string k @ CHR '':'' # v) ms) @ [CHR ''}'']"

lemma write_canonical_JObj:
  "write_canonical (JObj m) = Ok s \<longleftrightarrow>
     (\<exists>ms. sort_key fst (map (\<lambda>(k, v). (k, write_canonical v)) m) = map (\<lambda>(k, v). (k, Ok v)) ms \<and>
        s = members_text ms)"
proof -
  have "rmapM (\<lambda>(k, r). rmap (\<lambda>v. write_canonical_string k @ CHR '':'' # v) r) rs = Ok items \<longleftrightarrow>
      (\<exists>ms. rs = map (\<lambda>(k, v). (k, Ok v)) ms \<and>
         items = map (\<lambda>(k, v). write_canonical_string k @ CHR '':'' # v) ms)"
    for rs :: "(string \<times> string result) list" and items
  proof (induction rs arbitrary: items)
    case (Cons p rs)
    obtain k r where p: "p = (k, r)" by force
    show ?case
    proof (cases r)
      case (Inr v)
      then show ?thesis unfolding p using Cons
        by (auto simp: Cons_eq_map_conv; force)
    qed (auto simp: p Cons_eq_map_conv)
  qed auto
  then show ?thesis by (auto simp: members_text_def)
qed

text \<open>Properties of texts that concatenation and printable ASCII preserve.\<close>

definition printable :: "char \<Rightarrow> bool" where
  "printable c \<longleftrightarrow> 32 \<le> byte c \<and> byte c < 127"

definition text_closed :: "(string \<Rightarrow> bool) \<Rightarrow> bool" where
  "text_closed Q \<longleftrightarrow> Q [] \<and> (\<forall>a b. Q a \<longrightarrow> Q b \<longrightarrow> Q (a @ b)) \<and> (\<forall>c. printable c \<longrightarrow> Q [c])"

lemma text_closedD:
  assumes "text_closed Q"
  shows "Q []" "Q a \<Longrightarrow> Q b \<Longrightarrow> Q (a @ b)" "printable c \<Longrightarrow> Q b \<Longrightarrow> Q (c # b)"
proof -
  show "printable c \<Longrightarrow> Q b \<Longrightarrow> Q (c # b)"
    using assms unfolding text_closed_def by (metis append_Cons append_Nil)
qed (use assms in \<open>auto simp: text_closed_def\<close>)

lemma text_closed_ascii:
  assumes Q: "text_closed Q" shows "list_all printable s \<Longrightarrow> Q s"
  by (induction s) (simp_all add: text_closedD [OF Q])

lemma text_closed_join:
  assumes Q: "text_closed Q" and "printable c" "\<And>x. x \<in> set xs \<Longrightarrow> Q x"
  shows "Q (join c xs)"
  using assms(3)
proof (induction xs rule: induct_list012)
  case (3 x y xs)
  then have "Q x" "Q (join c (y # xs))" by auto
  with assms(2) have "Q (x @ c # join c (y # xs))" by (intro text_closedD [OF Q])
  then show ?case by simp
qed (simp_all add: text_closedD [OF Q])

lemma printable_literals [simp]:
  "list_all printable ''null''" "list_all printable ''true''" "list_all printable ''false''"
  "printable (CHR ''['')" "printable (CHR '']'')" "printable (CHR ''{'')" "printable (CHR ''}'')"
  "printable (CHR '','')" "printable (CHR '':'')" "printable (CHR 0x22)" "printable (CHR ''-'')"
  by (simp_all add: printable_def byte_def)

lemma printable_show_int: "list_all printable (show_int i)"
proof -
  have "list_all printable (show_nat n)" for n
    using show_nat_digits [of n]
    by (rule list.pred_mono_strong) (simp add: is_digit_def printable_def byte_def)
  then show ?thesis by (simp add: show_int_def)
qed

lemma canonical_closed:
  assumes Q: "text_closed Q"
  shows "json_all (\<lambda>s. Q (write_canonical_string s)) v \<Longrightarrow> write_canonical v = Ok t \<Longrightarrow> Q t"
proof (induction arbitrary: t rule: json_all.induct)
  case (bool b)
  then show ?case using text_closed_ascii [OF Q printable_literals(2)]
      text_closed_ascii [OF Q printable_literals(3)] by (cases b) auto
next
  case (int i)
  then show ?case
    by (auto simp: write_number_def split: if_splits intro: text_closed_ascii [OF Q] printable_show_int)
next
  case (arr a)
  from arr.prems obtain items where i: "map write_canonical a = map Ok items"
    and t: "t = CHR ''['' # join (CHR '','') items @ [CHR '']'']"
    unfolding write_canonical_JArr by blast
  have "Q x" if "x \<in> set items" for x
  proof -
    have "Ok x \<in> write_canonical ` set a"
      using arg_cong [OF i, of set] that by (simp add: image_iff)
    then obtain y where "y \<in> set a" "write_canonical y = Ok x" by (metis imageE)
    with arr.IH show ?thesis by blast
  qed
  then show ?case unfolding t by (intro text_closedD [OF Q] text_closed_join [OF Q]) simp_all
next
  case (obj m)
  from obj.prems obtain ms where
    i: "sort_key fst (map (\<lambda>(k, v). (k, write_canonical v)) m) = map (\<lambda>(k, v). (k, Ok v)) ms"
    and t: "t = members_text ms"
    unfolding write_canonical_JObj by blast
  have "Q (write_canonical_string k @ CHR '':'' # x)" if "(k, x) \<in> set ms" for k x
  proof -
    have "(k, Ok x) \<in> (\<lambda>(k, v). (k, Ok v)) ` set ms" using that by force
    then have "(k, Ok x) \<in> (\<lambda>(k, v). (k, write_canonical v)) ` set m"
      using arg_cong [OF i, of set] by (simp only: set_sort set_map)
    then obtain y where "(k, y) \<in> set m" "write_canonical y = Ok x" by auto
    with obj.IH have "Q x" "Q (write_canonical_string k)" by blast+
    then show ?thesis by (intro text_closedD [OF Q]) simp_all
  qed
  then have "\<And>x. x \<in> set (map (\<lambda>(k, v). write_canonical_string k @ CHR '':'' # v) ms) \<Longrightarrow> Q x"
    by auto
  then show ?case unfolding t members_text_def
    by (intro text_closedD [OF Q] text_closed_join [OF Q]) simp_all
qed (use text_closed_ascii [OF Q printable_literals(1)] in \<open>auto simp: write_number_def\<close>)

subsection \<open>One line, and UTF-8\<close>

lemma text_closed_no_LF: "text_closed (\<lambda>s. LF \<notin> set s)"
  by (auto simp: text_closed_def printable_def LF_def byte_def)

lemma text_closed_utf8: "text_closed utf8"
  by (auto simp: text_closed_def printable_def intro: utf8_append utf8.nil ascii_utf8)

lemma hex_byte_ascii: "c \<in> set (hex_byte b) \<Longrightarrow> is_hex_char c"
  using hex_chars [of "[b]"] by (simp add: hex_def list_all_iff)

lemma escape_char_no_LF: "LF \<notin> set (escape_char c)"
  using hex_byte_ascii [of LF c] by (auto simp: escape_char_def LF_def is_hex_char_def byte_def)

lemma canonical_no_LF:
  assumes "canonical_json v = Ok t" shows "LF \<notin> set t"
proof -
  have "json_all (\<lambda>s. LF \<notin> set (write_canonical_string s)) v"
    using escape_char_no_LF by (simp add: write_canonical_string_def LF_def)
  from canonical_closed [OF text_closed_no_LF this] assms show ?thesis
    by (simp add: canonical_json_def)
qed

text \<open>Escaping leaves multi-byte characters alone.\<close>

lemma escape_char_high: "128 \<le> byte c \<Longrightarrow> escape_char c = [c]"
proof -
  assume "128 \<le> byte c"
  then have "c \<noteq> x" if "byte x < 128" for x using that by auto
  from this [of "CHR 0x22"] this [of "CHR 0x5C"] this [of "CHR 0x08"] this [of "CHR 0x09"]
    this [of "CHR 0x0A"] this [of "CHR 0x0C"] this [of "CHR 0x0D"] \<open>128 \<le> byte c\<close>
  show ?thesis by (simp add: escape_char_def byte_def)
qed

lemma escape_char_ascii:
  assumes "byte c < 128" "x \<in> set (escape_char c)" shows "byte x < 128"
proof -
  have "x = c \<or> printable x"
    using assms(2) hex_byte_ascii [of x c] unfolding escape_char_def
    by (auto simp: is_hex_char_def printable_def byte_def split: if_split_asm)
  with assms(1) show ?thesis by (auto simp: printable_def)
qed

lemma utf8_char_bytes: "utf8_char u \<Longrightarrow> (\<exists>c. u = [c] \<and> byte c < 128) \<or> (\<forall>c \<in> set u. 128 \<le> byte c)"
  by (erule utf8_char.cases)
    (auto simp: seq_len_def is_cont_def second_ok_def split: if_splits)

lemma escape_utf8_char:
  assumes "utf8_char u" shows "utf8 (concat (map escape_char u))"
  using utf8_char_bytes [OF assms]
proof
  assume "\<exists>c. u = [c] \<and> byte c < 128"
  then obtain c where "u = [c]" "byte c < 128" by blast
  then have "utf8 (escape_char c)" using escape_char_ascii by (intro ascii_utf8)
  then show ?thesis by (simp add: \<open>u = [c]\<close>)
next
  assume "\<forall>c \<in> set u. 128 \<le> byte c"
  then have "concat (map escape_char u) = u" by (induction u) (auto simp: escape_char_high)
  with utf8.cons [OF assms utf8.nil] show ?thesis by simp
qed

lemma utf8_quote: "utf8 [CHR 0x22]"
  by (rule ascii_utf8) (simp add: byte_def)

lemma canonical_string_utf8:
  assumes "utf8 s" shows "utf8 (write_canonical_string s)"
proof -
  have "utf8 (concat (map escape_char s))"
    using assms by (induction rule: utf8.induct) (auto intro: utf8.nil utf8_append escape_utf8_char)
  with utf8_append [OF utf8_quote utf8_append [OF _ utf8_quote]] show ?thesis
    by (simp add: write_canonical_string_def)
qed

lemma json_all_mono:
  assumes "\<And>s. P s \<Longrightarrow> Q s" shows "json_all P v \<Longrightarrow> json_all Q v"
  by (induction rule: json_all.induct) (use assms in \<open>auto simp: json_all.intros\<close>)

lemma canonical_utf8:
  assumes "json_all utf8 v" "canonical_json v = Ok t" shows "utf8 t"
proof -
  have "json_all (\<lambda>s. utf8 (write_canonical_string s)) v"
    by (rule json_all_mono [OF _ assms(1)]) (rule canonical_string_utf8)
  from canonical_closed [OF text_closed_utf8 this] assms(2) show ?thesis
    by (simp add: canonical_json_def)
qed

subsection \<open>Order independence, ids and seals\<close>

lemma canonical_perm:
  assumes "mset m = mset m'" "distinct (map fst m)"
  shows "canonical_json (JObj m) = canonical_json (JObj m')"
proof -
  let ?f = "\<lambda>(k, v). (k, write_canonical v)"
  have "inj_on fst (set (map ?f m))"
    using assms(2) by (auto simp: distinct_map inj_on_def) (metis fst_conv prod.inject)
  then have "sort_key fst (map ?f m) = sort_key fst (map ?f m')"
    using assms(1) by (intro sort_key_inj_key_eq) (simp_all add: mset_map)
  then show ?thesis by (simp add: canonical_json_def)
qed

lemma record_id_ignores_id:
  assumes "bt_remove ''id'' m = bt_remove ''id'' m'"
  shows "record_id E (JObj m) = record_id E (JObj m')"
  using assms by (simp add: record_id_def)

lemma verify_record_id_Ok:
  "verify_record_id E (JObj m) = Ok u \<longleftrightarrow>
     (\<exists>i. bt_get m ''id'' = Some (JStr i) \<and> record_id E (JObj m) = Ok i)"
  by (auto simp: verify_record_id_def json_get_def as_str_def split: json.splits option.splits
      if_splits bind_splits)

lemma bt_remove_insert: "bt_remove k (bt_insert k v m) = bt_remove k m"
  by (induction m) (auto simp: bt_remove_def)

lemma sealed_verifies:
  assumes "bt_ok m" "record_id E (JObj m) = Ok i"
  shows "verify_record_id E (JObj (bt_insert ''id'' (JStr i) m)) = Ok ()"
  using assms record_id_ignores_id [of "bt_insert ''id'' (JStr i) m" m E] bt_remove_insert [of "''id''" "JStr i" m]
  by (simp add: verify_record_id_Ok bt_get_insert)

text \<open>Two records under one id have the same canonical content, or the digest collided.\<close>

lemma same_id:
  assumes "verify_record_id E (JObj m) = Ok ()" "verify_record_id E (JObj m') = Ok ()"
    "bt_get m ''id'' = bt_get m' ''id''"
  shows "\<exists>c c'. canonical_json (JObj (bt_remove ''id'' m)) = Ok c \<and>
    canonical_json (JObj (bt_remove ''id'' m')) = Ok c' \<and>
    (c = c' \<or> c \<noteq> c' \<and> sha3_hex E c = sha3_hex E c')"
  using assms by (auto simp: verify_record_id_Ok record_id_def)

end
