(* ===== verification/Log.thy ===== *)
theory Log
  imports LogData Canonical
begin

text \<open>
  \<open>src/src/log.rs\<close>: validation, sealing with the two spill rules, parsing of
  stored lines and of whole logs, and the chain.  The clock is an argument of
  \<open>seal\<close> and the blob pool is passed through.  Main results: a sealed line
  verifies and is read back, inline or through its overflow blob; a crash in the
  middle of an append loses that line only; a valid line behind damage is
  refused; a verified chain has every prefix sum right.
\<close>

definition SPILL_THRESHOLD :: nat where
  "SPILL_THRESHOLD = 65536"

definition validate :: "log_line \<Rightarrow> unit result" where
  "validate l =
     (let a = ll_annotation l in
      if an_fuse a \<noteq> None \<and> ll_realized l \<noteq> [] then Err Invalid else
      (case an_provenance a of
         PAgent \<Rightarrow> Ok ()
       | PFuse \<Rightarrow> (case an_fuse a of
             None \<Rightarrow> Err Invalid
           | Some f \<Rightarrow> if fuse_name f = [] then Err Invalid
                      else if ops (ll_intent l) \<noteq> [] then Err Invalid else Ok ())
       | PAndon \<Rightarrow> if unwrap_or [] (an_reason a) = [] then Err Invalid
                   else if an_sig a = None then Err Invalid else Ok ()
       | PUnion \<Rightarrow> if an_origin a = None then Err Invalid else Ok ()))"

definition compute_id :: "'s env \<Rightarrow> log_line \<Rightarrow> string result" where
  "compute_id E l = record_id E (line_to_value l)"

definition spill_reads_if_needed :: "'s env \<Rightarrow> log_line \<Rightarrow> pool \<Rightarrow> (log_line \<times> pool) result" where
  "spill_reads_if_needed E l pool =
     rbind (canonical_json (line_to_value l)) (\<lambda>c.
     if length c + 1 \<le> SPILL_THRESHOLD then Ok (l, pool) else
     (case an_reads (ll_annotation l) of
        Some (JArr rs) \<Rightarrow>
          rbind (canonical_json (JArr rs)) (\<lambda>spilled.
          rbind (blob_put E spilled pool) (\<lambda>(h, pool).
            Ok (l\<lparr>ll_annotation := (ll_annotation l)\<lparr>an_reads := Some (JObj [(''reads_blob'', JStr h)])\<rparr>\<rparr>,
                pool)))
      | _ \<Rightarrow> Ok (l, pool)))"

definition seal :: "'s env \<Rightarrow> nat \<Rightarrow> log_line \<Rightarrow> pool \<Rightarrow> (bytes \<times> log_line \<times> pool) result" where
  "seal E now l pool =
     rbind (validate l) (\<lambda>_.
     let l = (if ll_committed_ms l = 0 then l\<lparr>ll_committed_ms := now mod 2 ^ 64\<rparr> else l) in
     rbind (spill_reads_if_needed E l pool) (\<lambda>(l, pool).
     rbind (compute_id E l) (\<lambda>i.
     let l = l\<lparr>ll_id := i\<rparr> in
     rbind (canonical_json (line_to_value l)) (\<lambda>bs.
     rbind (if length bs > SPILL_THRESHOLD then
              rbind (blob_put E bs pool) (\<lambda>(h, pool).
                rmap (\<lambda>bs. (bs, pool)) (canonical_json (JObj [(''line_blob'', JStr h)])))
            else Ok (bs, pool)) (\<lambda>(bs, pool).
     Ok (bs @ [LF], l, pool))))))"

subsection \<open>Stored lines\<close>

datatype stored_line = Line log_line | BlobRef string

definition line_blob_ref :: "json \<Rightarrow> string option" where
  "line_blob_ref v = (case v of
       JObj m \<Rightarrow>
         if length m \<noteq> 1 then None else
         Option.bind (bt_get m ''line_blob'') (\<lambda>x.
         Option.bind (as_str x) (\<lambda>h. if is_hex64 h then Some h else None))
     | _ \<Rightarrow> None)"

text \<open>The checks of a line's value, shared by the inline and the overflowed form.\<close>

definition line_of_record :: "'s env \<Rightarrow> json \<Rightarrow> log_line result" where
  "line_of_record E v =
     rbind (verify_record_id E v) (\<lambda>_.
     rbind (line_of_value v) (\<lambda>l.
     rbind (validate l) (\<lambda>_. Ok l)))"

definition stored_parse :: "'s env \<Rightarrow> string \<Rightarrow> stored_line result" where
  "stored_parse E t =
     rbind (ok_or Json (json_parse E t)) (\<lambda>v.
     case line_blob_ref v of
       Some h \<Rightarrow> Ok (BlobRef h)
     | None \<Rightarrow> rmap Line (line_of_record E v))"

fun stored_resolve :: "'s env \<Rightarrow> (string \<Rightarrow> bytes result) \<Rightarrow> stored_line \<Rightarrow> log_line result" where
  "stored_resolve E fetch (Line l) = Ok l"
| "stored_resolve E fetch (BlobRef h) =
     (case fetch h of
        Inl _ \<Rightarrow> Err Corrupt
      | Inr bs \<Rightarrow>
          if \<not> from_utf8 bs then Err Corrupt else
          (case json_parse E bs of
             None \<Rightarrow> Err Corrupt
           | Some v \<Rightarrow> line_of_record E v))"

definition line_parse :: "'s env \<Rightarrow> string \<Rightarrow> log_line result" where
  "line_parse E t =
     rbind (stored_parse E t) (\<lambda>s. case s of Line l \<Rightarrow> Ok l | BlobRef _ \<Rightarrow> Err Invalid)"

definition line_parse_with :: "'s env \<Rightarrow> (string \<Rightarrow> bytes result) \<Rightarrow> string \<Rightarrow> log_line result" where
  "line_parse_with E fetch t = rbind (stored_parse E t) (stored_resolve E fetch)"

subsection \<open>Whole logs\<close>

text \<open>
  The scanning loop both readers share, from the current offset on: the stored
  lines up to the first that is torn, and the bytes they take.
\<close>

function scan_log :: "'s env \<Rightarrow> bytes \<Rightarrow> stored_line list \<times> nat" where
  "scan_log E bs =
     (if bs = [] then ([], 0) else
      case position is_LF bs of
        None \<Rightarrow> ([], 0)
      | Some i \<Rightarrow>
          if \<not> from_utf8 (take i bs) then ([], 0) else
          (case stored_parse E (take i bs) of
             Inl _ \<Rightarrow> ([], 0)
           | Inr l \<Rightarrow> (let (ls, n) = scan_log E (drop (i + 1) bs) in (l # ls, i + 1 + n))))"
  by pat_completeness auto
termination
  by (relation "measure (\<lambda>(E, bs). length bs)") (auto simp: diff_less dest: position_SomeD)

declare scan_log.simps [simp del]

definition line_blob_refs :: "'s env \<Rightarrow> bytes \<Rightarrow> string bset" where
  "line_blob_refs E bs =
     fold (\<lambda>s refs. case s of BlobRef h \<Rightarrow> bs_insert h refs | Line _ \<Rightarrow> refs) (fst (scan_log E bs)) []"

record parsed_log =
  pl_lines :: "log_line list"
  pl_valid_prefix :: nat

definition valid_chunk :: "'s env \<Rightarrow> bytes \<Rightarrow> bool" where
  "valid_chunk E chunk \<longleftrightarrow> from_utf8 chunk \<and> is_ok (stored_parse E chunk)"

definition parse_log_lenient :: "'s env \<Rightarrow> (string \<Rightarrow> bytes result) \<Rightarrow> bytes \<Rightarrow> parsed_log result" where
  "parse_log_lenient E fetch bs =
     (let (stored, n) = scan_log E bs in
      if list_ex (valid_chunk E) (tl (split_on LF (drop n bs))) then Err Corrupt
      else rmap (\<lambda>ls. \<lparr>pl_lines = ls, pl_valid_prefix = n\<rparr>) (rmapM (stored_resolve E fetch) stored))"

definition parse_log_strict :: "'s env \<Rightarrow> (string \<Rightarrow> bytes result) \<Rightarrow> bytes \<Rightarrow> log_line list result" where
  "parse_log_strict E fetch bs =
     rbind (parse_log_lenient E fetch bs) (\<lambda>p.
       if pl_valid_prefix p \<noteq> length bs then Err Corrupt else Ok (pl_lines p))"

definition last_state_position :: "log_line list \<Rightarrow> string \<Rightarrow> nat option" where
  "last_state_position ls sum_hex = rposition (\<lambda>l. ll_sum_after l = sum_hex) ls"

subsection \<open>The chain\<close>

text \<open>One iteration, on the running sum and the previous id; then the loop.\<close>

definition chain_step :: "'s env \<Rightarrow> log_line \<Rightarrow> 's \<times> string \<Rightarrow> ('s \<times> string) result" where
  "chain_step E l st = (case st of (s, prev) \<Rightarrow>
     if ll_prev l \<noteq> prev then Err Corrupt else
     rbind (apply_realized_to_sum E s (ll_realized l)) (\<lambda>s.
     if ss_hexdigest E s \<noteq> ll_sum_after l then Err Corrupt else Ok (s, ll_id l)))"

definition verify_chain :: "'s env \<Rightarrow> 's \<Rightarrow> log_line list \<Rightarrow> 's result" where
  "verify_chain E anchor ls = rmap fst (rfold (chain_step E) ls (anchor, []))"

subsection \<open>Sealing\<close>

lemma utf8_line_blob: "utf8 ''line_blob''"
  by (rule ascii_utf8) (auto simp: byte_def)

text \<open>The JSON reader reads back the canonical text of a value.\<close>

definition json_reads :: "'s env \<Rightarrow> json \<Rightarrow> bool" where
  "json_reads E v \<longleftrightarrow> (\<forall>t. canonical_json v = Ok t \<longrightarrow> json_parse E t = Some v)"

lemma record_id_line: "record_id E (line_to_value (l\<lparr>ll_id := i\<rparr>)) = record_id E (line_to_value l)"
  by (simp add: line_to_value_def record_id_def bt_remove_def)

lemma compute_id_set [simp]: "compute_id E (l\<lparr>ll_id := i\<rparr>) = compute_id E l"
  by (simp add: compute_id_def record_id_line)

lemma verify_line:
  "verify_record_id E (line_to_value l) = Ok u \<longleftrightarrow> compute_id E l = Ok (ll_id l)"
  by (cases "record_id E (line_to_value l)")
    (auto simp: verify_record_id_def json_get_def line_to_value_def as_str_def compute_id_def)

lemma sealed_line_verifies:
  "compute_id E l = Ok i \<Longrightarrow> verify_record_id E (line_to_value (l\<lparr>ll_id := i\<rparr>)) = Ok ()"
  by (simp add: verify_line)

lemma validate_updates [simp]:
  "validate (l\<lparr>ll_id := i\<rparr>) = validate l"
  "validate (l\<lparr>ll_committed_ms := n\<rparr>) = validate l"
  "validate (l\<lparr>ll_annotation := (ll_annotation l)\<lparr>an_reads := r\<rparr>\<rparr>) = validate l"
  by (simp_all add: validate_def Let_def cong: option.case_cong provenance.case_cong)

lemma line_of_record_written:
  "ll_valid l \<Longrightarrow> compute_id E l = Ok (ll_id l) \<Longrightarrow> validate l = Ok () \<Longrightarrow>
   line_of_record E (line_to_value l) = Ok l"
  by (simp add: line_of_record_def verify_line [of E l "()"] line_roundtrip)

lemma line_of_record_Ok:
  "line_of_record E v = Ok l \<Longrightarrow> validate l = Ok () \<and> line_of_value v = Ok l \<and> verify_record_id E v = Ok ()"
  by (auto simp: line_of_record_def)

lemma line_blob_ref_line [simp]: "line_blob_ref (line_to_value l) = None"
  by (simp add: line_blob_ref_def line_to_value_def)

lemma line_blob_ref_ref: "is_hex64 h \<Longrightarrow> line_blob_ref (JObj [(''line_blob'', JStr h)]) = Some h"
  by (simp add: line_blob_ref_def as_str_def)

text \<open>What the reads spill does to a line.\<close>

definition reads_spilled :: "'s env \<Rightarrow> log_line \<Rightarrow> log_line \<Rightarrow> pool \<Rightarrow> pool \<Rightarrow> bool" where
  "reads_spilled E l l' pool pool' \<longleftrightarrow> l' = l \<and> pool' = pool \<or>
     (\<exists>rs c h. an_reads (ll_annotation l) = Some (JArr rs) \<and> canonical_json (JArr rs) = Ok c \<and>
        blob_put E c pool = Ok (h, pool') \<and>
        l' = l\<lparr>ll_annotation := (ll_annotation l)\<lparr>an_reads := Some (JObj [(''reads_blob'', JStr h)])\<rparr>\<rparr>)"

lemma spill_reads_Ok:
  "spill_reads_if_needed E l pool = Ok (l', pool') \<Longrightarrow> reads_spilled E l l' pool pool'"
  by (auto simp: spill_reads_if_needed_def reads_spilled_def split: if_splits option.splits json.splits)

lemma reads_spilled_keeps:
  assumes "reads_spilled E l l' pool pool'" "ll_valid l"
  shows "ll_valid l' \<and> validate l' = validate l \<and> ll_realized l' = ll_realized l \<and>
    ll_prev l' = ll_prev l \<and> ll_sum_after l' = ll_sum_after l \<and> ll_intent l' = ll_intent l"
  using assms by (auto simp: reads_spilled_def ll_valid_def an_valid_def)

text \<open>
  A sealed line: its identity is right, its requirements hold, and its stored
  bytes are its canonical text or the reference to the blob that holds it.
\<close>

definition sealed_as :: "'s env \<Rightarrow> log_line \<Rightarrow> bytes \<Rightarrow> pool \<Rightarrow> bool" where
  "sealed_as E l t pool \<longleftrightarrow> ll_valid l \<and> validate l = Ok () \<and> compute_id E l = Ok (ll_id l) \<and>
     (\<exists>c. canonical_json (line_to_value l) = Ok c \<and>
        (length c \<le> SPILL_THRESHOLD \<and> t = c \<or>
         length c > SPILL_THRESHOLD \<and> is_hex64 (sha3_hex E c) \<and>
         canonical_json (JObj [(''line_blob'', JStr (sha3_hex E c))]) = Ok t \<and>
         bt_has pool (sha3_hex E c)))"

lemma blob_put_has: "blob_put E c pool = Ok (h, pool') \<Longrightarrow> bt_ok pool \<Longrightarrow> h = sha3_hex E c \<and> is_hex64 h \<and> bt_has pool' h"
  by (auto simp: blob_put_def blob_write_Ok bt_has_def bt_get_insert)

lemma seal_Ok:
  assumes "seal E now l pool = Ok (bs, l', pool')" "ll_valid l" "pool_ok E pool"
  shows "\<exists>t. bs = t @ [LF] \<and> sealed_as E l' t pool' \<and> LF \<notin> set t \<and> pool_ok E pool' \<and>
    ll_realized l' = ll_realized l \<and> ll_prev l' = ll_prev l \<and> ll_sum_after l' = ll_sum_after l \<and>
    ll_intent l' = ll_intent l"
proof -
  let ?l = "if ll_committed_ms l = 0 then l\<lparr>ll_committed_ms := now mod 2 ^ 64\<rparr> else l"
  from assms(1) obtain l1 pool1 i c t where v: "validate l = Ok ()"
    and sp: "spill_reads_if_needed E ?l pool = Ok (l1, pool1)"
    and i: "compute_id E l1 = Ok i" and l': "l' = l1\<lparr>ll_id := i\<rparr>"
    and c: "canonical_json (line_to_value l') = Ok c"
    and put: "(if length c > SPILL_THRESHOLD then
              rbind (blob_put E c pool1) (\<lambda>(h, pool).
                rmap (\<lambda>bs. (bs, pool)) (canonical_json (JObj [(''line_blob'', JStr h)])))
            else Ok (c, pool1)) = Ok (t, pool')"
    and bs: "bs = t @ [LF]"
    by (auto simp: seal_def Let_def)
  have "ll_valid ?l" using assms(2) by (simp add: ll_valid_def)
  from reads_spilled_keeps [OF spill_reads_Ok [OF sp] this] v
  have l1: "ll_valid l1 \<and> validate l1 = Ok () \<and> ll_realized l1 = ll_realized l \<and>
    ll_prev l1 = ll_prev l \<and> ll_sum_after l1 = ll_sum_after l \<and> ll_intent l1 = ll_intent l"
    by (auto split: if_splits)
  have p1: "pool_ok E pool1"
    using spill_reads_Ok [OF sp] assms(3) pool_ok_write
    by (auto simp: reads_spilled_def blob_put_def)
  have "pool_ok E pool'" using put p1 pool_ok_write by (auto simp: blob_put_def split: if_splits)
  moreover have "sealed_as E l' t pool'"
    using l1 i c put blob_put_has [OF _ pool_ok_bt [OF p1]]
    by (auto simp: sealed_as_def l' ll_valid_def split: if_splits)
  moreover have "LF \<notin> set t"
    using put c by (auto dest: canonical_no_LF split: if_splits)
  ultimately show ?thesis using bs l1 by (simp add: l')
qed

text \<open>Reading a sealed line back.\<close>

lemma sealed_stored:
  assumes "sealed_as E l t pool" "pool_ok E pool" "json_reads E (line_to_value l)"
    "json_all utf8 (line_to_value l)"
    "\<And>c. canonical_json (line_to_value l) = Ok c \<Longrightarrow> SPILL_THRESHOLD < length c \<Longrightarrow>
       json_reads E (JObj [(''line_blob'', JStr (sha3_hex E c))]) \<and>
       (\<forall>c'. sha3_hex E c' = sha3_hex E c \<longrightarrow> c' = c)"
  shows "\<exists>x. from_utf8 t \<and> stored_parse E t = Ok x \<and> stored_resolve E (blob_get pool) x = Ok l"
proof -
  from assms(1) obtain c where c: "canonical_json (line_to_value l) = Ok c"
    and l: "ll_valid l" "validate l = Ok ()" "compute_id E l = Ok (ll_id l)"
    and t: "length c \<le> SPILL_THRESHOLD \<and> t = c \<or>
         length c > SPILL_THRESHOLD \<and> is_hex64 (sha3_hex E c) \<and>
         canonical_json (JObj [(''line_blob'', JStr (sha3_hex E c))]) = Ok t \<and>
         bt_has pool (sha3_hex E c)"
    by (auto simp: sealed_as_def)
  have u: "from_utf8 c" using canonical_utf8 [OF assms(4) c] by (simp add: from_utf8_iff)
  have p: "json_parse E c = Some (line_to_value l)" using assms(3) c by (simp add: json_reads_def)
  note r = line_of_record_written [OF l(1,3,2)]
  from t show ?thesis
  proof
    assume "length c \<le> SPILL_THRESHOLD \<and> t = c"
    with p r u show ?thesis by (simp add: stored_parse_def)
  next
    let ?v = "JObj [(''line_blob'', JStr (sha3_hex E c))]"
    assume b: "length c > SPILL_THRESHOLD \<and> is_hex64 (sha3_hex E c) \<and>
         canonical_json ?v = Ok t \<and> bt_has pool (sha3_hex E c)"
    with assms(5) [OF c] have j: "json_parse E t = Some ?v"
      and nc: "\<And>c'. sha3_hex E c' = sha3_hex E c \<Longrightarrow> c' = c" by (auto simp: json_reads_def)
    have "json_all utf8 ?v" using b by (simp add: ascii_hex64 utf8_line_blob)
    with b have "from_utf8 t" using canonical_utf8 [of ?v t] by (simp only: from_utf8_iff)
    moreover have "blob_get pool (sha3_hex E c) = Ok c"
      using b pool_ok_get [OF assms(2)] nc by (auto simp: blob_get_Ok bt_has_def)
    ultimately show ?thesis using b j p r u
      by (simp add: stored_parse_def line_blob_ref_ref)
  qed
qed

subsection \<open>Scanning\<close>

lemma position_piece: "LF \<notin> set t \<Longrightarrow> position is_LF (t @ LF # r) = Some (length t)"
  by (induction t) (auto simp: is_LF_def LF_def)

lemma scan_torn: "LF \<notin> set t \<Longrightarrow> scan_log E t = ([], 0)"
proof -
  assume "LF \<notin> set t"
  then have "position is_LF t = None" by (auto simp: position_None_iff is_LF_def LF_def)
  then show ?thesis by (simp add: scan_log.simps [of E t])
qed

lemma scan_piece:
  assumes "LF \<notin> set t" "from_utf8 t" "stored_parse E t = Ok x"
  shows "scan_log E (t @ LF # r) = (x # fst (scan_log E r), Suc (length t) + snd (scan_log E r))"
  using assms by (simp add: scan_log.simps [of E "t @ LF # r"] position_piece split_def Let_def)

lemma scan_bad:
  assumes "LF \<notin> set t" "\<not> valid_chunk E t"
  shows "scan_log E (t @ LF # r) = ([], 0)"
  using assms
  by (auto simp: scan_log.simps [of E "t @ LF # r"] position_piece valid_chunk_def is_ok_iff
      split: sum.splits)

definition unlines :: "string list \<Rightarrow> bytes" where
  "unlines ts = concat (map (\<lambda>t. t @ [LF]) ts)"

lemma unlines_simps [simp]:
  "unlines [] = []" "unlines (t # ts) = t @ LF # unlines ts"
  "unlines (ts @ us) = unlines ts @ unlines us"
  by (simp_all add: unlines_def)

text \<open>Stored texts: one line of UTF-8 each, and what each parses to.\<close>

definition stored_texts :: "'s env \<Rightarrow> string list \<Rightarrow> stored_line list \<Rightarrow> bool" where
  "stored_texts E ts ss \<longleftrightarrow>
     list_all2 (\<lambda>t s. LF \<notin> set t \<and> from_utf8 t \<and> stored_parse E t = Ok s) ts ss"

lemma scan_unlines:
  assumes "stored_texts E ts ss"
  shows "scan_log E (unlines ts @ r) =
    (ss @ fst (scan_log E r), length (unlines ts) + snd (scan_log E r))"
  using assms unfolding stored_texts_def
  by (induction rule: list_all2_induct) (simp_all add: scan_piece)

text \<open>A torn tail is dropped; what precedes it is read in full.\<close>

lemma lenient_torn_tail:
  assumes "stored_texts E ts ss" "rmapM (stored_resolve E fetch) ss = Ok ls" "LF \<notin> set torn"
  shows "parse_log_lenient E fetch (unlines ts @ torn) =
    Ok \<lparr>pl_lines = ls, pl_valid_prefix = length (unlines ts)\<rparr>"
  using assms by (simp add: parse_log_lenient_def scan_unlines scan_torn split_on_none)

lemma strict_whole:
  assumes "stored_texts E ts ss" "rmapM (stored_resolve E fetch) ss = Ok ls"
  shows "parse_log_strict E fetch (unlines ts) = Ok ls"
  using lenient_torn_tail [OF assms, of "[]"] by (simp add: parse_log_strict_def)

text \<open>Damage followed by a valid line is not a torn tail.\<close>

lemma lenient_mid_damage:
  assumes "stored_texts E ts ss" "LF \<notin> set bad" "\<not> valid_chunk E bad"
    and "list_ex (valid_chunk E) (split_on LF rest)"
  shows "parse_log_lenient E fetch (unlines ts @ bad @ LF # rest) = Err Corrupt"
  using assms by (simp add: parse_log_lenient_def scan_unlines scan_bad split_on_piece)

text \<open>The valid prefix is the whole of a log again: truncation is idempotent.\<close>

lemma scan_prefix:
  "scan_log E bs = (ss, n) \<Longrightarrow> n \<le> length bs \<and> scan_log E (take n bs) = (ss, n)"
proof (induction E bs arbitrary: ss n rule: scan_log.induct)
  case (1 E bs)
  show ?case
  proof (cases "position is_LF bs")
    case None
    with 1(2) show ?thesis
      by (cases "bs = []") (auto simp: scan_log.simps [of E bs] scan_log.simps [of E "[]"])
  next
    case (Some i)
    note pos = position_SomeD [OF Some]
    show ?thesis
    proof (cases "from_utf8 (take i bs) \<and> is_ok (stored_parse E (take i bs))")
      case False
      with 1(2) Some have "ss = [] \<and> n = 0"
        by (auto simp: scan_log.simps [of E bs] is_ok_iff split: if_splits sum.splits)
      then show ?thesis by (simp add: scan_log.simps [of E "[]"])
    next
      case True
      then obtain x where x: "stored_parse E (take i bs) = Ok x" by (auto simp: is_ok_iff)
      obtain ss' n' where r: "scan_log E (drop (i + 1) bs) = (ss', n')" by force
      have sn: "ss = x # ss'" "n = i + 1 + n'"
        using 1(2) True x r Some pos by (auto simp: scan_log.simps [of E bs] split: if_splits)
      have "bs \<noteq> []" using pos by auto
      with 1(1) [OF _ Some _ x r] True have
        ih: "n' \<le> length (drop (i + 1) bs)" "scan_log E (take n' (drop (i + 1) bs)) = (ss', n')"
        by blast+
      have "LF \<notin> set (take i bs)" using pos by (auto simp: in_set_conv_nth is_LF_def LF_def)
      moreover have "bs ! i = LF" using pos by (simp add: is_LF_def LF_def)
      then have "take n bs = take i bs @ LF # take n' (drop (i + 1) bs)"
        using pos take_add [of i "Suc n'" bs] Cons_nth_drop_Suc [of i bs, symmetric]
        unfolding sn(2) by simp
      ultimately show ?thesis
        using scan_piece [of "take i bs" E x "take n' (drop (i + 1) bs)"] True x ih pos sn by auto
    qed
  qed
qed

lemma lenient_truncates:
  assumes "parse_log_lenient E fetch bs = Ok p"
  shows "pl_valid_prefix p \<le> length bs \<and>
    parse_log_strict E fetch (take (pl_valid_prefix p) bs) = Ok (pl_lines p)"
proof -
  obtain ss n where s: "scan_log E bs = (ss, n)" by force
  with assms have "p = \<lparr>pl_lines = pl_lines p, pl_valid_prefix = n\<rparr>"
    "rmapM (stored_resolve E fetch) ss = Ok (pl_lines p)"
    by (auto simp: parse_log_lenient_def split: if_splits)
  moreover note scan_prefix [OF s]
  ultimately show ?thesis
    by (cases p) (auto simp: parse_log_strict_def parse_log_lenient_def)
qed

subsection \<open>Chains\<close>

lemma verify_chain_snoc:
  "verify_chain E a (ls @ [l]) = Ok s' \<longleftrightarrow>
     (\<exists>s. verify_chain E a ls = Ok s \<and> ll_prev l = (if ls = [] then [] else ll_id (last ls)) \<and>
        apply_realized_to_sum E s (ll_realized l) = Ok s' \<and> ss_hexdigest E s' = ll_sum_after l)"
proof -
  have "rfold (chain_step E) ls (a, []) = Ok (s, p) \<Longrightarrow> p = (if ls = [] then [] else ll_id (last ls))"
    for s p
  proof (cases ls rule: rev_cases)
    case (snoc ls' l')
    assume "rfold (chain_step E) ls (a, []) = Ok (s, p)"
    with snoc show ?thesis by (auto simp: rfold_append chain_step_def split: if_splits)
  qed simp
  then show ?thesis
    by (auto simp: verify_chain_def rfold_append chain_step_def split: if_splits) force+
qed

lemma verify_chain_last:
  assumes "verify_chain E a ls = Ok s"
  shows "rfold (chain_step E) ls (a, []) = Ok (s, if ls = [] then [] else ll_id (last ls))"
  using assms
  by (cases ls rule: rev_cases) (auto simp: verify_chain_def rfold_append chain_step_def split: if_splits)

lemma verify_chain_Nil [simp]: "verify_chain E a [] = Ok a"
  by (simp add: verify_chain_def)

lemma verify_chain_prefix:
  assumes "verify_chain E a ls = Ok s"
  shows "\<exists>s'. verify_chain E a (take n ls) = Ok s'"
  using assms
proof (induction ls arbitrary: s rule: rev_induct)
  case (snoc l ls)
  show ?case
  proof (cases "n \<le> length ls")
    case True
    with snoc show ?thesis by (auto simp: verify_chain_snoc)
  qed (use snoc in auto)
qed simp

lemma verify_chain_line:
  assumes "verify_chain E a ls = Ok s" "i < length ls"
  shows "ll_prev (ls ! i) = (if i = 0 then [] else ll_id (ls ! (i - 1))) \<and>
    (\<exists>s'. verify_chain E a (take (Suc i) ls) = Ok s' \<and> ss_hexdigest E s' = ll_sum_after (ls ! i))"
proof -
  obtain s' where s': "verify_chain E a (take (Suc i) ls) = Ok s'"
    using verify_chain_prefix [OF assms(1)] by blast
  then have "verify_chain E a (take i ls @ [ls ! i]) = Ok s'"
    using assms(2) by (simp add: take_Suc_conv_app_nth)
  with s' assms(2) show ?thesis
    by (auto simp: verify_chain_snoc last_conv_nth)
qed

text \<open>A chain over states: the sums a verified chain claims are the states' sums.\<close>

lemma apply_realized_to_sum_append:
  "apply_realized_to_sum E s (es @ fs) =
     rbind (apply_realized_to_sum E s es) (\<lambda>s. apply_realized_to_sum E s fs)"
  by (simp add: apply_realized_to_sum_def rfold_append)

lemma verify_chain_replay:
  "verify_chain E a ls = Ok s \<Longrightarrow> apply_realized_to_sum E a (concat (map ll_realized ls)) = Ok s"
proof (induction ls arbitrary: s rule: rev_induct)
  case (snoc l ls)
  then show ?case by (auto simp: verify_chain_snoc apply_realized_to_sum_append)
qed (simp add: apply_realized_to_sum_def)

context setsum
begin

lemma verify_chain_state:
  assumes "verify_chain E (m_sum E m) ls = Ok s" "m_ok m"
    "apply_realized_to_manifest m (concat (map ll_realized ls)) = Ok m'"
  shows "s = m_sum E m'"
  using verify_chain_replay [OF assms(1)] realized_sum [OF assms(2,3)] by simp

end

end
