(* ===== verification/Instance.thy ===== *)
theory Instance
  imports Log "HOL-Library.Word"
begin

text \<open>
  One concrete environment, used by the witnesses: it shows that the laws of
  theory \<open>Env\<close> can hold together.  The sum is the group of 256-bit words, an
  item adds the number its bytes spell, the rendering is 64 hex digits; the
  digest pads or cuts to 32 bytes; the JSON reader knows nothing and zstd stores
  its input behind a marker.  None of this is the code of the crates.
\<close>

definition unhex :: "char \<Rightarrow> nat" where
  "unhex c = (if byte c < 58 then byte c - 48 else byte c - 87)"

fun digits16 :: "nat \<Rightarrow> nat \<Rightarrow> string" where
  "digits16 0 n = []"
| "digits16 (Suc k) n = hex_digit (n mod 16) # digits16 k (n div 16)"

fun value16 :: "string \<Rightarrow> nat" where
  "value16 [] = 0"
| "value16 (c # cs) = unhex c + 16 * value16 cs"

definition item_value :: "bytes \<Rightarrow> nat" where
  "item_value x = foldl (\<lambda>a c. 256 * a + Suc (byte c)) 0 x"

definition E0 :: "256 word env" where
  "E0 = \<lparr>digest = \<lambda>x. take 32 (x @ replicate 32 (CHR 0x00)),
     ss_zero = 0,
     ss_insert = \<lambda>s x. s + of_nat (item_value x),
     ss_remove = \<lambda>s x. s - of_nat (item_value x),
     ss_add = (+), ss_sub = (-),
     ss_hexdigest = \<lambda>s. digits16 64 (unat s),
     ss_from_hexdigest = \<lambda>t. Some (of_nat (value16 t)),
     json_parse = \<lambda>_. None,
     zstd_encode = \<lambda>_ x. Some (CHR ''z'' # x),
     zstd_take = \<lambda>p n. Some (take n (tl p)),
     zstd_all = \<lambda>p. Some (tl p),
     zstd_dict = \<lambda>_ p. Some (tl p)\<rparr>"

lemma E0_simps [simp]:
  "ss_zero E0 = 0" "ss_insert E0 s x = s + of_nat (item_value x)"
  "ss_remove E0 s x = s - of_nat (item_value x)" "ss_add E0 = (+)" "ss_sub E0 = (-)"
  "ss_hexdigest E0 s = digits16 64 (unat s)"
  "ss_from_hexdigest E0 t = Some (of_nat (value16 t))"
  "digest E0 x = take 32 (x @ replicate 32 (CHR 0x00))"
  by (simp_all add: E0_def)

lemma unhex_digit: "d < 16 \<Longrightarrow> unhex (hex_digit d) = d"
  by (auto simp: unhex_def hex_digit_def byte_def)

lemma value16_digits: "value16 (digits16 k n) = n mod 16 ^ k"
proof (induction k arbitrary: n)
  case (Suc k)
  have "unhex (hex_digit (n mod 16)) = n mod 16" by (rule unhex_digit) simp
  then show ?case using Suc mod_mult2_eq [of n 16 "16 ^ k"] by simp
qed simp

lemma digits16_hex: "length (digits16 k n) = k" "list_all is_hex_char (digits16 k n)"
  by (induction k arbitrary: n) (simp_all add: is_hex_char_hex_digit)

lemma digits16_0: "digits16 k 0 = replicate k (CHR ''0'')"
proof (induction k)
  case (Suc k)
  have "hex_digit 0 = CHR ''0''" by code_simp
  with Suc show ?case by simp
qed simp

lemma sum_laws_E0: "sum_laws E0"
proof -
  have "of_nat (value16 (digits16 64 (unat s))) = (s :: 256 word)" for s
  proof -
    have "unat s < 2 ^ 256" using unsigned_less [of s, where ?'a = nat] by simp
    then have "unat s mod 16 ^ 64 = unat s" by simp
    then show ?thesis by (simp only: value16_digits of_nat_unat ucast_id)
  qed
  then show ?thesis
    unfolding sum_laws_def E0_simps is_hex64_def
    by (auto simp: digits16_hex digits16_0 simp del: digits16.simps)
qed

lemma digest_law_E0: "digest_law E0"
  by (auto simp: digest_law_def min_def)

lemma zstd_law_E0: "zstd_law E0"
  by (simp add: zstd_law_def E0_def)

interpretation E0: setsum E0
  by unfold_locales (rule sum_laws_E0)

interpretation E0: hashing E0
  by unfold_locales (rule digest_law_E0)

end
