(* ===== verification/Fork.thy ===== *)
theory Fork
  imports Ident
begin

text \<open>
  \<open>src/src/fork.rs\<close>: the three-line fork file and fork names.  Main results: a
  well-formed fork file parses back from its bytes, so two of them have
  different bytes; a parsed file has two 64-hex sums and the three lines it was
  read from; an accepted fork name is a single path component.
\<close>

definition FORK_HEADER :: string where
  "FORK_HEADER = ''tally-fork v0''"

record fork_file =
  ff_anchor :: string
  ff_manifest :: string

definition fork_at :: "'s env \<Rightarrow> 's \<Rightarrow> fork_file" where
  "fork_at E anchor = (let h = ss_hexdigest E anchor in \<lparr>ff_anchor = h, ff_manifest = h\<rparr>)"

definition fork_empty :: "'s env \<Rightarrow> fork_file" where
  "fork_empty E = fork_at E (ss_zero E)"

definition fork_to_bytes :: "fork_file \<Rightarrow> bytes" where
  "fork_to_bytes f = FORK_HEADER @ [LF] @ ''anchor '' @ ff_anchor f @ [LF] @
     ''manifest '' @ ff_manifest f @ [LF]"

text \<open>\<open>lines.next()\<close>, and the field the next line carries after a prefix.\<close>

fun next_field :: "string \<Rightarrow> string list \<Rightarrow> (string \<times> string list) result" where
  "next_field prefix [] = Err Corrupt"
| "next_field prefix (l # ls) = rmap (\<lambda>v. (v, ls)) (ok_or Corrupt (strip_prefix prefix l))"

definition fork_parse :: "bytes \<Rightarrow> fork_file result" where
  "fork_parse bs =
     (if \<not> from_utf8 bs then Err Corrupt else
      let ls = lines bs in
      if (case ls of [] \<Rightarrow> [] | l # _ \<Rightarrow> l) \<noteq> FORK_HEADER then Err Corrupt else
      rbind (next_field ''anchor '' (tl ls)) (\<lambda>(anchor, ls).
      rbind (next_field ''manifest '' ls) (\<lambda>(manifest, ls).
      if \<not> is_hex64 anchor \<or> \<not> is_hex64 manifest then Err Corrupt
      else Ok \<lparr>ff_anchor = anchor, ff_manifest = manifest\<rparr>)))"

definition validate_fork_name :: "string \<Rightarrow> unit result" where
  "validate_fork_name name =
     (if name = [] \<or> name = ''.'' \<or> name = ''..'' \<or> CHR ''/'' \<in> set name \<or>
         NUL \<in> set name \<or> LF \<in> set name
      then Err Invalid else Ok ())"

subsection \<open>The format\<close>

definition fork_valid :: "fork_file \<Rightarrow> bool" where
  "fork_valid f \<longleftrightarrow> is_hex64 (ff_anchor f) \<and> is_hex64 (ff_manifest f)"

lemma fork_parse_bytes:
  assumes "fork_valid f" shows "fork_parse (fork_to_bytes f) = Ok f"
proof -
  have h: "is_hex64 (ff_anchor f)" "is_hex64 (ff_manifest f)" using assms by (auto simp: fork_valid_def)
  let ?ls = "[FORK_HEADER, ''anchor '' @ ff_anchor f, ''manifest '' @ ff_manifest f]"
  have b: "fork_to_bytes f = concat (map (\<lambda>l. l @ [CHR 0x0A]) ?ls)"
    by (simp add: fork_to_bytes_def LF_def)
  have n: "CHR 0x0A \<notin> set l \<and> CHR 0x0D \<notin> set l" if "l \<in> set ?ls" for l
    using that h [THEN is_hex64_not_in(2)] h [THEN is_hex64_not_in(3)]
    by (auto simp: FORK_HEADER_def LF_def)
  have "utf8 (fork_to_bytes f)"
  proof -
    have "utf8 FORK_HEADER" "utf8 [LF]" "utf8 ''anchor ''" "utf8 ''manifest ''"
      by (rule ascii_utf8; auto simp: byte_def FORK_HEADER_def LF_def)+
    with h [THEN ascii_hex64] show ?thesis
      unfolding fork_to_bytes_def by (intro utf8_append) simp_all
  qed
  with lines_unlines [of ?ls, OF n] show ?thesis
    by (simp add: fork_parse_def from_utf8_iff b [symmetric] h Let_def rmap_def
        del: concat.simps append_Cons append.simps list.map)
qed

interpretation fork: codec fork_to_bytes fork_parse fork_valid
  by unfold_locales (rule fork_parse_bytes)

lemma next_field_Ok: "next_field p ls = Ok (v, ls') \<longleftrightarrow> ls = (p @ v) # ls'"
  by (cases ls) (auto simp: strip_prefix_Some_iff)

lemma fork_parse_Ok:
  assumes "fork_parse bs = Ok f"
  shows "fork_valid f \<and> (\<exists>rest. lines bs =
    FORK_HEADER # (''anchor '' @ ff_anchor f) # (''manifest '' @ ff_manifest f) # rest)"
proof -
  obtain l ls where l: "lines bs = l # ls"
    using assms by (cases "lines bs") (auto simp: fork_parse_def FORK_HEADER_def split: if_splits)
  from assms l show ?thesis
    by (auto simp: fork_parse_def next_field_Ok fork_valid_def split: if_splits)
qed

lemma fork_at_valid: "sum_laws E \<Longrightarrow> fork_valid (fork_at E s)"
  using setsum.hexdigest_hex [OF setsum.intro] by (simp add: fork_valid_def fork_at_def Let_def)

lemma validate_fork_name_Ok:
  "validate_fork_name n = Ok u \<longleftrightarrow>
     n \<notin> {[], ''.'', ''..''} \<and> set n \<inter> {CHR ''/'', NUL, LF} = {}"
  by (auto simp: validate_fork_name_def)

text \<open>An accepted name is one component of a path, and not a dot component.\<close>

lemma fork_name_component:
  "validate_fork_name n = Ok () \<Longrightarrow>
   split_on (CHR ''/'') (''forks/'' @ n) = [''forks'', n] \<and> n \<noteq> ''.'' \<and> n \<noteq> ''..''"
  using split_on_piece [of "CHR ''/''" "''forks''" n] split_on_none [of "CHR ''/''" n]
  by (simp add: validate_fork_name_Ok)

end
