(* ===== verification/Examples.thy ===== *)
theory Examples
  imports Instance Log Fork
begin

text \<open>
  Concrete values the witnesses use: a state with one file and the pool that
  holds its content, an intent on it, and a sealed log line under an environment
  whose JSON reader knows that line.
\<close>

subsection \<open>A state, a pool and an intent\<close>

definition h0 :: string where "h0 = sha3_hex E0 ''hi there''"

definition r0 :: element_record where
  "r0 = \<lparr>er_mode = ''100644'', er_path = ''/a'', er_blob = h0\<rparr>"

definition m0 :: manifest where "m0 = [(''/a'', r0)]"

definition p0 :: pool where "p0 = [(h0, ''hi there'', True)]"

definition i0 :: intent where
  "i0 = \<lparr>ops = [Edit ''/a'' ''hi'' ''ho'', Chmod ''/a'' ''100644'' ''100755'']\<rparr>"

lemma h0_hex [simp]: "is_hex64 h0"
  by (simp add: h0_def)

lemma path_a [simp]: "validate_path ''/a'' = Ok ()"
  by code_simp

lemma modes [simp]: "validate_mode ''100644'' = Ok ()" "validate_mode ''100755'' = Ok ()"
  by code_simp+

lemma r0_valid [simp]: "er_valid r0"
  by (simp add: r0_def er_valid_iff MODES_def)

lemma m0_ok [simp]: "m_ok m0"
  by (simp add: m0_def m_ok_def bt_ok_def) (simp add: r0_def)

lemma p0_ok [simp]: "pool_ok E0 p0"
  by (simp add: p0_def pool_ok_def bt_ok_def h0_def)

lemma replace_hi [simp]: "replace_unique ''hi there'' ''hi'' ''ho'' = Ok ''ho there''"
  by code_simp

lemmas running = apply_intent_def empty_realization_def m_get_def read_blob_def op_precondition_def
  blob_get_def path_for_def Let_def er_new_def m_remove_def m_insert_def m_contains_def bt_has_def
  bt_remove_def realize_def m0_def p0_def r0_def

lemma i0_applies: "\<exists>m' rz. apply_intent E0 i0 m0 p0 = Ok (m', rz)"
proof -
  have "is_ok (apply_intent E0 i0 m0 p0)" by (simp add: i0_def running)
  then show ?thesis by (auto simp: is_ok_iff)
qed

lemma utf8_a [simp]: "utf8 ''/a''"
  by (rule ascii_utf8) (auto simp: byte_def)

lemma m0_utf8 [simp]: "m_utf8 m0"
  by (simp add: m_utf8_def m0_def records_def bt_values_def) (simp add: r0_def)

subsection \<open>A log line\<close>

definition z64 :: string where "z64 = replicate 64 (CHR ''0'')"

definition a0 :: annotation where
  "a0 = \<lparr>an_author = ''me'', an_provenance = PAgent, an_reason = None, an_sig = None,
     an_session = None, an_prose = None, an_reads = None, an_origin = None, an_import = None,
     an_harness = None, an_fuse = None\<rparr>"

definition l0 :: log_line where
  "l0 = \<lparr>ll_id = [], ll_prev = [], ll_intent = \<lparr>ops = []\<rparr>, ll_realized = [], ll_sum_after = z64,
     ll_committed_ms = 7, ll_annotation = a0\<rparr>"

text \<open>The line sealed under a digest that is constant.\<close>

definition l1 :: log_line where "l1 = l0\<lparr>ll_id := z64\<rparr>"

definition E1 :: "256 word env" where
  "E1 = E0\<lparr>digest := \<lambda>_. replicate 32 (CHR 0x00), json_parse := \<lambda>_. Some (line_to_value l1)\<rparr>"

lemma E1_hash: "sha3_hex E1 x = z64"
proof -
  have "sha3_hex E1 x = hex (replicate 32 (CHR 0x00))" by (simp add: sha3_hex_def E1_def)
  also have "\<dots> = z64" by code_simp
  finally show ?thesis .
qed

lemma digest_law_E1: "digest_law E1"
  by (simp add: digest_law_def E1_def)

lemma json_l1 [simp]: "json_parse E1 t = Some (line_to_value l1)"
  by (simp add: E1_def)

lemma canonical_l0: "\<exists>c. canonical_json (line_to_value l0) = Ok c \<and> length c < 1000"
  and canonical_l1: "\<exists>c. canonical_json (line_to_value l1) = Ok c \<and> length c < 1000"
proof -
  have "case canonical_json (line_to_value l0) of Inl _ \<Rightarrow> False | Inr c \<Rightarrow> length c < 1000"
    by code_simp
  then show "\<exists>c. canonical_json (line_to_value l0) = Ok c \<and> length c < 1000"
    by (auto split: sum.splits)
  have "case canonical_json (line_to_value l1) of Inl _ \<Rightarrow> False | Inr c \<Rightarrow> length c < 1000"
    by code_simp
  then show "\<exists>c. canonical_json (line_to_value l1) = Ok c \<and> length c < 1000"
    by (auto split: sum.splits)
qed

lemma compute_id_l0: "compute_id E1 l0 = Ok z64"
proof -
  have "is_ok (canonical_json (JObj (bt_remove ''id'' (case line_to_value l0 of JObj m \<Rightarrow> m | _ \<Rightarrow> []))))"
    by code_simp
  then obtain c where c: "canonical_json (JObj (bt_remove ''id''
      (case line_to_value l0 of JObj m \<Rightarrow> m | _ \<Rightarrow> []))) = Ok c"
    by (auto simp: is_ok_iff)
  obtain m where m: "line_to_value l0 = JObj m" by (simp add: line_to_value_def)
  from c show ?thesis by (simp add: compute_id_def record_id_def m E1_hash)
qed

lemma l1_ok [simp]: "validate l1 = Ok ()" "ll_valid l1" "ll_valid l0" "validate l0 = Ok ()"
  by (simp_all add: l1_def validate_def l0_def a0_def ll_valid_def an_valid_def)

lemma compute_id_l1: "compute_id E1 l1 = Ok (ll_id l1)"
  using compute_id_l0 by (simp add: l1_def)

lemma stored_l1 [simp]: "stored_parse E1 t = Ok (Line l1)"
  by (simp add: stored_parse_def line_of_record_written compute_id_l1)

lemma seal_l0: "\<exists>c. canonical_json (line_to_value l1) = Ok c \<and> length c < 1000 \<and>
  seal E1 0 l0 [] = Ok (c @ [LF], l1, [])"
proof -
  obtain c where c: "canonical_json (line_to_value l1) = Ok c" "length c < 1000"
    using canonical_l1 by blast
  obtain d where d: "canonical_json (line_to_value l0) = Ok d" "length d < 1000"
    using canonical_l0 by blast
  have "ll_committed_ms l0 \<noteq> 0" by (simp add: l0_def)
  moreover have "spill_reads_if_needed E1 l0 [] = Ok (l0, [])"
    using d by (simp add: spill_reads_if_needed_def SPILL_THRESHOLD_def)
  ultimately have "seal E1 0 l0 [] = Ok (c @ [LF], l1, [])"
    using c compute_id_l0 by (simp add: seal_def Let_def SPILL_THRESHOLD_def l1_def)
  with c show ?thesis by blast
qed

lemma l1_texts: "LF \<notin> set ''x''" "LF \<notin> set ''y''" "from_utf8 ''x''" "from_utf8 ''y''"
  by code_simp+

lemma l1_utf8: "json_all utf8 (line_to_value l1)"
proof -
  have "utf8 s" if "list_all printable s" for s
    by (rule text_closed_ascii [OF text_closed_utf8 that])
  then show ?thesis
    by (simp add: line_to_value_def annotation_to_value_def l1_def l0_def a0_def z64_def
        intent_to_value_def str_or_null_def provenance_name_def printable_def byte_def list_all_iff)
qed

subsection \<open>A chain\<close>

text \<open>The line an intent on \<open>m0\<close> commits: it removes the one record.\<close>

definition d0 :: "realized_entry list" where
  "d0 = [\<lparr>re_remove = Some (er_to_line r0), re_add = None\<rparr>]"

definition l2 :: log_line where
  "l2 = l0\<lparr>ll_realized := d0, ll_sum_after := ss_hexdigest E0 0\<rparr>"

lemma d0_applies: "apply_realized_to_manifest m0 d0 = Ok []"
proof -
  have "removed (hd d0) = Ok (Some r0)" "added (hd d0) = Ok None"
    by (simp_all add: d0_def removed_def added_def)
  then show ?thesis
    by (simp add: d0_def apply_realized_to_manifest_def entry_to_manifest_def remove_side_def
        insert_side_def) (simp add: m0_def m_remove_def m_contains_def bt_remove_def r0_def)
qed

lemma l2_chain: "verify_chain E0 (m_sum E0 m0) [l2] = Ok 0"
proof -
  have "m_sum E0 [] = 0" by (simp add: m_sum_def records_def bt_values_def sum_of_records_def)
  then have "apply_realized_to_sum E0 (m_sum E0 m0) d0 = Ok 0"
    using E0.realized_sum [OF m0_ok d0_applies] by simp
  then show ?thesis
    by (simp add: verify_chain_def chain_step_def l2_def l0_def del: E0_simps)
qed

end
