(* ===== verification/Diff.thy ===== *)
theory Diff
  imports Patch
begin

text \<open>
  The state-level half of \<open>src/src/diff.rs\<close>: path changes between two states, exact
  renames, and the synthesis of an intent from changes.  Main results: the
  changes are the differing paths in order and replay to the new state; a
  selection of them replays to the state that takes the selected paths from the
  new side; renames are a partition of the changes into equal-blob pairs and the
  rest; the widening of a synthesized edit ends, never slices inside a character
  and turns the old content into the new; and the synthesized intent applies and
  reaches the same state as the changes.
\<close>

subsection \<open>Path changes\<close>

record path_change =
  pc_path :: string
  pc_before :: "element_record option"
  pc_after :: "element_record option"

definition code :: "path_change \<Rightarrow> char" where
  "code c = (case (pc_before c, pc_after c) of
       (None, Some _) \<Rightarrow> CHR ''A''
     | (Some _, None) \<Rightarrow> CHR ''D''
     | _ \<Rightarrow> CHR ''M'')"

definition diff_manifests :: "manifest \<Rightarrow> manifest \<Rightarrow> path_change list" where
  "diff_manifests before after =
     map (\<lambda>p. \<lparr>pc_path = p, pc_before = m_get before p, pc_after = m_get after p\<rparr>)
       (filter (\<lambda>p. m_get after p \<noteq> m_get before p)
         (remdups_adj (sort (map er_path (records before) @ map er_path (records after)))))"

text \<open>The realized entry a commit or a repoint records for a change.\<close>

definition change_entry :: "path_change \<Rightarrow> realized_entry" where
  "change_entry c = \<lparr>re_remove = map_option er_to_line (pc_before c), re_add = map_option er_to_line (pc_after c)\<rparr>"

definition pending_sum :: "'s env \<Rightarrow> 's \<Rightarrow> 's \<Rightarrow> 's" where
  "pending_sum E before after = ss_sub E after before"

subsection \<open>Renames\<close>

record rename =
  rn_from :: element_record
  rn_to :: element_record

record rename_scan =
  rs_adds :: "path_change list"
  rs_renames :: "rename list"
  rs_consumed_adds :: "string set"
  rs_consumed_dels :: "string set"

definition rename_step :: "path_change \<Rightarrow> rename_scan \<Rightarrow> rename_scan" where
  "rename_step change s = (case (pc_before change, pc_after change) of
       (Some from, None) \<Rightarrow>
         (case position (\<lambda>a. map_option er_blob (pc_after a) = Some (er_blob from) \<and>
                            pc_path a \<notin> rs_consumed_adds s) (rs_adds s) of
            None \<Rightarrow> s
          | Some pos \<Rightarrow> let add = rs_adds s ! pos in
              \<lparr>rs_adds = take pos (rs_adds s) @ drop (pos + 1) (rs_adds s),
               rs_renames = rs_renames s @ [\<lparr>rn_from = from, rn_to = the (pc_after add)\<rparr>],
               rs_consumed_adds = insert (pc_path add) (rs_consumed_adds s),
               rs_consumed_dels = insert (pc_path change) (rs_consumed_dels s)\<rparr>)
     | _ \<Rightarrow> s)"

definition detect_renames :: "path_change list \<Rightarrow> rename list \<times> path_change list" where
  "detect_renames changes =
     (let s = fold rename_step changes
        \<lparr>rs_adds = filter (\<lambda>c. pc_before c = None \<and> pc_after c \<noteq> None) changes,
         rs_renames = [], rs_consumed_adds = {}, rs_consumed_dels = {}\<rparr>
      in (rs_renames s, filter (\<lambda>c. pc_path c \<notin> rs_consumed_adds s \<and> pc_path c \<notin> rs_consumed_dels s) changes))"

subsection \<open>Synthesizing a span edit\<close>

text \<open>\<open>&s[i..j]\<close> on a \<open>str\<close>: a panic outside the string or inside a character.\<close>

definition str_slice :: "string \<Rightarrow> nat \<Rightarrow> nat \<Rightarrow> string result" where
  "str_slice s i j =
     (if i \<le> j \<and> j \<le> length s \<and> is_char_boundary s i \<and> is_char_boundary s j then Ok (Span.slice i j s) else Err Panic)"

definition common_prefix :: "bytes \<Rightarrow> bytes \<Rightarrow> nat" where
  "common_prefix a b = length (takeWhile (\<lambda>(x, y). x = y) (zip a b))"

function floor_boundary :: "string \<Rightarrow> nat \<Rightarrow> nat" where
  "floor_boundary s p = (if is_char_boundary s p then p else floor_boundary s (p - 1))"
  by pat_completeness auto
termination
  by (relation "measure snd") (auto simp: is_char_boundary_def)

fun floor_suffix :: "string \<Rightarrow> nat \<Rightarrow> nat" where
  "floor_suffix str 0 = 0"
| "floor_suffix str (Suc s) =
     (if is_char_boundary str (length str - Suc s) then Suc s else floor_suffix str s)"

declare floor_boundary.simps [simp del]

lemma floor_boundary_le: "floor_boundary s p \<le> p"
proof (induction s p rule: floor_boundary.induct)
  case (1 s p)
  show ?case
  proof (cases "is_char_boundary s p")
    case False
    with 1 show ?thesis by (subst floor_boundary.simps) simp
  qed (subst floor_boundary.simps, simp)
qed

lemma floor_suffix_le: "floor_suffix str s \<le> s"
  by (induction s) auto

text \<open>
  The widening loop.  With both ends of the text reached and no unique span the
  source asserts in debug builds (and spins in release builds): \<open>Panic\<close>.
\<close>

function widen_edit :: "string \<Rightarrow> string \<Rightarrow> nat \<Rightarrow> nat \<Rightarrow> (string \<times> string) result" where
  "widen_edit old new p s =
     rbind (str_slice old p (length old - s)) (\<lambda>old_span.
     if old_span \<noteq> [] \<and> count_occurrences old old_span = 1 then
       rmap (Pair old_span) (str_slice new p (length new - s))
     else if p = 0 \<and> s = 0 then Err Panic
     else widen_edit old new (if p > 0 then floor_boundary old (p - 1) else p)
            (if s > 0 then floor_suffix old (s - 1) else s))"
  by pat_completeness auto
termination
proof (relation "measure (\<lambda>(old, new, p, s). p + s)", goal_cases)
  case (2 old new p s x)
  then show ?case
    using floor_boundary_le [of old "p - 1"] floor_suffix_le [of old "s - 1"] by simp linarith
qed simp

declare widen_edit.simps [simp del]

definition synthesize_edit :: "bytes \<Rightarrow> bytes \<Rightarrow> (string \<times> string) option result" where
  "synthesize_edit old new =
     (if \<not> (from_utf8 old \<and> from_utf8 new) \<or> old = [] then Ok None else
      let p = floor_boundary old (common_prefix old new);
          max_s = min (length old) (length new) - p;
          s = min (common_prefix (rev (drop p old)) (rev (drop p new))) max_s
      in rmap Some (widen_edit old new p (floor_suffix old s)))"

subsection \<open>Synthesizing an intent\<close>

definition create_of :: "element_record \<Rightarrow> op" where
  "create_of r = Create (er_path r) (er_mode r) (Some (er_blob r)) None"

definition delete_of :: "element_record \<Rightarrow> op" where
  "delete_of r = Delete (er_path r) (er_blob r)"

definition edit_between ::
  "(string \<Rightarrow> bytes result) \<Rightarrow> element_record \<Rightarrow> element_record \<Rightarrow> (string \<times> string) option result" where
  "edit_between read before after =
     (if er_mode before = er_mode after \<and> er_mode before \<noteq> ''120000'' then
        rbind (read (er_blob before)) (\<lambda>old. rbind (read (er_blob after)) (\<lambda>new. synthesize_edit old new))
      else Ok None)"

definition synthesize_change :: "(string \<Rightarrow> bytes result) \<Rightarrow> path_change \<Rightarrow> op list result" where
  "synthesize_change read change = (case (pc_before change, pc_after change) of
       (None, Some after) \<Rightarrow> Ok [create_of after]
     | (Some before, None) \<Rightarrow> Ok [delete_of before]
     | (Some before, Some after) \<Rightarrow>
         if er_blob before = er_blob after then Ok [Chmod (pc_path change) (er_mode before) (er_mode after)] else
         rmap (\<lambda>edit. case edit of
             Some (old_str, new_str) \<Rightarrow> [Edit (pc_path change) old_str new_str]
           | None \<Rightarrow> [delete_of before, create_of after]) (edit_between read before after)
     | (None, None) \<Rightarrow> Err Invalid)"

definition synthesize_intent :: "path_change list \<Rightarrow> (string \<Rightarrow> bytes result) \<Rightarrow> intent result" where
  "synthesize_intent changes read =
     rmap (\<lambda>os. \<lparr>ops = concat os\<rparr>) (rmapM (synthesize_change read) changes)"

subsection \<open>The changes of two states\<close>

lemma diff_path: "c \<in> set (diff_manifests m m') \<Longrightarrow>
    pc_before c = m_get m (pc_path c) \<and> pc_after c = m_get m' (pc_path c) \<and> pc_before c \<noteq> pc_after c"
  by (auto simp: diff_manifests_def)

lemma get_in_paths: "m_ok m \<Longrightarrow> m_get m p = Some r \<Longrightarrow> p \<in> er_path ` set (records m)"
  using m_ok_get [of m p r] by (force simp: m_get_def set_records)

lemma diff_complete:
  assumes "m_ok m" "m_ok m'" "m_get m p \<noteq> m_get m' p"
  shows "\<lparr>pc_path = p, pc_before = m_get m p, pc_after = m_get m' p\<rparr> \<in> set (diff_manifests m m')"
proof -
  have "p \<in> er_path ` set (records m) \<union> er_path ` set (records m')"
    using assms get_in_paths by (cases "m_get m p"; cases "m_get m' p") auto
  with assms(3) show ?thesis by (auto simp: diff_manifests_def)
qed

lemma sorted_distinct_remdups_adj: "sorted (xs :: 'a :: linorder list) \<Longrightarrow> distinct (remdups_adj xs)"
proof (induction xs rule: remdups_adj.induct)
  case (3 x y xs)
  then show ?case by (cases "x = y") (auto dest: antisym)
qed auto

lemma diff_sorted: "sorted_wrt (<) (map pc_path (diff_manifests m m'))"
  unfolding strict_sorted_iff
  by (auto simp: diff_manifests_def comp_def sorted_distinct_remdups_adj intro!: sorted_wrt_filter distinct_filter)

lemma diff_distinct: "distinct (map pc_path (diff_manifests m m'))"
  using diff_sorted strict_sorted_iff by blast

lemma diff_Nil_iff: "m_ok m \<Longrightarrow> m_ok m' \<Longrightarrow> diff_manifests m m' = [] \<longleftrightarrow> m = m'"
proof
  assume ok: "m_ok m" "m_ok m'" and e: "diff_manifests m m' = []"
  show "m = m'"
  proof (rule btree.extensional)
    fix p show "bt_get m p = bt_get m' p"
      using diff_complete [OF ok, of p] e by (auto simp: m_get_def)
  qed (use ok in \<open>simp_all add: m_ok_bt\<close>)
qed (simp add: diff_manifests_def)

subsection \<open>Replaying changes\<close>

text \<open>A change that may be applied to a state: it names the record it replaces.\<close>

definition applicable :: "manifest \<Rightarrow> path_change \<Rightarrow> bool" where
  "applicable m c \<longleftrightarrow> pc_before c = m_get m (pc_path c) \<and>
     (\<forall>r. pc_after c = Some r \<longrightarrow> er_valid r \<and> er_path r = pc_path c)"

text \<open>The state after a change, and after a list of them.\<close>

definition changed :: "path_change \<Rightarrow> manifest \<Rightarrow> manifest" where
  "changed c m = (case pc_after c of
       None \<Rightarrow> bt_remove (pc_path c) m
     | Some r \<Rightarrow> bt_insert (pc_path c) r m)"

lemma changed_ok: "m_ok m \<Longrightarrow> applicable m c \<Longrightarrow> m_ok (changed c m)"
  by (auto simp: changed_def applicable_def m_ok_bt_remove split: option.splits)
    (metis m_ok_bt_insert)

lemma changed_get: "m_ok m \<Longrightarrow> m_get (changed c m) p = (if p = pc_path c then pc_after c else m_get m p)"
  by (auto simp: changed_def m_get_def bt_get_insert bt_get_remove m_ok_bt split: option.splits)

lemma applicable_changed:
  "m_ok m \<Longrightarrow> applicable m d \<Longrightarrow> pc_path d \<noteq> pc_path c \<Longrightarrow> applicable (changed c m) d"
  by (auto simp: applicable_def changed_get)

lemma parse_side_valid: "side_valid s \<Longrightarrow> parse_side (map_option er_to_line s) = Ok s"
  by (cases s) (simp_all add: side_valid_def)

lemma change_sides:
  assumes "m_ok m" "applicable m c"
  shows "removed (change_entry c) = Ok (pc_before c)" "added (change_entry c) = Ok (pc_after c)"
proof -
  have "side_valid (pc_before c)" "side_valid (pc_after c)"
    using assms m_ok_get [OF assms(1), of "pc_path c"]
    by (auto simp: side_valid_def applicable_def m_get_def pred_option_def)
  then show "removed (change_entry c) = Ok (pc_before c)" "added (change_entry c) = Ok (pc_after c)"
    by (simp_all add: removed_def added_def change_entry_def parse_side_valid)
qed

lemma entry_of_change:
  assumes "m_ok m" "applicable m c" shows "entry_to_manifest (change_entry c) m = Ok (changed c m)"
proof -
  have b: "m_get m (pc_path c) = pc_before c" using assms(2) by (simp add: applicable_def)
  have p: "er_path r = pc_path c" if "pc_before c = Some r" for r
    using m_ok_get [OF assms(1), of "pc_path c" r] b that by (simp add: m_get_def)
  have q: "er_path r = pc_path c" if "pc_after c = Some r" for r
    using assms(2) that by (simp add: applicable_def)
  show ?thesis
    using b p q m_ok_bt [OF assms(1)]
    by (cases "pc_before c"; cases "pc_after c")
      (auto simp: entry_to_manifest_def change_sides [OF assms] remove_side_def insert_side_def
        m_remove_def m_contains_def m_insert_def bt_has_def m_get_def bt_get_remove changed_def
        btree.ins_del btree.del_absent)
qed

lemma replay_changes:
  assumes "m_ok m" "\<forall>c \<in> set cs. applicable m c" "distinct (map pc_path cs)"
  shows "apply_realized_to_manifest m (map change_entry cs) = Ok (fold changed cs m) \<and>
    m_ok (fold changed cs m) \<and>
    (\<forall>p. m_get (fold changed cs m) p = (case find (\<lambda>c. pc_path c = p) cs of
       None \<Rightarrow> m_get m p | Some c \<Rightarrow> pc_after c))"
  using assms
proof (induction cs arbitrary: m)
  case (Cons c cs)
  have a: "applicable m c" using Cons.prems(2) by simp
  note ok = changed_ok [OF Cons.prems(1) a]
  have "\<forall>d \<in> set cs. applicable (changed c m) d"
    using Cons.prems applicable_changed [OF Cons.prems(1)] by (auto simp: image_iff)
  note ih = Cons.IH [OF ok this]
  have "find (\<lambda>d. pc_path d = pc_path c) cs = None"
    using Cons.prems(3) by (simp add: find_None_iff) (metis imageI)
  with ih Cons.prems entry_of_change [OF Cons.prems(1) a] show ?case
    by (auto simp: apply_realized_Cons changed_get split: option.splits)
qed simp

text \<open>A selection of the changes of two states takes the selected paths from the new one.\<close>

lemma diff_applicable:
  "m_ok m \<Longrightarrow> m_ok m' \<Longrightarrow> c \<in> set (diff_manifests m m') \<Longrightarrow> applicable m c"
  using diff_path [of c m m'] m_ok_get [of m' "pc_path c"] by (auto simp: applicable_def m_get_def)

lemma find_SomeD: "find P xs = Some x \<Longrightarrow> x \<in> set xs \<and> P x"
  by (induction xs) (auto split: if_splits)

lemma find_diff:
  assumes "m_ok m" "m_ok m'"
  shows "find (\<lambda>c. pc_path c = p) (filter (\<lambda>c. P (pc_path c)) (diff_manifests m m')) =
    (if P p \<and> m_get m p \<noteq> m_get m' p
     then Some \<lparr>pc_path = p, pc_before = m_get m p, pc_after = m_get m' p\<rparr> else None)"
    (is "?f = _")
proof (cases ?f)
  case None
  then have "\<not> (P p \<and> m_get m p \<noteq> m_get m' p)"
    using diff_complete [OF assms, of p] unfolding find_None_iff
    by (auto dest!: spec [of _ "\<lparr>pc_path = p, pc_before = m_get m p, pc_after = m_get m' p\<rparr>"])
  with None show ?thesis by simp
next
  case (Some c)
  then have "c \<in> set (diff_manifests m m')" "P p" "pc_path c = p"
    using find_SomeD [OF Some] by auto
  with Some diff_path [of c m m'] show ?thesis by (cases c) auto
qed

lemma replay_selected:
  assumes "m_ok m" "m_ok m'"
  shows "\<exists>m''. apply_realized_to_manifest m (map change_entry (filter (\<lambda>c. P (pc_path c)) (diff_manifests m m'))) =
      Ok m'' \<and> m_ok m'' \<and> (\<forall>p. m_get m'' p = (if P p then m_get m' p else m_get m p))"
proof -
  let ?cs = "filter (\<lambda>c. P (pc_path c)) (diff_manifests m m')"
  have "\<forall>c \<in> set ?cs. applicable m c" using diff_applicable [OF assms] by auto
  moreover have "distinct (map pc_path ?cs)"
    using diff_distinct [of m m'] by (simp add: distinct_map_filter)
  ultimately show ?thesis
    using replay_changes [OF assms(1), of ?cs] find_diff [OF assms]
    by (intro exI [of _ "fold changed ?cs m"]) simp
qed

lemma replay_diff:
  assumes "m_ok m" "m_ok m'"
  shows "apply_realized_to_manifest m (map change_entry (diff_manifests m m')) = Ok m'"
proof -
  from replay_selected [OF assms, of "\<lambda>_. True"] obtain m'' where
    "apply_realized_to_manifest m (map change_entry (diff_manifests m m')) = Ok m''"
    "m_ok m''" "\<forall>p. m_get m'' p = m_get m' p" by auto
  moreover then have "m'' = m'"
    using assms(2) by (intro btree.extensional) (simp_all add: m_ok_bt m_get_def)
  ultimately show ?thesis by simp
qed

subsection \<open>The synthesized edit\<close>

lemma floor_boundary: "is_char_boundary s (floor_boundary s p)"
proof (induction s p rule: floor_boundary.induct)
  case (1 s p)
  then show ?case by (subst floor_boundary.simps) simp
qed

lemma floor_suffix: "is_char_boundary str (length str - floor_suffix str s)"
  by (induction s) auto

lemma common_prefix_take: "n \<le> common_prefix a b \<Longrightarrow> take n a = take n b \<and> n \<le> length a \<and> n \<le> length b"
proof (induction a arbitrary: b n)
  case (Cons x a)
  then show ?case by (cases b; cases n) (auto simp: common_prefix_def split: if_splits)
qed (simp add: common_prefix_def)

text \<open>What the widening keeps: outside the span the two texts are the same bytes.\<close>

definition span_around :: "bytes \<Rightarrow> bytes \<Rightarrow> nat \<Rightarrow> nat \<Rightarrow> bool" where
  "span_around old new p s \<longleftrightarrow> take p old = take p new \<and>
     drop (length old - s) old = drop (length new - s) new \<and> p + s \<le> length old \<and> p + s \<le> length new"

lemma span_around_shrink:
  assumes "span_around old new p s" "p' \<le> p" "s' \<le> s" shows "span_around old new p' s'"
proof -
  have "drop (length xs - s') xs = drop (s - s') (drop (length xs - s) xs)" if "s \<le> length xs" for xs :: bytes
    using that assms(3) by simp
  moreover have "take p' xs = take p' (take p xs)" for xs :: bytes
    using assms(2) by simp
  ultimately show ?thesis using assms unfolding span_around_def
    by (metis add_leD1 add_leD2 add_le_mono le_trans)
qed

lemma span_around_boundaries:
  assumes "utf8 old" "utf8 new" "span_around old new p s"
    "is_char_boundary old p" "is_char_boundary old (length old - s)"
  shows "is_char_boundary new p" "is_char_boundary new (length new - s)"
proof -
  have "utf8 (take p new)"
    using utf8_split_boundary [OF assms(1,4)] assms(3) by (simp add: span_around_def)
  from boundary_of_utf8_prefix [of "take p new" "drop p new"] this assms(2,3)
  show "is_char_boundary new p" by (simp add: span_around_def)
  have t: "utf8 (drop (length new - s) new)"
    using utf8_split_boundary [OF assms(1,5)] assms(3) by (simp add: span_around_def)
  show "is_char_boundary new (length new - s)"
  proof (cases "length new - s < length new")
    case True
    then have "drop (length new - s) new = new ! (length new - s) # drop (Suc (length new - s)) new"
      by (simp add: Cons_nth_drop_Suc)
    with t True show ?thesis by (simp add: is_char_boundary_def utf8_start_not_cont)
  next
    case False
    then have "length new - s = length new" by simp
    then show ?thesis by simp
  qed
qed

lemma widen_edit_Ok:
  assumes "utf8 old" "utf8 new" "old \<noteq> []" "span_around old new p s"
    "is_char_boundary old p" "is_char_boundary old (length old - s)"
  shows "\<exists>a b. widen_edit old new p s = Ok (a, b) \<and> replace_unique old a b = Ok new"
  using assms
proof (induction old new p s rule: widen_edit.induct)
  case (1 old new p s)
  let ?a = "Span.slice p (length old - s) old" and ?b = "Span.slice p (length new - s) new"
  have le: "p \<le> length old - s" "p \<le> length new - s" using 1(5) by (auto simp: span_around_def)
  have a: "str_slice old p (length old - s) = Ok ?a"
    using le 1(6,7) by (simp add: str_slice_def)
  have b: "str_slice new p (length new - s) = Ok ?b"
    using le span_around_boundaries [OF 1(2,3,5,6,7)] by (simp add: str_slice_def)
  show ?case
  proof (cases "?a \<noteq> [] \<and> count_occurrences old ?a = 1")
    case True
    have "replace_unique old ?a ?b = Ok (take p old @ ?b @ drop (length old - s) old)"
      using True le by (intro replace_unique_slice) simp_all
    also have "\<dots> = Ok new"
      using 1(5) slice_split [OF le(2)] by (simp add: span_around_def)
    finally show ?thesis using True a b by (simp add: widen_edit.simps [of old new p s])
  next
    case False
    have n: "\<not> (p = 0 \<and> s = 0)" using False count_self [OF 1(4)] 1(4) by (intro notI) (simp add: Span.slice_def)
    let ?p = "if p > 0 then floor_boundary old (p - 1) else p"
    let ?s = "if s > 0 then floor_suffix old (s - 1) else s"
    have "?p \<le> p" "?s \<le> s"
      using floor_boundary_le [of old "p - 1"] floor_suffix_le [of old "s - 1"] by auto
    note sp = span_around_shrink [OF 1(5) this]
    have bd: "is_char_boundary old ?p" "is_char_boundary old (length old - ?s)"
      using 1(6,7) floor_boundary floor_suffix by simp_all
    have "widen_edit old new p s = widen_edit old new ?p ?s"
      by (subst widen_edit.simps) (simp only: a rbind.simps False n if_False)
    with 1(1) [OF a False n 1(2-4) sp bd] show ?thesis by simp
  qed
qed

lemma synthesize_edit_Ok:
  assumes "utf8 old" "utf8 new" "old \<noteq> []"
  shows "\<exists>a b. synthesize_edit old new = Ok (Some (a, b)) \<and> replace_unique old a b = Ok new"
proof -
  define p where "p = floor_boundary old (common_prefix old new)"
  define r where "r = common_prefix (rev (drop p old)) (rev (drop p new))"
  define s where "s = floor_suffix old (min r (min (length old) (length new) - p))"
  have p: "take p old = take p new" "p \<le> length old" "p \<le> length new"
    using common_prefix_take [of p old new] floor_boundary_le by (simp_all add: p_def)
  have sr: "s \<le> r"
    using floor_suffix_le [of old "min r (min (length old) (length new) - p)"] by (simp add: s_def)
  have s: "take s (rev (drop p old)) = take s (rev (drop p new))" "p + s \<le> length old" "p + s \<le> length new"
    using common_prefix_take [OF sr [unfolded r_def]] p by auto
  from s(1) have "rev (drop (length (drop p old) - s) (drop p old)) =
      rev (drop (length (drop p new) - s) (drop p new))"
    by (simp only: take_rev)
  then have "drop (length old - s) old = drop (length new - s) new" using s(2,3) by simp
  with p s have "span_around old new p s" by (simp add: span_around_def)
  moreover have "is_char_boundary old p" "is_char_boundary old (length old - s)"
    by (simp_all add: p_def s_def floor_boundary floor_suffix)
  ultimately obtain a b where "widen_edit old new p s = Ok (a, b)" "replace_unique old a b = Ok new"
    using widen_edit_Ok [OF assms] by blast
  then show ?thesis using assms
    by (simp add: synthesize_edit_def from_utf8_iff Let_def p_def [symmetric] r_def [symmetric] s_def [symmetric])
qed

lemma synthesize_edit_total:
  "\<exists>e. synthesize_edit old new = Ok e \<and> (\<forall>a b. e = Some (a, b) \<longrightarrow> replace_unique old a b = Ok new)"
  using synthesize_edit_Ok [of old new]
  by (cases "from_utf8 old \<and> from_utf8 new \<and> old \<noteq> []") (auto simp: synthesize_edit_def from_utf8_iff)

subsection \<open>The synthesized intent\<close>

text \<open>
  The blobs a change needs: the new content to create or edit, and the old one to
  edit, are in the pool.
\<close>

definition blobs_pooled :: "pool \<Rightarrow> path_change \<Rightarrow> bool" where
  "blobs_pooled pool c \<longleftrightarrow> (\<forall>r. pc_before c = Some r \<or> pc_after c = Some r \<longrightarrow> bt_has pool (er_blob r))"

text \<open>What an application has produced is in the pool already, under the same name.\<close>

definition echoes :: "pool \<Rightarrow> (string \<times> bytes) list \<Rightarrow> bool" where
  "echoes pool bs \<longleftrightarrow> (\<forall>(h, c) \<in> set bs. blob_get pool h = Ok c)"

lemma read_echo: "echoes pool bs \<Longrightarrow> blob_get pool h = Ok c \<Longrightarrow> read_blob pool bs h = Ok c"
  by (auto simp: read_blob_def echoes_def split: option.splits dest!: find_SomeD)

lemma pool_reads: "pool_ok E pool \<Longrightarrow> bt_has pool h \<Longrightarrow> \<exists>c. blob_get pool h = Ok c \<and> sha3_hex E c = h"
  by (auto simp: bt_has_def blob_get_Ok dest: pool_ok_get)

text \<open>Operations that take a state to another, whatever came before.\<close>

definition ops_reach :: "'s env \<Rightarrow> pool \<Rightarrow> op list \<Rightarrow> manifest \<Rightarrow> manifest \<Rightarrow> bool" where
  "ops_reach E pool os m m' \<longleftrightarrow> (\<forall>rz. echoes pool (new_blobs rz) \<longrightarrow>
     (\<exists>rz'. rfold (apply_op E pool) os (m, rz) = Ok (m', rz') \<and> echoes pool (new_blobs rz')))"

lemma ops_reach_append:
  "ops_reach E pool os m m1 \<Longrightarrow> ops_reach E pool os' m1 m' \<Longrightarrow> ops_reach E pool (os @ os') m m'"
  unfolding ops_reach_def by (metis rbind.simps(2) rfold_append)

lemma ops_reach_Nil [simp]: "ops_reach E pool [] m m"
  by (simp add: ops_reach_def)

text \<open>A record with given fields is the one the constructor makes.\<close>

lemma er_new_of_valid:
  "er_valid r \<Longrightarrow> er_mode r = m \<Longrightarrow> er_path r = p \<Longrightarrow> er_blob r = b \<Longrightarrow> er_new m p b = Ok r"
  by (auto simp: er_valid_def)

lemma er_valid_checks:
  "er_valid r \<Longrightarrow> validate_path (er_path r) = Ok () \<and> validate_mode (er_mode r) = Ok ()"
  by (simp add: er_valid_iff validate_mode_Ok)

lemma reach_create:
  assumes "er_valid r" "m_get m (er_path r) = None" "bt_has pool (er_blob r)"
  shows "ops_reach E pool [create_of r] m (bt_insert (er_path r) r m)"
proof -
  have "create_content E pool rz (Some (er_blob r)) None = Ok (er_blob r, [])" for rz :: realization
    using assms(1,3) by (simp add: create_content_def blob_has_def path_for_def er_valid_iff)
  with assms er_valid_checks [OF assms(1)] er_new_of_valid [OF assms(1)] show ?thesis
    by (simp add: ops_reach_def create_of_def m_insert_def bt_has_def m_get_def)
qed

lemma reach_delete:
  assumes "er_valid r" "m_get m (er_path r) = Some r"
  shows "ops_reach E pool [delete_of r] m (bt_remove (er_path r) m)"
  using assms
  by (auto simp: ops_reach_def delete_of_def er_valid_iff m_get_def m_remove_def m_contains_def)

lemma reach_chmod:
  assumes "er_valid r" "er_valid r'" "m_get m p = Some r" "er_path r = p" "er_path r' = p"
    "er_blob r = er_blob r'" "bt_ok m"
  shows "ops_reach E pool [Chmod p (er_mode r) (er_mode r')] m (bt_insert p r' m)"
  using assms er_valid_checks [OF assms(2)] er_new_of_valid [OF assms(2) refl assms(5) refl]
  by (simp add: ops_reach_def m_get_def m_remove_def m_contains_def m_insert_def bt_has_def bt_get_remove
      btree.ins_del)

lemma reach_edit:
  assumes "er_valid r" "er_valid r'" "m_get m p = Some r" "er_path r = p" "er_path r' = p"
    "er_mode r = er_mode r'" "blob_get pool (er_blob r) = Ok old" "blob_get pool (er_blob r') = Ok new"
    "sha3_hex E new = er_blob r'" "replace_unique old a b = Ok new" "bt_ok m"
  shows "ops_reach E pool [Edit p a b] m (bt_insert p r' m)"
  unfolding ops_reach_def
proof (intro allI impI)
  fix rz :: realization assume e: "echoes pool (new_blobs rz)"
  have "er_new (er_mode r) p (sha3_hex E new) = Ok r'"
    using assms(2,5,6,9) by (simp add: er_valid_def)
  moreover have "m_remove r m = Ok (bt_remove p m)"
    using assms(3,4) by (simp add: m_remove_def m_contains_def m_get_def)
  moreover have "m_insert r' (bt_remove p m) = Ok (bt_insert p r' m)"
    using assms(5,11) by (simp add: m_insert_def bt_has_def bt_get_remove btree.ins_del)
  moreover have "validate_path p = Ok ()" using assms(2,5) by (simp add: er_valid_iff)
  ultimately show "\<exists>rz'. rfold (apply_op E pool) [Edit p a b] (m, rz) = Ok (bt_insert p r' m, rz') \<and>
      echoes pool (new_blobs rz')"
    using e assms(3,8,9,10) read_echo [OF e assms(7)]
    by (auto simp: op_precondition_def Let_def echoes_def)
qed

lemma synthesized_change_reaches:
  assumes "pool_ok E pool" "m_ok m" "applicable m c" "blobs_pooled pool c"
    "pc_before c \<noteq> None \<or> pc_after c \<noteq> None"
  shows "\<exists>os. synthesize_change (blob_get pool) c = Ok os \<and> ops_reach E pool os m (changed c m)"
proof (cases "pc_before c")
  case None
  with assms(5) obtain r where r: "pc_after c = Some r" by blast
  with assms None reach_create [of r m pool E] show ?thesis
    by (simp add: synthesize_change_def applicable_def changed_def blobs_pooled_def)
next
  case (Some r)
  with assms(2,3) have r: "m_get m (pc_path c) = Some r" "er_path r = pc_path c" "er_valid r"
    using m_ok_get [of m "pc_path c" r] by (auto simp: applicable_def m_get_def)
  note ok = m_ok_bt [OF assms(2)]
  show ?thesis
  proof (cases "pc_after c")
    case None
    with Some r reach_delete [of r m E pool] show ?thesis
      by (simp add: synthesize_change_def changed_def)
  next
    case a: (Some r')
    with assms(3) have r': "er_path r' = pc_path c" "er_valid r'" by (simp_all add: applicable_def)
    have ch: "changed c m = bt_insert (pc_path c) r' m" by (simp add: changed_def a)
    show ?thesis
    proof (cases "er_blob r = er_blob r'")
      case True
      with reach_chmod [OF r(3) r'(2) r(1,2) r'(1) True ok] a Some show ?thesis
        by (simp add: synthesize_change_def ch)
    next
      case ne: False
      from assms(4) Some a obtain old new where
        o: "blob_get pool (er_blob r) = Ok old" and
        n: "blob_get pool (er_blob r') = Ok new" "sha3_hex E new = er_blob r'"
        using pool_reads [OF assms(1)] unfolding blobs_pooled_def by metis
      obtain e where "synthesize_edit old new = Ok e" "\<forall>a b. e = Some (a, b) \<longrightarrow> replace_unique old a b = Ok new"
        using synthesize_edit_total by blast
      then have "\<exists>e. edit_between (blob_get pool) r r' = Ok e \<and>
        (\<forall>a b. e = Some (a, b) \<longrightarrow> er_mode r = er_mode r' \<and> replace_unique old a b = Ok new)"
        by (simp add: edit_between_def o n)
      then obtain e where e: "edit_between (blob_get pool) r r' = Ok e"
        "\<forall>a b. e = Some (a, b) \<longrightarrow> er_mode r = er_mode r' \<and> replace_unique old a b = Ok new" by blast
      show ?thesis
      proof (cases e)
        case None
        have g: "m_get (bt_remove (pc_path c) m) (er_path r') = None"
          using r' by (simp add: m_get_def bt_get_remove)
        have p: "bt_has pool (er_blob r')" using assms(4) a by (simp add: blobs_pooled_def)
        have "ops_reach E pool ([delete_of r] @ [create_of r']) m (bt_insert (pc_path c) r' m)"
          using reach_delete [OF r(3), of m E pool] reach_create [OF r'(2) g p, of E] r r' ok
          by (intro ops_reach_append [of E pool _ m "bt_remove (pc_path c) m"]) (simp_all add: btree.ins_del)
        with None e Some a ne show ?thesis by (simp add: synthesize_change_def ch)
      next
        case (Some ab)
        obtain x y where ab: "ab = (x, y)" by force
        with e Some reach_edit [OF r(3) r'(2) r(1,2) r'(1) _ o n _ ok, of x y]
        show ?thesis using \<open>pc_before c = Some r\<close> a ne by (simp add: synthesize_change_def ch)
      qed
    qed
  qed
qed

lemma synthesized_changes_reach:
  assumes "pool_ok E pool" "m_ok m" "\<forall>c \<in> set cs. applicable m c \<and> blobs_pooled pool c \<and>
      (pc_before c \<noteq> None \<or> pc_after c \<noteq> None)" "distinct (map pc_path cs)"
  shows "\<exists>os. rmapM (synthesize_change (blob_get pool)) cs = Ok os \<and>
    ops_reach E pool (concat os) m (fold changed cs m)"
  using assms(2-4)
proof (induction cs arbitrary: m)
  case (Cons c cs)
  from Cons.prems have c: "applicable m c" "blobs_pooled pool c" "pc_before c \<noteq> None \<or> pc_after c \<noteq> None"
    by simp_all
  from synthesized_change_reaches [OF assms(1) Cons.prems(1) c] obtain os where
    os: "synthesize_change (blob_get pool) c = Ok os" "ops_reach E pool os m (changed c m)" by blast
  have "\<forall>d \<in> set cs. applicable (changed c m) d \<and> blobs_pooled pool d \<and> (pc_before d \<noteq> None \<or> pc_after d \<noteq> None)"
    using Cons.prems applicable_changed [OF Cons.prems(1)] by (auto simp: image_iff)
  from Cons.IH [OF changed_ok [OF Cons.prems(1) c(1)] this] Cons.prems(3) obtain os' where
    "rmapM (synthesize_change (blob_get pool)) cs = Ok os'"
    "ops_reach E pool (concat os') (changed c m) (fold changed cs (changed c m))" by auto
  with os ops_reach_append show ?case by fastforce
qed simp

lemma synthesized_intent_applies:
  assumes "pool_ok E pool" "m_ok m" "m_ok m'"
    "\<forall>r \<in> set (records m) \<union> set (records m'). bt_has pool (er_blob r)"
  shows "\<exists>i rz. synthesize_intent (diff_manifests m m') (blob_get pool) = Ok i \<and>
    apply_intent E i m pool = Ok (m', rz)"
proof -
  let ?cs = "diff_manifests m m'"
  have "blobs_pooled pool c" if c: "c \<in> set ?cs" for c
  proof -
    have "r \<in> set (records m) \<union> set (records m')" if "pc_before c = Some r \<or> pc_after c = Some r" for r
      using that diff_path [OF c] m_ok_get [OF assms(2)] m_ok_get [OF assms(3)] assms(2,3)
      by (auto simp: set_records m_get_def)
    with assms(4) show ?thesis by (auto simp: blobs_pooled_def)
  qed
  moreover have "pc_before c \<noteq> None \<or> pc_after c \<noteq> None" if "c \<in> set ?cs" for c
    using diff_path [OF that] by auto
  ultimately have *: "\<forall>c \<in> set ?cs. applicable m c \<and> blobs_pooled pool c \<and> (pc_before c \<noteq> None \<or> pc_after c \<noteq> None)"
    using diff_applicable [OF assms(2,3)] by blast
  from synthesized_changes_reach [OF assms(1,2) this diff_distinct] obtain os where
    os: "rmapM (synthesize_change (blob_get pool)) ?cs = Ok os"
    "ops_reach E pool (concat os) m (fold changed ?cs m)" by blast
  have "fold changed ?cs m = m'"
    using replay_changes [OF assms(2) _ diff_distinct, of m m'] replay_diff [OF assms(2,3)] * by simp
  moreover have "echoes pool (new_blobs empty_realization)"
    by (simp add: echoes_def empty_realization_def)
  ultimately show ?thesis
    using os by (auto simp: synthesize_intent_def apply_intent_def ops_reach_def)
qed

subsection \<open>Renames partition the changes\<close>

text \<open>
  The scan after some of the changes: the adds left and those paired, the deletes
  paired, and for each rename its two changes.
\<close>

definition same_blob :: "path_change \<Rightarrow> path_change \<Rightarrow> bool" where
  "same_blob d a \<longleftrightarrow> map_option er_blob (pc_after a) = map_option er_blob (pc_before d)"

definition rename_of :: "path_change \<times> path_change \<Rightarrow> rename" where
  "rename_of p = \<lparr>rn_from = the (pc_before (fst p)), rn_to = the (pc_after (snd p))\<rparr>"

definition is_add :: "path_change \<Rightarrow> bool" where "is_add c \<longleftrightarrow> pc_before c = None \<and> pc_after c \<noteq> None"
definition is_del :: "path_change \<Rightarrow> bool" where "is_del c \<longleftrightarrow> pc_before c \<noteq> None \<and> pc_after c = None"

definition rename_inv ::
  "path_change list \<Rightarrow> path_change list \<Rightarrow> (path_change \<times> path_change) list \<Rightarrow> rename_scan \<Rightarrow> bool" where
  "rename_inv cs seen pairs s \<longleftrightarrow>
     rs_renames s = map rename_of pairs \<and>
     (\<forall>(d, a) \<in> set pairs. d \<in> set seen \<and> a \<in> set cs \<and> is_del d \<and> is_add a \<and> same_blob d a) \<and>
     distinct (map fst pairs) \<and> distinct (map snd pairs) \<and> distinct (rs_adds s) \<and>
     rs_consumed_dels s = pc_path ` fst ` set pairs \<and> rs_consumed_adds s = pc_path ` snd ` set pairs \<and>
     set (rs_adds s) = {a \<in> set cs. is_add a} - snd ` set pairs \<and>
     (\<forall>d \<in> set seen - fst ` set pairs. is_del d \<longrightarrow> (\<forall>a \<in> set (rs_adds s). \<not> same_blob d a))"

lemma not_del_add: "is_del c \<Longrightarrow> \<not> is_add c"
  by (simp add: is_del_def is_add_def)

lemma set_remove_nth: "distinct xs \<Longrightarrow> i < length xs \<Longrightarrow>
    set (take i xs @ drop (i + 1) xs) = set xs - {xs ! i} \<and> distinct (take i xs @ drop (i + 1) xs)"
proof -
  assume d: "distinct xs" and i: "i < length xs"
  have x: "xs = take i xs @ xs ! i # drop (i + 1) xs" using i by (simp add: id_take_nth_drop)
  have "distinct (take i xs @ xs ! i # drop (i + 1) xs)" using d x by simp
  moreover have "set xs = set (take i xs @ xs ! i # drop (i + 1) xs)" using x by simp
  ultimately show ?thesis by auto
qed

lemma rename_step_inv:
  assumes inv: "rename_inv cs seen pairs s" and c: "c \<in> set cs" "c \<notin> set seen"
    and paths: "distinct (map pc_path cs)"
  shows "\<exists>pairs'. rename_inv cs (seen @ [c]) pairs' (rename_step c s)"
proof -
  let ?P = "\<lambda>a. map_option er_blob (pc_after a) = map_option er_blob (pc_before c) \<and>
    pc_path a \<notin> rs_consumed_adds s"
  have fresh: "pc_path a \<notin> rs_consumed_adds s" if "a \<in> set (rs_adds s)" for a
  proof
    assume "pc_path a \<in> rs_consumed_adds s"
    then obtain b where b: "b \<in> snd ` set pairs" "pc_path a = pc_path b"
      using inv unfolding rename_inv_def by auto
    have "snd ` set pairs \<subseteq> set cs" "set (rs_adds s) \<subseteq> set cs - snd ` set pairs"
      using inv unfolding rename_inv_def by auto
    moreover from this that b(1) have "a \<in> set cs" "b \<in> set cs" by blast+
    with paths b(2) have "a = b" by (auto simp: distinct_map dest: inj_onD)
    ultimately show False using that b(1) by blast
  qed
  show ?thesis
  proof (cases "is_del c")
    case False
    then have "rename_step c s = s"
      by (auto simp: rename_step_def is_del_def split: option.splits)
    with False inv show ?thesis by (intro exI [of _ pairs]) (auto simp: rename_inv_def)
  next
    case True
    then obtain fr where fr: "pc_before c = Some fr" "pc_after c = None" by (auto simp: is_del_def)
    show ?thesis
    proof (cases "position ?P (rs_adds s)")
      case None
      then have "rename_step c s = s" using fr by (simp add: rename_step_def)
      moreover have "\<forall>a \<in> set (rs_adds s). \<not> same_blob c a"
        using None fresh by (auto simp: position_None_iff same_blob_def)
      ultimately show ?thesis using inv by (intro exI [of _ pairs]) (auto simp: rename_inv_def)
    next
      case (Some pos)
      let ?a = "rs_adds s ! pos"
      from position_SomeD [OF Some] have pos: "pos < length (rs_adds s)" "same_blob c ?a"
        by (simp_all add: same_blob_def)
      then have a: "?a \<in> set cs" "is_add ?a" "?a \<notin> snd ` set pairs" "?a \<in> set (rs_adds s)"
        using inv nth_mem [OF pos(1)] by (auto simp: rename_inv_def)
      have st: "rename_step c s = \<lparr>rs_adds = take pos (rs_adds s) @ drop (pos + 1) (rs_adds s),
          rs_renames = rs_renames s @ [rename_of (c, ?a)],
          rs_consumed_adds = insert (pc_path ?a) (rs_consumed_adds s),
          rs_consumed_dels = insert (pc_path c) (rs_consumed_dels s)\<rparr>"
        using Some fr by (simp add: rename_step_def Let_def rename_of_def)
      have "c \<notin> fst ` set pairs" using inv c(2) by (auto simp: rename_inv_def)
      then show ?thesis
        using inv a pos(2) True set_remove_nth [OF _ pos(1)] unfolding st
        by (intro exI [of _ "pairs @ [(c, ?a)]"]) (auto simp: rename_inv_def)
    qed
  qed
qed

lemma rename_fold_inv:
  assumes "rename_inv cs seen pairs s" "seen @ todo = cs" "distinct (map pc_path cs)"
  shows "\<exists>pairs'. rename_inv cs cs pairs' (fold rename_step todo s)"
  using assms
proof (induction todo arbitrary: seen pairs s)
  case (Cons c todo)
  have "c \<in> set cs" "c \<notin> set seen" using Cons.prems(2,3) by (auto simp: distinct_map)
  from rename_step_inv [OF Cons.prems(1) this Cons.prems(3)] obtain pairs' where
    "rename_inv cs (seen @ [c]) pairs' (rename_step c s)" by blast
  from Cons.IH [OF this _ Cons.prems(3)] Cons.prems(2) show ?case by simp
qed auto

lemma detect_renames_partition:
  assumes "distinct (map pc_path cs)" "detect_renames cs = (renames, rest)"
  shows "\<exists>pairs. renames = map rename_of pairs \<and>
    mset cs = mset rest + mset (map fst pairs) + mset (map snd pairs) \<and>
    (\<forall>(d, a) \<in> set pairs. is_del d \<and> is_add a \<and> same_blob d a) \<and>
    (\<forall>d \<in> set rest. \<forall>a \<in> set rest. is_del d \<longrightarrow> is_add a \<longrightarrow> \<not> same_blob d a)"
proof -
  let ?s = "\<lparr>rs_adds = filter is_add cs, rs_renames = [], rs_consumed_adds = {}, rs_consumed_dels = {}\<rparr>"
  have dc: "distinct cs" using assms(1) by (simp add: distinct_map)
  have "rename_inv cs [] [] ?s" using dc by (simp add: rename_inv_def)
  from rename_fold_inv [OF this _ assms(1)] obtain pairs where
    inv: "rename_inv cs cs pairs (fold rename_step cs ?s)" by auto
  let ?D = "fst ` set pairs" and ?A = "snd ` set pairs"
  have sub: "?D \<subseteq> {d \<in> set cs. is_del d}" "?A \<subseteq> {a \<in> set cs. is_add a}"
    using inv by (auto simp: rename_inv_def)
  have disj: "?D \<inter> ?A = {}" using sub not_del_add by blast
  have path: "pc_path c \<in> pc_path ` X \<longleftrightarrow> c \<in> X" if "c \<in> set cs" "X \<subseteq> set cs" for c X
    using that assms(1) by (auto simp: distinct_map dest: inj_onD)
  have r: "renames = map rename_of pairs" "rest = filter (\<lambda>c. c \<notin> ?A \<and> c \<notin> ?D) cs"
  proof -
    let ?t = "fold rename_step cs ?s"
    have "detect_renames cs = (rs_renames ?t,
        filter (\<lambda>c. pc_path c \<notin> rs_consumed_adds ?t \<and> pc_path c \<notin> rs_consumed_dels ?t) cs)"
      by (simp add: detect_renames_def Let_def is_add_def [abs_def])
    then have d: "renames = rs_renames ?t"
      "rest = filter (\<lambda>c. pc_path c \<notin> rs_consumed_adds ?t \<and> pc_path c \<notin> rs_consumed_dels ?t) cs"
      using assms(2) by simp_all
    show "renames = map rename_of pairs" using d(1) inv by (simp add: rename_inv_def)
    have "rest = filter (\<lambda>c. pc_path c \<notin> pc_path ` ?A \<and> pc_path c \<notin> pc_path ` ?D) cs"
      using d(2) inv by (simp add: rename_inv_def)
    also have "\<dots> = filter (\<lambda>c. c \<notin> ?A \<and> c \<notin> ?D) cs"
      using path sub by (intro filter_cong) auto
    finally show "rest = filter (\<lambda>c. c \<notin> ?A \<and> c \<notin> ?D) cs" .
  qed
  have dist: "distinct (rest @ map fst pairs @ map snd pairs)"
    using dc inv disj unfolding r(2) rename_inv_def by auto
  have "set (rest @ map fst pairs @ map snd pairs) = set cs" using sub r(2) by auto
  then have "mset cs = mset (rest @ map fst pairs @ map snd pairs)"
    using dc dist set_eq_iff_mset_eq_distinct by metis
  moreover have "\<forall>d \<in> set rest. \<forall>a \<in> set rest. is_del d \<longrightarrow> is_add a \<longrightarrow> \<not> same_blob d a"
    using inv r(2) by (auto simp: rename_inv_def)
  ultimately show ?thesis
    using inv r(1) by (intro exI [of _ pairs]) (auto simp: rename_inv_def)
qed

end
