(* ===== verification/Ignore.thy ===== *)
theory Ignore
  imports Text Utf8
begin

text \<open>
  \<open>src/src/ignore.rs\<close>: the \<open>.tallyignore\<close> rules, their parser and the glob
  matcher on characters and on path segments.  Main results: the matchers agree
  with inductive descriptions of the glob language; a rule that matches a path
  matches every path below it, so a negated rule re-includes everything below
  what it names.
\<close>

record rule =
  ru_negated :: bool
  ru_dir_only :: bool
  ru_anchored :: bool
  ru_segments :: "string list"

subsection \<open>Parsing\<close>

function trim_spaces :: "string \<Rightarrow> string" where
  "trim_spaces l =
     (if ends_with '' '' l \<and> \<not> ends_with [CHR 0x5C, CHR '' ''] l then trim_spaces (butlast l) else l)"
  by pat_completeness auto
termination
  by (relation "measure length") (auto simp: ends_with_def)

declare trim_spaces.simps [simp del]

definition parse_line :: "string \<Rightarrow> rule option" where
  "parse_line line =
     (let line = trim_spaces line in
      if line = [] \<or> starts_with ''#'' line then None else
      let (negated, pattern) = (case strip_prefix ''!'' line of Some r \<Rightarrow> (True, r) | None \<Rightarrow> (False, line));
          (dir_only, pattern) = (case strip_suffix ''/'' pattern of Some r \<Rightarrow> (True, r) | None \<Rightarrow> (False, pattern));
          (anchored, pattern) = (case strip_prefix ''/'' pattern of
              Some r \<Rightarrow> (True, r) | None \<Rightarrow> (CHR ''/'' \<in> set pattern, pattern))
      in
      if pattern = [] then None else
      let segments = split_on CHR ''/'' pattern in
      if list_ex (\<lambda>s. s = []) segments then None else
      Some \<lparr>ru_negated = negated, ru_dir_only = dir_only, ru_anchored = anchored, ru_segments = segments\<rparr>)"

definition ignore_parse :: "string \<Rightarrow> rule list" where
  "ignore_parse text = concat (map (\<lambda>l. case parse_line l of None \<Rightarrow> [] | Some r \<Rightarrow> [r]) (lines text))"

subsection \<open>Globbing characters\<close>

abbreviation chr :: "char \<Rightarrow> nat" where "chr c \<equiv> of_char c"

text \<open>The loop over a class body, after its optional negation.\<close>

function class_loop :: "nat list \<Rightarrow> nat \<Rightarrow> bool \<Rightarrow> bool \<Rightarrow> (bool \<times> nat list) option" where
  "class_loop [] c first hit = None"
| "class_loop (p # rest) c first hit =
     (if p = chr CHR '']'' \<and> \<not> first then Some (hit, rest)
      else if length rest \<ge> 2 \<and> rest ! 0 = chr CHR ''-'' \<and> rest ! 1 \<noteq> chr CHR '']''
      then class_loop (drop 2 rest) c False (hit \<or> (p \<le> c \<and> c \<le> rest ! 1))
      else class_loop rest c False (hit \<or> p = c))"
  by pat_completeness auto
termination
  by (relation "measure (\<lambda>(p, c, f, h). length p)") auto

definition match_class :: "nat list \<Rightarrow> nat \<Rightarrow> (bool \<times> nat list) option" where
  "match_class pat c =
     (let negated = (pat \<noteq> [] \<and> (hd pat = chr CHR ''!'' \<or> hd pat = chr CHR 0x5E)) in
      map_option (\<lambda>(hit, after). (hit \<noteq> negated, after))
        (class_loop (if negated then tl pat else pat) c True False))"

lemma class_loop_shorter: "class_loop pat c first hit = Some (h, after) \<Longrightarrow> length after < length pat"
  by (induction pat c first hit rule: class_loop.induct) (fastforce split: if_splits)+

lemma match_class_shorter: "match_class pat c = Some (h, after) \<Longrightarrow> length after < length pat"
  by (cases pat) (auto simp: match_class_def Let_def split: if_splits dest!: class_loop_shorter)

function match_chars :: "nat list \<Rightarrow> nat list \<Rightarrow> bool" where
  "match_chars [] cs \<longleftrightarrow> cs = []"
| "match_chars (p # rest) cs \<longleftrightarrow>
     (if p = chr CHR ''*'' then list_ex (\<lambda>i. match_chars rest (drop i cs)) [0..<Suc (length cs)]
      else if p = chr CHR ''?'' then cs \<noteq> [] \<and> match_chars rest (tl cs)
      else if p = chr CHR 0x5C then
        (case rest of
           esc # rest' \<Rightarrow> cs \<noteq> [] \<and> esc = hd cs \<and> match_chars rest' (tl cs)
         | [] \<Rightarrow> False)
      else if p = chr CHR ''['' then
        (case cs of
           [] \<Rightarrow> False
         | t # cs_rest \<Rightarrow>
             (case match_class rest t of
                Some (hit, after) \<Rightarrow> hit \<and> match_chars after cs_rest
              | None \<Rightarrow> False))
      else cs \<noteq> [] \<and> p = hd cs \<and> match_chars rest (tl cs))"
  by pat_completeness auto
termination
  by (relation "measure (\<lambda>(p, t). length p)") (auto dest: match_class_shorter simp: less_SucI)

definition match_segment :: "string \<Rightarrow> string \<Rightarrow> bool" where
  "match_segment pattern cs = match_chars (chars pattern) (chars cs)"

subsection \<open>Globbing paths\<close>

fun match_segments :: "string list \<Rightarrow> string list \<Rightarrow> bool" where
  "match_segments [] segs \<longleftrightarrow> True"
| "match_segments (pat # rest) segs \<longleftrightarrow>
     (if pat = ''**'' then
        (if rest = [] then segs \<noteq> []
         else list_ex (\<lambda>i. match_segments rest (drop i segs)) [0..<Suc (length segs)])
      else (case segs of
              [] \<Rightarrow> False
            | seg # segs_rest \<Rightarrow> match_segment pat seg \<and> match_segments rest segs_rest))"

definition rule_matches :: "rule \<Rightarrow> string list \<Rightarrow> bool" where
  "rule_matches r segs =
     (if ru_anchored r then match_segments (ru_segments r) segs
      else list_ex (\<lambda>i. match_segments (ru_segments r) (drop i segs)) [0..<length segs])"

definition is_ignored :: "rule list \<Rightarrow> string \<Rightarrow> bool \<Rightarrow> bool" where
  "is_ignored rules rel_path is_dir =
     (let segs = split_on CHR ''/'' rel_path in
      fold (\<lambda>r ignored. if ru_dir_only r \<and> \<not> is_dir then ignored
                        else if rule_matches r segs then \<not> ru_negated r else ignored) rules False)"

subsection \<open>The glob language\<close>

text \<open>What a pattern without classes and escapes means, as a relation.\<close>

inductive glob :: "nat list \<Rightarrow> nat list \<Rightarrow> bool" where
  stop: "glob [] []"
| star: "glob pat u \<Longrightarrow> glob (chr CHR ''*'' # pat) (s @ u)"
| any: "glob pat u \<Longrightarrow> glob (chr CHR ''?'' # pat) (c # u)"
| escaped: "glob pat u \<Longrightarrow> glob (chr CHR 0x5C # c # pat) (c # u)"
| class_hit: "match_class pat c = Some (True, after) \<Longrightarrow> glob after u \<Longrightarrow> glob (chr CHR ''['' # pat) (c # u)"
| plain: "c \<notin> chr ` {CHR ''*'', CHR ''?'', CHR 0x5C, CHR ''[''} \<Longrightarrow> glob pat u \<Longrightarrow> glob (c # pat) (c # u)"

lemma list_ex_upt: "list_ex P [0..<Suc n] \<longleftrightarrow> (\<exists>i \<le> n. P i)"
  by (auto simp: list_ex_iff less_Suc_eq_le simp del: upt_Suc)

lemma glob_match_chars: "glob pat cs \<Longrightarrow> match_chars pat cs"
proof (induction rule: glob.induct)
  case (star pat u s)
  then show ?case by (auto simp: list_ex_upt simp del: upt_Suc intro!: exI [of _ "length s"])
qed (auto split: list.splits)

lemma match_chars_glob: "match_chars pat cs \<Longrightarrow> glob pat cs"
proof (induction pat cs rule: match_chars.induct)
  case (2 p rest cs)
  show ?case
  proof (cases "p = chr CHR ''*''")
    case True
    with 2(6) obtain i where i: "i \<le> length cs" "match_chars rest (drop i cs)"
      by (auto simp: list_ex_upt simp del: upt_Suc)
    then have "i \<in> set [0..<Suc (length cs)]" by (auto simp del: upt_Suc)
    from 2(1) [OF True this i(2)] have "glob rest (drop i cs)" .
    with glob.star [of rest "drop i cs" "take i cs"] True show ?thesis by simp
  next
    case star: False
    show ?thesis
    proof (cases "p = chr CHR ''[''")
      case True
      with 2(6) star obtain t u after where
        m: "cs = t # u" "match_class rest t = Some (True, after)" "match_chars after u"
        by (auto split: list.splits option.splits)
      with 2(4) True star have "glob after u" by auto
      from glob.class_hit [OF m(2) this] True m(1) show ?thesis by simp
    next
      case cls: False
      consider "p = chr CHR ''?''" | "p = chr CHR 0x5C" |
        "p \<notin> chr ` {CHR ''*'', CHR ''?'', CHR 0x5C, CHR ''[''}" using star cls by auto
      then show ?thesis
      proof cases
        case 1
        with 2(6) obtain t u where m: "cs = t # u" "match_chars rest u" by (cases cs) auto
        with 2(2) 1 have "glob rest u" by simp
        from glob.any [OF this] 1 m(1) show ?thesis by simp
      next
        case b: 2
        with 2(6) obtain t u rest' where m: "cs = t # u" "rest = t # rest'" "match_chars rest' u"
          by (cases cs; cases rest) auto
        with 2(3) b have "glob rest' u" by simp
        from glob.escaped [OF this] b m show ?thesis by simp
      next
        case c: 3
        with 2(6) obtain u where m: "cs = p # u" "match_chars rest u" by (cases cs) auto
        with 2(5) c have "glob rest u" by simp
        from glob.plain [OF c this] m(1) show ?thesis by simp
      qed
    qed
  qed
qed (simp add: glob.stop)

lemma match_chars_iff: "match_chars pat cs \<longleftrightarrow> glob pat cs"
  using glob_match_chars match_chars_glob by blast

subsection \<open>Rules reach below what they name\<close>

lemma match_segments_below: "match_segments pats segs \<Longrightarrow> match_segments pats (segs @ below)"
proof (induction pats segs rule: match_segments.induct)
  case (2 pat rest segs)
  show ?case
  proof (cases "pat = ''**'' \<and> rest \<noteq> []")
    case True
    with 2(3) obtain i where i: "i \<le> length segs" "match_segments rest (drop i segs)"
      by (auto simp: list_ex_upt simp del: upt_Suc)
    then have "i \<in> set [0..<Suc (length segs)]" by (auto simp del: upt_Suc)
    from 2(1) [OF _ _ this i(2)] True i(1) have "match_segments rest (drop i (segs @ below))" by simp
    with True i(1) show ?thesis by (auto simp: list_ex_upt simp del: upt_Suc intro!: exI [of _ i])
  qed (use 2 in \<open>auto split: list.splits if_splits\<close>)
qed simp

lemma rule_matches_below: "rule_matches r segs \<Longrightarrow> rule_matches r (segs @ below)"
proof -
  assume m: "rule_matches r segs"
  show ?thesis
  proof (cases "ru_anchored r")
    case True
    with m show ?thesis by (simp add: rule_matches_def match_segments_below)
  next
    case False
    with m obtain i where i: "i < length segs" "match_segments (ru_segments r) (drop i segs)"
      by (auto simp: rule_matches_def list_ex_iff)
    from match_segments_below [OF i(2), of below] i(1) False show ?thesis
      by (auto simp: rule_matches_def list_ex_iff intro!: bexI [of _ i])
  qed
qed

text \<open>The last rule that applies decides.\<close>

lemma fold_fixed: "(\<And>x. x \<in> set xs \<Longrightarrow> f x b = b) \<Longrightarrow> fold f xs b = b"
  by (induction xs) auto

lemma is_ignored_last:
  assumes "rule_matches r (split_on CHR ''/'' p)" "ru_dir_only r \<longrightarrow> is_dir"
    "\<forall>q \<in> set rs. \<not> (rule_matches q (split_on CHR ''/'' p) \<and> (ru_dir_only q \<longrightarrow> is_dir))"
  shows "is_ignored (pre @ r # rs) p is_dir \<longleftrightarrow> \<not> ru_negated r"
proof -
  let ?f = "\<lambda>r ignored. if ru_dir_only r \<and> \<not> is_dir then ignored
    else if rule_matches r (split_on CHR ''/'' p) then \<not> ru_negated r else ignored"
  have e: "fold ?f rs b = b" for b by (rule fold_fixed) (use assms(3) in auto)
  show ?thesis unfolding is_ignored_def Let_def
    by (simp only: fold_append fold.simps comp_apply e) (use assms(1,2) in auto)
qed

lemma split_on_append: "split_on c (a @ c # b) = split_on c a @ split_on c b"
  by (induction a) (auto split: list.splits)

text \<open>
  A negated rule for a directory, last in the file, re-includes every file below
  it, whatever the rules before it exclude.
\<close>

lemma negation_reincludes_below:
  assumes "rule_matches r (split_on CHR ''/'' d)" "ru_negated r" "\<not> ru_dir_only r"
  shows "\<not> is_ignored (rules @ [r]) (d @ CHR ''/'' # f) is_dir"
  using is_ignored_last [of r "d @ CHR ''/'' # f" is_dir "[]" rules] assms rule_matches_below
  by (simp add: split_on_append)

end
