(* ===== verification/Tree.thy ===== *)
theory Tree
  imports Ignore Manifest Blobs "HOL-Library.Sublist" "HOL-Library.Product_Lexorder"
begin

text \<open>
  The working tree of \<open>src/src/repo.rs\<close>: files, symbolic links and directories,
  the writing of element records into it, and the walk that reads it back through
  the ignore rules.  The operating system's part is what the standard library
  documents: \<open>fs::write\<close> and \<open>create_dir_all\<close> follow symbolic links,
  \<open>remove_file\<close> and \<open>symlink\<close> do not.  Main results: a write that stays inside the
  tree sets its path and leaves unrelated paths; a write below a link, or onto
  one, leaves the tree.
\<close>

datatype node =
    File bool bytes
  | Link bytes
  | Dir "(string \<times> node) list"

text \<open>
  What a system call does: a new node in place, or an access that follows the
  link with the given target (the remaining components are below it).
\<close>

datatype effect = Inside node | Outside bytes "string list"

record tree =
  tr_root :: node
  tr_outside :: "(bytes \<times> string list) list"

subsection \<open>System calls\<close>

fun put_at :: "string list \<Rightarrow> (node option \<Rightarrow> effect result) \<Rightarrow> node option \<Rightarrow> effect result" where
  "put_at [] f n = f n"
| "put_at (c # cs) f n =
     (let put_in = (\<lambda>es. rbind (put_at cs f (bt_get es c)) (\<lambda>e. case e of
          Inside n' \<Rightarrow> Ok (Inside (Dir (bt_insert c n' es)))
        | Outside t r \<Rightarrow> Ok (Outside t r))) in
      case n of
        None \<Rightarrow> put_in []
      | Some (Dir es) \<Rightarrow> put_in es
      | Some (File _ _) \<Rightarrow> Err Io
      | Some (Link t) \<Rightarrow> Ok (Outside t (c # cs)))"

definition call_mkdir :: "node option \<Rightarrow> effect result" where
  "call_mkdir n = (case n of
       None \<Rightarrow> Ok (Inside (Dir []))
     | Some (Dir es) \<Rightarrow> Ok (Inside (Dir es))
     | Some (Link t) \<Rightarrow> Ok (Outside t [])
     | Some (File _ _) \<Rightarrow> Err Io)"

definition call_write :: "bool \<Rightarrow> bytes \<Rightarrow> node option \<Rightarrow> effect result" where
  "call_write exec content n = (case n of
       Some (Link t) \<Rightarrow> Ok (Outside t [])
     | Some (Dir _) \<Rightarrow> Err Io
     | _ \<Rightarrow> Ok (Inside (File exec content)))"

definition call_symlink :: "bytes \<Rightarrow> node option \<Rightarrow> effect result" where
  "call_symlink target n = (case n of None \<Rightarrow> Ok (Inside (Link target)) | Some _ \<Rightarrow> Err Io)"

definition on_tree :: "string list \<Rightarrow> (node option \<Rightarrow> effect result) \<Rightarrow> tree \<Rightarrow> unit result \<times> tree" where
  "on_tree cs f t = (case put_at cs f (Some (tr_root t)) of
       Err e \<Rightarrow> (Err e, t)
     | Ok (Inside n) \<Rightarrow> (Ok (), t\<lparr>tr_root := n\<rparr>)
     | Ok (Outside l r) \<Rightarrow> (Ok (), t\<lparr>tr_outside := tr_outside t @ [(l, r)]\<rparr>))"

text \<open>\<open>remove_file\<close>: a file or a link goes; anything else is an error the caller ignores.\<close>

fun remove_at :: "string list \<Rightarrow> node \<Rightarrow> node" where
  "remove_at [] n = n"
| "remove_at [c] (Dir es) = (case bt_get es c of
       Some (Dir _) \<Rightarrow> Dir es
     | None \<Rightarrow> Dir es
     | _ \<Rightarrow> Dir (bt_remove c es))"
| "remove_at (c # cs) (Dir es) = (case bt_get es c of
       Some n \<Rightarrow> Dir (bt_insert c (remove_at cs n) es)
     | None \<Rightarrow> Dir es)"
| "remove_at (c # cs) n = n"

fun link_on_way :: "string list \<Rightarrow> node \<Rightarrow> (bytes \<times> string list) option" where
  "link_on_way [] n = None"
| "link_on_way cs (Link t) = Some (t, cs)"
| "link_on_way (c # cs) (Dir es) = (case bt_get es c of None \<Rightarrow> None | Some n \<Rightarrow> link_on_way cs n)"
| "link_on_way cs (File _ _) = None"

definition remove_file :: "string list \<Rightarrow> tree \<Rightarrow> tree" where
  "remove_file cs t = (case link_on_way cs (tr_root t) of
       Some l \<Rightarrow> t\<lparr>tr_outside := tr_outside t @ [l]\<rparr>
     | None \<Rightarrow> t\<lparr>tr_root := remove_at cs (tr_root t)\<rparr>)"

subsection \<open>Writing records\<close>

text \<open>\<open>root.join(path.trim_start_matches('/'))\<close>: the components of the path.\<close>

definition tree_path :: "string \<Rightarrow> string list" where
  "tree_path p = filter (\<lambda>c. c \<noteq> []) (split_on CHR ''/'' p)"

definition write_record_to :: "pool \<Rightarrow> element_record \<Rightarrow> tree \<Rightarrow> unit result \<times> tree" where
  "write_record_to pool r t =
     (let cs = tree_path (er_path r) in
      case on_tree (butlast cs) call_mkdir t of
        (Err e, t) \<Rightarrow> (Err e, t)
      | (Ok _, t) \<Rightarrow> (case blob_get pool (er_blob r) of
            Err e \<Rightarrow> (Err e, t)
          | Ok content \<Rightarrow>
              if er_mode r = ''120000'' then
                let t = remove_file cs t in
                if \<not> from_utf8 content then (Err Corrupt, t) else on_tree cs (call_symlink content) t
              else on_tree cs (call_write (er_mode r = ''100755'') content) t))"

text \<open>One entry of the best-effort refresh; a failed write stops it.\<close>

definition refresh_entry :: "pool \<Rightarrow> element_record option \<times> element_record option \<Rightarrow> tree \<Rightarrow> unit result \<times> tree" where
  "refresh_entry pool sides t = (case sides of
       (_, Some a) \<Rightarrow> write_record_to pool a t
     | (Some r, None) \<Rightarrow> (Ok (), remove_file (tree_path (er_path r)) t)
     | (None, None) \<Rightarrow> (Ok (), t))"

fun write_all :: "pool \<Rightarrow> element_record list \<Rightarrow> tree \<Rightarrow> unit result \<times> tree" where
  "write_all pool [] t = (Ok (), t)"
| "write_all pool (r # rs) t = (case write_record_to pool r t of
       (Err e, t) \<Rightarrow> (Err e, t)
     | (Ok _, t) \<Rightarrow> write_all pool rs t)"

definition materialize_tree :: "manifest \<Rightarrow> pool \<Rightarrow> tree \<Rightarrow> unit result \<times> tree" where
  "materialize_tree m pool t = write_all pool (records m) t"

subsection \<open>The walk\<close>

type_synonym walk_state = "pool \<times> element_record list"

definition pooled_record :: "'s env \<Rightarrow> string \<Rightarrow> string \<Rightarrow> bytes \<Rightarrow> walk_state \<Rightarrow> walk_state result" where
  "pooled_record E mode path content st =
     rbind (blob_put_unsynced E content (fst st)) (\<lambda>(h, pool).
     rmap (\<lambda>r. (pool, snd st @ [r])) (er_new mode path h))"

function walk_tree :: "'s env \<Rightarrow> rule list \<Rightarrow> string \<Rightarrow> (string \<times> node) list \<Rightarrow> walk_state \<Rightarrow> walk_state result" where
  "walk_tree E rules pre [] st = Ok st"
| "walk_tree E rules pre ((name, n) # es) st =
     (if pre = [] \<and> (name = ''.tally'' \<or> name = ''.git'') then walk_tree E rules pre es st else
      let rel = pre @ name; is_dir = (case n of Dir _ \<Rightarrow> True | _ \<Rightarrow> False) in
      if \<not> from_utf8 rel then Err Invalid
      else if is_ignored rules rel is_dir then walk_tree E rules pre es st
      else rbind (case n of
          Link target \<Rightarrow>
            if \<not> from_utf8 target then Err Invalid else pooled_record E ''120000'' (CHR ''/'' # rel) target st
        | Dir sub \<Rightarrow> walk_tree E rules (rel @ ''/'') sub st
        | File exec content \<Rightarrow>
            pooled_record E (if exec then ''100755'' else ''100644'') (CHR ''/'' # rel) content st)
        (walk_tree E rules pre es))"
  by pat_completeness auto
termination
  by (relation "measure (\<lambda>(E, rules, pre, es, st). size_list (size_prod (\<lambda>_. 0) size) es)") auto

text \<open>
  The ignore file at the root; through a link it is read from outside the tree,
  which is the parameter \<open>follow\<close>.
\<close>

definition ignore_rules :: "(bytes \<Rightarrow> bytes option result) \<Rightarrow> (string \<times> node) list \<Rightarrow> rule list result" where
  "ignore_rules follow es =
     rbind (case bt_get es ''.tallyignore'' of
         None \<Rightarrow> Ok None
       | Some (File _ c) \<Rightarrow> Ok (Some c)
       | Some (Link t) \<Rightarrow> follow t
       | Some (Dir _) \<Rightarrow> Err Io) (\<lambda>x. case x of
         None \<Rightarrow> Ok []
       | Some c \<Rightarrow> if from_utf8 c then Ok (ignore_parse c) else Err Io)"

definition records_of_working_tree ::
  "'s env \<Rightarrow> (bytes \<Rightarrow> bytes option result) \<Rightarrow> node \<Rightarrow> pool \<Rightarrow> (element_record list \<times> pool) result" where
  "records_of_working_tree E follow root pool = (case root of
       Dir es \<Rightarrow>
         rbind (ignore_rules follow es) (\<lambda>rules.
         rmap (\<lambda>(pool, rs). (sort_key (\<lambda>r. (er_mode r, er_path r, er_blob r)) rs, pool))
           (walk_tree E rules [] es (pool, [])))
     | _ \<Rightarrow> Err Io)"

definition working_tree_manifest ::
  "'s env \<Rightarrow> (bytes \<Rightarrow> bytes option result) \<Rightarrow> node \<Rightarrow> pool \<Rightarrow> (manifest \<times> pool) result" where
  "working_tree_manifest E follow root pool =
     rbind (records_of_working_tree E follow root pool) (\<lambda>(rs, pool). rmap (\<lambda>m. (m, pool)) (from_records rs))"

subsection \<open>What a write changes\<close>

fun node_at :: "string list \<Rightarrow> node option \<Rightarrow> node option" where
  "node_at [] n = n"
| "node_at (c # cs) (Some (Dir es)) = node_at cs (bt_get es c)"
| "node_at (c # cs) n = None"

text \<open>Every directory of the tree is an ordered map.\<close>

inductive node_ok :: "node \<Rightarrow> bool" where
  leaf: "node_ok (File x c)"
| symlink: "node_ok (Link t)"
| inner: "bt_ok es \<Longrightarrow> (\<And>c n. bt_get es c = Some n \<Longrightarrow> node_ok n) \<Longrightarrow> node_ok (Dir es)"

inductive_simps node_ok_Dir [simp]: "node_ok (Dir es)"

definition opt_ok :: "node option \<Rightarrow> bool" where "opt_ok n = pred_option node_ok n"

lemma opt_ok_simps [simp]: "opt_ok None" "opt_ok (Some n) \<longleftrightarrow> node_ok n"
  by (simp_all add: opt_ok_def)

lemma node_at_None [simp]: "node_at cs None = None"
  by (cases cs) auto

lemma opt_ok_get: "node_ok (Dir es) \<Longrightarrow> opt_ok (bt_get es c)"
  by (cases "bt_get es c") auto

lemma case_Inside:
  "(case e of Inside n \<Rightarrow> Ok (Inside (g n)) | Outside t r \<Rightarrow> Ok (Outside t r)) = Ok (Inside m) \<longleftrightarrow>
     (\<exists>n. e = Inside n \<and> m = g n)"
  by (cases e) auto

lemma put_at_Inside:
  assumes "put_at cs f n = Ok (Inside n')" "opt_ok n"
    "\<And>m m'. f m = Ok (Inside m') \<Longrightarrow> opt_ok m \<Longrightarrow> node_ok m'"
  shows "node_ok n' \<and> (\<exists>m. f (node_at cs n) = Ok (Inside m) \<and> node_at cs (Some n') = Some m) \<and>
    (\<forall>ds. \<not> strict_prefix ds cs \<longrightarrow> \<not> prefix cs ds \<longrightarrow> node_at ds (Some n') = node_at ds n)"
  using assms
proof (induction cs arbitrary: n n')
  case Nil
  then show ?case by auto
next
  case (Cons c cs)
  define es where "es = (case n of Some (Dir es) \<Rightarrow> es | _ \<Rightarrow> [])"
  have d: "n = None \<and> es = [] \<or> n = Some (Dir es)"
    and "\<exists>m'. put_at cs f (bt_get es c) = Ok (Inside m') \<and> n' = Dir (bt_insert c m' es)"
    using Cons.prems(1) by (auto simp: es_def case_Inside split: option.splits node.splits)
  then obtain m' where m': "put_at cs f (bt_get es c) = Ok (Inside m')" "n' = Dir (bt_insert c m' es)" by blast
  have ok: "bt_ok es" "opt_ok (bt_get es c)" "\<And>k x. bt_get es k = Some x \<Longrightarrow> node_ok x"
    using d Cons.prems(2) opt_ok_get [of es c] by auto
  note ih = Cons.IH [OF m'(1) ok(2) Cons.prems(3)]
  have at: "node_at (c # ds) n = node_at ds (bt_get es c)" for ds using d by auto
  have "node_ok n'" using ih ok by (auto simp: m'(2) bt_ok_insert bt_get_insert split: if_splits)
  moreover have "node_at ds (Some n') = node_at ds n" if "\<not> strict_prefix ds (c # cs)" "\<not> prefix (c # cs) ds" for ds
  proof (cases ds)
    case (Cons k ks)
    with that ih d show ?thesis
      by (cases "k = c") (auto simp: m'(2) bt_get_insert [OF ok(1)] at)
  qed (use that in simp)
  ultimately show ?case using ih by (auto simp: m'(2) bt_get_insert [OF ok(1)] at)
qed

text \<open>Below a link, or at one the call follows, nothing in the tree changes.\<close>

lemma put_at_link:
  assumes "put_at ds f (Some (Link t)) = Ok (Outside t r)"
  shows "node_at cs n = Some (Link t) \<Longrightarrow> put_at (cs @ ds) f n = Ok (Outside t r)"
proof (induction cs n rule: node_at.induct)
  case (1 n)
  then show ?case using assms by simp
qed auto

lemma put_below_link: "put_at (c # ds) f (Some (Link t)) = Ok (Outside t (c # ds))"
  by simp

text \<open>A written record: where it lands.\<close>

definition node_of :: "element_record \<Rightarrow> bytes \<Rightarrow> node" where
  "node_of r c = (if er_mode r = ''120000'' then Link c else File (er_mode r = ''100755'') c)"

lemma put_at_same:
  assumes "node_ok n" "node_at cs (Some n) = Some m" "f (Some m) = Ok (Inside m)"
  shows "put_at cs f (Some n) = Ok (Inside n)"
  using assms
proof (induction cs arbitrary: n)
  case (Cons c cs)
  from Cons.prems(2) obtain es where n: "n = Dir es" by (cases n) auto
  with Cons.prems obtain k where k: "bt_get es c = Some k" "node_ok k" by (cases "bt_get es c") auto
  with Cons.IH [OF k(2)] Cons.prems n have "put_at cs f (bt_get es c) = Ok (Inside k)" by simp
  with n k Cons.prems(1) show ?case by (simp add: btree.ins_same)
qed simp

lemma node_at_append: "node_at (cs @ ds) n = node_at ds (node_at cs n)"
  by (induction cs n rule: node_at.induct) auto

text \<open>
  A regular file written where the tree has a link: the link stays and its target
  is written instead.
\<close>

lemma write_onto_link:
  assumes "node_ok (tr_root t)" "er_mode r \<noteq> ''120000''" "tree_path (er_path r) = cs @ [c]"
    "blob_get pool (er_blob r) = Ok content"
    "node_at (cs @ [c]) (Some (tr_root t)) = Some (Link l)"
  shows "write_record_to pool r t = (Ok (), t\<lparr>tr_outside := tr_outside t @ [(l, [])]\<rparr>)"
proof -
  from assms(5) obtain es where es: "node_at cs (Some (tr_root t)) = Some (Dir es)"
    by (cases "node_at cs (Some (tr_root t))" rule: option.exhaust; cases "the (node_at cs (Some (tr_root t)))")
      (auto simp: node_at_append)
  have "put_at cs call_mkdir (Some (tr_root t)) = Ok (Inside (tr_root t))"
    by (rule put_at_same [OF assms(1) es]) (simp add: call_mkdir_def)
  moreover have "put_at (cs @ [c]) (call_write x content) (Some (tr_root t)) = Ok (Outside l [])" for x
    using put_at_link [of "[]" "call_write x content" l "[]" "cs @ [c]"] assms(5) by (simp add: call_write_def)
  ultimately show ?thesis
    using assms(2-4) by (simp add: write_record_to_def on_tree_def Let_def)
qed

text \<open>A record below a link of the tree is written outside the tree.\<close>

lemma write_below_link:
  assumes "tree_path (er_path r) = cs @ c # ds" "node_at cs (Some (tr_root t)) = Some (Link l)"
    "er_mode r \<noteq> ''120000''" "blob_get pool (er_blob r) = Ok content"
  shows "\<exists>es. write_record_to pool r t = (Ok (), t\<lparr>tr_outside := es\<rparr>) \<and> (l, c # ds) \<in> set es"
proof -
  obtain x where m: "put_at (butlast (cs @ c # ds)) call_mkdir (Some (tr_root t)) = Ok (Outside l x)"
  proof (cases "ds = []")
    case True
    then have "put_at (cs @ []) call_mkdir (Some (tr_root t)) = Ok (Outside l [])"
      by (intro put_at_link) (simp_all add: assms(2) call_mkdir_def)
    with that True show ?thesis by simp
  next
    case False
    then have "put_at (cs @ c # butlast ds) call_mkdir (Some (tr_root t)) = Ok (Outside l (c # butlast ds))"
      by (intro put_at_link) (simp_all add: assms(2))
    with that False show ?thesis by (simp add: butlast_append)
  qed
  have "put_at (cs @ c # ds) f (Some (tr_root t)) = Ok (Outside l (c # ds))" for f
    by (intro put_at_link) (simp_all add: assms(2))
  with m assms(1,3,4) show ?thesis
    by (intro exI [of _ "tr_outside t @ [(l, x), (l, c # ds)]"])
      (simp add: write_record_to_def on_tree_def Let_def)
qed

end
