(* ===== verification/Repo.thy ===== *)
theory Repo
  imports Log Fork Diff Tree
begin

text \<open>
  \<open>src/src/repo.rs\<close>, the loose repository: layout, anchors, forks, the current
  state by replay, the write path with its crash points, snapshots and undo.
  Reading a fork truncates a torn log tail on disk (\<open>recover\<close>); the reads below
  return what they read, and the operations that write go through \<open>recover\<close>
  first.  The fork lock is exclusive, so each operation is one step; what a crash
  can leave of a step is \<open>apply_crash\<close> of theory \<open>WritePath\<close>.  Errors drop the repository: up to them
  only uncommitted blobs were pooled and torn bytes removed.
\<close>

record fork_dir =
  fd_file :: bytes
  fd_log :: bytes

record repo =
  rp_pool :: pool
  rp_anchors :: "(string, bytes) btree"
  rp_forks :: "(string, fork_dir) btree"
  rp_mirror :: "bytes option"
  rp_tree :: tree

record fork_state =
  fs_manifest :: manifest
  fs_sum_hex :: string
  fs_head_id :: string
  fs_lines :: "log_line list"

subsection \<open>Anchors\<close>

text \<open>Put-if-absent under the state's sum.\<close>

definition write_anchor_manifest :: "'s env \<Rightarrow> manifest \<Rightarrow> repo \<Rightarrow> string \<times> repo" where
  "write_anchor_manifest E m r =
     (let h = ss_hexdigest E (m_sum E m) in
      (h, if bt_has (rp_anchors r) h then r
          else r\<lparr>rp_anchors := bt_insert h (m_to_bytes E m) (rp_anchors r)\<rparr>))"

definition read_anchor_manifest :: "'s env \<Rightarrow> repo \<Rightarrow> string \<Rightarrow> manifest result" where
  "read_anchor_manifest E r h =
     rbind (ok_or Io (bt_get (rp_anchors r) h)) (\<lambda>bs.
     rbind (m_parse E bs) (\<lambda>m.
     if ss_hexdigest E (m_sum E m) \<noteq> h then Err Corrupt else Ok m))"

subsection \<open>Forks\<close>

definition fork_names :: "repo \<Rightarrow> string list" where
  "fork_names r = sort (bt_keys (rp_forks r))"

definition create_fork_raw :: "string \<Rightarrow> fork_file \<Rightarrow> repo \<Rightarrow> repo result" where
  "create_fork_raw name ff r =
     rbind (validate_fork_name name) (\<lambda>_.
     if bt_has (rp_forks r) name then Err Invalid else
     Ok (r\<lparr>rp_forks := bt_insert name \<lparr>fd_file = fork_to_bytes ff, fd_log = []\<rparr> (rp_forks r)\<rparr>))"

definition init_bare :: "'s env \<Rightarrow> tree \<Rightarrow> repo" where
  "init_bare E t = snd (write_anchor_manifest E m_new
     \<lparr>rp_pool = [], rp_anchors = [], rp_forks = [], rp_mirror = None, rp_tree = t\<rparr>)"

definition init :: "'s env \<Rightarrow> tree \<Rightarrow> repo result" where
  "init E t = create_fork_raw ''main'' (fork_empty E) (init_bare E t)"

definition restore_fork :: "string \<Rightarrow> fork_file \<Rightarrow> bytes \<Rightarrow> repo \<Rightarrow> repo result" where
  "restore_fork name ff log r =
     rmap (\<lambda>r. r\<lparr>rp_forks := bt_insert name \<lparr>fd_file = fork_to_bytes ff, fd_log = log\<rparr> (rp_forks r)\<rparr>)
       (create_fork_raw name ff (r\<lparr>rp_pool := blob_sync (rp_pool r)\<rparr>))"

definition log_bytes :: "repo \<Rightarrow> string \<Rightarrow> bytes result" where
  "log_bytes r fork =
     rbind (validate_fork_name fork) (\<lambda>_. rmap fd_log (ok_or Io (bt_get (rp_forks r) fork)))"

definition fork_exists :: "repo \<Rightarrow> string \<Rightarrow> bool result" where
  "fork_exists r name = rmap (\<lambda>_. bt_has (rp_forks r) name) (validate_fork_name name)"

definition read_fork :: "repo \<Rightarrow> string \<Rightarrow> fork_file result" where
  "read_fork r name =
     rbind (validate_fork_name name) (\<lambda>_.
     rbind (ok_or Invalid (bt_get (rp_forks r) name)) (\<lambda>d. fork_parse (fd_file d)))"

subsection \<open>The mirror binding\<close>

record mirror_binding =
  mb_fork :: string
  mb_branch :: string

definition mirror_line :: "string \<Rightarrow> string option \<times> string option \<Rightarrow> string option \<times> string option" where
  "mirror_line l st = (case strip_prefix ''fork '' l of
       Some v \<Rightarrow> (Some v, snd st)
     | None \<Rightarrow> (case strip_prefix ''branch '' l of
           Some v \<Rightarrow> (fst st, Some v)
         | None \<Rightarrow> st))"

definition read_mirror :: "repo \<Rightarrow> mirror_binding option result" where
  "read_mirror r = (case rp_mirror r of
       None \<Rightarrow> Ok None
     | Some bs \<Rightarrow>
         if \<not> from_utf8 bs then Err Corrupt else
         (case fold mirror_line (lines bs) (None, None) of
            (Some f, Some b) \<Rightarrow> Ok (Some \<lparr>mb_fork = f, mb_branch = b\<rparr>)
          | _ \<Rightarrow> Err Corrupt))"

definition write_mirror :: "mirror_binding \<Rightarrow> repo \<Rightarrow> repo result" where
  "write_mirror b r =
     rmap (\<lambda>_. r\<lparr>rp_mirror := Some (''fork '' @ mb_fork b @ [LF] @ ''branch '' @ mb_branch b @ [LF])\<rparr>)
       (validate_fork_name (mb_fork b))"

subsection \<open>The log and the current state\<close>

definition read_log :: "'s env \<Rightarrow> repo \<Rightarrow> string \<Rightarrow> parsed_log result" where
  "read_log E r fork =
     rbind (ok_or Io (bt_get (rp_forks r) fork)) (\<lambda>d.
       parse_log_lenient E (blob_get (rp_pool r)) (fd_log d))"

definition set_log :: "string \<Rightarrow> (bytes \<Rightarrow> bytes) \<Rightarrow> repo \<Rightarrow> repo" where
  "set_log fork f r = (case bt_get (rp_forks r) fork of
       None \<Rightarrow> r
     | Some d \<Rightarrow> r\<lparr>rp_forks := bt_insert fork (d\<lparr>fd_log := f (fd_log d)\<rparr>) (rp_forks r)\<rparr>)"

text \<open>The truncation of \<open>read_log\<close>.\<close>

definition recover :: "'s env \<Rightarrow> string \<Rightarrow> repo \<Rightarrow> repo" where
  "recover E fork r = (case read_log E r fork of
       Err _ \<Rightarrow> r
     | Ok p \<Rightarrow> set_log fork (take (pl_valid_prefix p)) r)"

text \<open>One line of the verification loop, on the previous id and the previous line's sum.\<close>

definition check_line :: "'s env \<Rightarrow> log_line \<Rightarrow> string \<times> 's option \<Rightarrow> (string \<times> 's option) result" where
  "check_line E l st = (case st of (prev, s) \<Rightarrow>
     if ll_prev l \<noteq> prev then Err Corrupt else
     rbind (case s of
         None \<Rightarrow> Ok ()
       | Some s \<Rightarrow> rbind (apply_realized_to_sum E s (ll_realized l)) (\<lambda>x.
           if ss_hexdigest E x \<noteq> ll_sum_after l then Err Corrupt else Ok ())) (\<lambda>_.
     rmap (\<lambda>s. (ll_id l, Some s)) (sum_from_hexdigest E (ll_sum_after l))))"

definition check_first :: "'s env \<Rightarrow> string \<Rightarrow> log_line list \<Rightarrow> unit result" where
  "check_first E anchor ls = (case ls of
       [] \<Rightarrow> Ok ()
     | l # _ \<Rightarrow>
         rbind (sum_from_hexdigest E anchor) (\<lambda>a.
         rbind (apply_realized_to_sum E a (ll_realized l)) (\<lambda>x.
         if ss_hexdigest E x \<noteq> ll_sum_after l then Err Corrupt else Ok ())))"

definition replay_lines :: "log_line list \<Rightarrow> manifest \<Rightarrow> manifest result" where
  "replay_lines ls m = rfold (\<lambda>l m. apply_realized_to_manifest m (ll_realized l)) ls m"

definition replay_start :: "log_line list \<Rightarrow> string \<Rightarrow> nat" where
  "replay_start ls anchor = (case last_state_position ls anchor of None \<Rightarrow> 0 | Some i \<Rightarrow> i + 1)"

text \<open>From the anchor manifest and the lines read, the state.\<close>

definition state_of_lines :: "'s env \<Rightarrow> string \<Rightarrow> manifest \<Rightarrow> log_line list \<Rightarrow> fork_state result" where
  "state_of_lines E anchor m0 ls =
     (let start = replay_start ls anchor in
      rbind (rfold (check_line E) ls ([], None)) (\<lambda>_.
      rbind (if start = 0 then check_first E anchor ls else Ok ()) (\<lambda>_.
      rbind (replay_lines (drop start ls) m0) (\<lambda>m.
      let h = ss_hexdigest E (m_sum E m) in
      if ls \<noteq> [] \<and> ll_sum_after (last ls) \<noteq> h then Err Corrupt else
      Ok \<lparr>fs_manifest = m, fs_sum_hex = h, fs_head_id = (if ls = [] then [] else ll_id (last ls)),
          fs_lines = ls\<rparr>))))"

definition current_state :: "'s env \<Rightarrow> repo \<Rightarrow> string \<Rightarrow> fork_state result" where
  "current_state E r fork =
     rbind (read_fork r fork) (\<lambda>ff.
     rbind (read_anchor_manifest E r (ff_manifest ff)) (\<lambda>m0.
     if ss_hexdigest E (m_sum E m0) \<noteq> ff_anchor ff then Err Corrupt else
     rbind (read_log E r fork) (\<lambda>p. state_of_lines E (ff_anchor ff) m0 (pl_lines p))))"

definition create_fork :: "'s env \<Rightarrow> string \<Rightarrow> string \<Rightarrow> repo \<Rightarrow> (fork_file \<times> repo) result" where
  "create_fork E name from_fork r =
     rbind (current_state E r from_fork) (\<lambda>st.
     let (h, r) = write_anchor_manifest E (fs_manifest st) (recover E from_fork r);
         ff = \<lparr>ff_anchor = h, ff_manifest = h\<rparr> in
     rmap (Pair ff) (create_fork_raw name ff r))"

definition ensure_fork :: "'s env \<Rightarrow> string \<Rightarrow> string \<Rightarrow> repo \<Rightarrow> (bool \<times> repo) result" where
  "ensure_fork E name from_fork r =
     rbind (fork_exists r name) (\<lambda>x.
     if x then Ok (False, r) else rmap (\<lambda>(_, r). (True, r)) (create_fork E name from_fork r))"

subsection \<open>Undo: the state at a sum\<close>

definition undo_entry :: "realized_entry \<Rightarrow> manifest \<Rightarrow> manifest result" where
  "undo_entry e m =
     rbind (added e) (\<lambda>a. rbind (case a of None \<Rightarrow> Ok m | Some a \<Rightarrow> m_remove a m) (\<lambda>m.
     rbind (removed e) (\<lambda>x. case x of None \<Rightarrow> Ok m | Some x \<Rightarrow> m_insert x m)))"

definition undo_lines :: "log_line list \<Rightarrow> manifest \<Rightarrow> manifest result" where
  "undo_lines ls m = rfold (\<lambda>l. rfold undo_entry (rev (ll_realized l))) (rev ls) m"

definition manifest_at :: "'s env \<Rightarrow> repo \<Rightarrow> string \<Rightarrow> string \<Rightarrow> manifest result" where
  "manifest_at E r fork sum_hex =
     rbind (read_fork r fork) (\<lambda>ff.
     rbind (current_state E r fork) (\<lambda>st.
     if fs_sum_hex st = sum_hex then Ok (fs_manifest st)
     else if ff_anchor ff = sum_hex then read_anchor_manifest E r (ff_manifest ff)
     else
       rbind (ok_or Invalid (last_state_position (fs_lines st) sum_hex)) (\<lambda>pos.
       rbind (undo_lines (drop (pos + 1) (fs_lines st)) (fs_manifest st)) (\<lambda>m.
       if ss_hexdigest E (m_sum E m) \<noteq> sum_hex then Err Corrupt else Ok m))))"

subsection \<open>Writing\<close>

definition new_line :: "string \<Rightarrow> intent \<Rightarrow> realized_entry list \<Rightarrow> string \<Rightarrow> nat \<Rightarrow> annotation \<Rightarrow> log_line" where
  "new_line prev i rz sum_after ms ann =
     \<lparr>ll_id = [], ll_prev = prev, ll_intent = i, ll_realized = rz, ll_sum_after = sum_after,
      ll_committed_ms = ms, ll_annotation = ann\<rparr>"

definition pool_blobs :: "'s env \<Rightarrow> (string \<times> bytes) list \<Rightarrow> pool \<Rightarrow> pool result" where
  "pool_blobs E bs pool = rfold (\<lambda>(h, c) pool. rmap snd (blob_put_unsynced E c pool)) bs pool"

text \<open>Best-effort refresh for one line: the first failing write ends it.\<close>

fun refresh_entries :: "pool \<Rightarrow> realized_entry list \<Rightarrow> tree \<Rightarrow> tree" where
  "refresh_entries pool [] t = t"
| "refresh_entries pool (e # es) t = (case (removed e, added e) of
       (Ok r, Ok a) \<Rightarrow> (case refresh_entry pool (r, a) t of
           (Ok _, t) \<Rightarrow> refresh_entries pool es t
         | (Err _, t) \<Rightarrow> t)
     | _ \<Rightarrow> t)"

definition refresh_working_tree :: "log_line \<Rightarrow> repo \<Rightarrow> repo" where
  "refresh_working_tree l r = r\<lparr>rp_tree := refresh_entries (rp_pool r) (ll_realized l) (rp_tree r)\<rparr>"

text \<open>
  Everything before the append: the sealed bytes, the line, and the pool with the
  line's blobs, synced.  The clock is the argument \<open>now\<close>.
\<close>

definition prepare_apply ::
  "'s env \<Rightarrow> nat \<Rightarrow> string \<Rightarrow> intent \<Rightarrow> annotation \<Rightarrow> repo \<Rightarrow> (bytes \<times> log_line \<times> pool) result" where
  "prepare_apply E now fork i ann r =
     rbind (ok_or Io (bt_get (rp_forks r) fork)) (\<lambda>_.
     rbind (current_state E r fork) (\<lambda>st.
     rbind (apply_intent E i (fs_manifest st) (rp_pool r)) (\<lambda>(m, rz).
     rbind (pool_blobs E (new_blobs rz) (rp_pool r)) (\<lambda>pool.
     rbind (apply_realized_to_sum E (m_sum E (fs_manifest st)) (realized rz)) (\<lambda>s.
     seal E now (new_line (fs_head_id st) i (realized rz) (ss_hexdigest E s) 0 ann) pool)))))"

definition append_log :: "string \<Rightarrow> bytes \<Rightarrow> repo \<Rightarrow> repo" where
  "append_log fork bs r = set_log fork (\<lambda>log. log @ bs) r"

definition with_pool :: "pool \<Rightarrow> repo \<Rightarrow> repo" where
  "with_pool pool r = r\<lparr>rp_pool := pool\<rparr>"

definition apply_inner ::
  "'s env \<Rightarrow> nat \<Rightarrow> string \<Rightarrow> intent \<Rightarrow> annotation \<Rightarrow> bool \<Rightarrow> repo \<Rightarrow> (log_line \<times> repo) result" where
  "apply_inner E now fork i ann refresh r =
     rmap (\<lambda>(bs, l, pool).
         let r = append_log fork bs (with_pool (blob_sync pool) (recover E fork r)) in
         (l, if refresh then refresh_working_tree l r else r))
       (prepare_apply E now fork i ann r)"

definition repo_apply :: "'s env \<Rightarrow> nat \<Rightarrow> string \<Rightarrow> intent \<Rightarrow> annotation \<Rightarrow> repo \<Rightarrow> (log_line \<times> repo) result" where
  "repo_apply E now fork i ann r = apply_inner E now fork i ann True r"

definition record_observed ::
  "'s env \<Rightarrow> nat \<Rightarrow> string \<Rightarrow> intent \<Rightarrow> annotation \<Rightarrow> repo \<Rightarrow> (log_line \<times> repo) result" where
  "record_observed E now fork i ann r = apply_inner E now fork i ann False r"

text \<open>Every added record's blob is in the pool.\<close>

definition blobs_present :: "pool \<Rightarrow> realized_entry list \<Rightarrow> unit result" where
  "blobs_present pool es = rfold (\<lambda>e _.
     rbind (added e) (\<lambda>a. case a of
         None \<Rightarrow> Ok ()
       | Some a \<Rightarrow> rbind (blob_has pool (er_blob a)) (\<lambda>b. if b then Ok () else Err Precondition))) es ()"

definition apply_realized ::
  "'s env \<Rightarrow> nat \<Rightarrow> string \<Rightarrow> intent \<Rightarrow> realized_entry list \<Rightarrow> annotation \<Rightarrow> repo \<Rightarrow> (log_line \<times> repo) result" where
  "apply_realized E now fork i es ann r =
     rbind (ok_or Io (bt_get (rp_forks r) fork)) (\<lambda>_.
     rbind (current_state E r fork) (\<lambda>st.
     rbind (apply_realized_to_manifest (fs_manifest st) es) (\<lambda>_.
     rbind (blobs_present (rp_pool r) es) (\<lambda>_.
     rbind (apply_realized_to_sum E (m_sum E (fs_manifest st)) es) (\<lambda>s.
     rmap (\<lambda>(bs, l, pool).
         (l, refresh_working_tree l (append_log fork bs (with_pool (blob_sync pool) (recover E fork r)))))
       (seal E now (new_line (fs_head_id st) i es (ss_hexdigest E s) 0 ann) (rp_pool r)))))))"

end
