(* ===== verification/State.thy ===== *)
theory State
  imports Replay
begin

text \<open>
  The state a fork's lines replay to: what \<open>current_state\<close> of \<open>src/src/repo.rs\<close>
  establishes of a state it accepts, how one more line extends it, and with that the
  write path: an applied intent is the next line and moves the state to what the
  intent computes, and a crash anywhere in it leaves the old state or the new one.
\<close>

subsection \<open>What an accepted state satisfies\<close>

text \<open>Linked by ids, summed up to the head.\<close>

definition lines_linked :: "log_line list \<Rightarrow> bool" where
  "lines_linked ls \<longleftrightarrow>
     (\<forall>i < length ls. ll_prev (ls ! i) = (if i = 0 then [] else ll_id (ls ! (i - 1))))"

definition head_of :: "log_line list \<Rightarrow> string" where
  "head_of ls = (if ls = [] then [] else ll_id (last ls))"

definition state_ok :: "'s env \<Rightarrow> fork_state \<Rightarrow> bool" where
  "state_ok E st \<longleftrightarrow> m_ok (fs_manifest st) \<and> fs_sum_hex st = ss_hexdigest E (m_sum E (fs_manifest st)) \<and>
     fs_head_id st = head_of (fs_lines st) \<and> lines_linked (fs_lines st) \<and>
     (fs_lines st \<noteq> [] \<longrightarrow> ll_sum_after (last (fs_lines st)) = fs_sum_hex st)"

lemma head_of_simps [simp]: "head_of [] = []" "head_of (ls @ [l]) = ll_id l"
  by (simp_all add: head_of_def)

lemma lines_linked_snoc: "lines_linked (ls @ [l]) \<longleftrightarrow> lines_linked ls \<and> ll_prev l = head_of ls"
proof -
  have "ls ! (length ls - 1) = last ls" if "ls \<noteq> []" using that by (simp add: last_conv_nth)
  then show ?thesis
    unfolding lines_linked_def head_of_def
    by (auto simp: nth_append less_Suc_eq all_conj_distrib)
qed

lemma lines_linked_Nil [simp]: "lines_linked []"
  by (simp add: lines_linked_def)

text \<open>The verification loop carries the last id and the last line's sum.\<close>

lemma check_lines_Ok:
  "rfold (check_line E) ls ([], None) = Ok st \<Longrightarrow> lines_linked ls \<and> fst st = head_of ls \<and>
    (if ls = [] then snd st = None
     else \<exists>s. snd st = Some s \<and> sum_from_hexdigest E (ll_sum_after (last ls)) = Ok s)"
proof (induction ls arbitrary: st rule: rev_induct)
  case (snoc l ls)
  then obtain st1 where 1: "rfold (check_line E) ls ([], None) = Ok st1" "check_line E l st1 = Ok st"
    by (auto simp: rfold_append)
  from snoc.IH [OF 1(1)] 1(2) show ?case
    by (cases st1) (auto simp: check_line_def lines_linked_snoc split: if_splits)
qed simp

lemma replay_lines_ok: "replay_lines ls m = Ok m' \<Longrightarrow> m_ok m \<Longrightarrow> m_ok m'"
  unfolding replay_lines_def by (erule rfold_invariant) (auto intro: apply_realized_ok)

lemma state_of_lines_Ok:
  assumes "state_of_lines E anchor m0 ls = Ok st" "m_ok m0"
  shows "state_ok E st \<and> fs_lines st = ls \<and> replay_lines (drop (replay_start ls anchor) ls) m0 = Ok (fs_manifest st)"
proof -
  from assms(1) obtain c m where c: "rfold (check_line E) ls ([], None) = Ok c"
    and m: "replay_lines (drop (replay_start ls anchor) ls) m0 = Ok m"
    and last: "ls \<noteq> [] \<longrightarrow> ll_sum_after (last ls) = ss_hexdigest E (m_sum E m)"
    and st: "st = \<lparr>fs_manifest = m, fs_sum_hex = ss_hexdigest E (m_sum E m),
        fs_head_id = (if ls = [] then [] else ll_id (last ls)), fs_lines = ls\<rparr>"
    by (auto simp: state_of_lines_def Let_def split: if_splits)
  from check_lines_Ok [OF c] replay_lines_ok [OF m assms(2)] m last show ?thesis
    by (simp add: st state_ok_def head_of_def)
qed

text \<open>A state that is read: the fork's file, its anchor, its lines.\<close>

lemma current_state_iff:
  "current_state E r fork = Ok st \<longleftrightarrow> (\<exists>ff m0 p. read_fork r fork = Ok ff \<and>
     read_anchor_manifest E r (ff_manifest ff) = Ok m0 \<and> ss_hexdigest E (m_sum E m0) = ff_anchor ff \<and>
     read_log E r fork = Ok p \<and> state_of_lines E (ff_anchor ff) m0 (pl_lines p) = Ok st)"
  by (auto simp: current_state_def split: if_splits)

subsection \<open>One more line\<close>

lemma rposition_snoc: "rposition P (xs @ [x]) = (if P x then Some (length xs) else rposition P xs)"
proof -
  have "position P (rev xs) = Some k \<Longrightarrow> k < length xs" for k
    using position_SomeD [of P "rev xs" k] by simp
  then show ?thesis by (cases "position P (rev xs)") (auto simp: rposition_def)
qed

lemma replay_start_snoc:
  "replay_start (ls @ [l]) anchor =
     (if ll_sum_after l = anchor then Suc (length ls) else replay_start ls anchor)"
  by (simp add: replay_start_def last_state_position_def rposition_snoc)

lemma replay_start_le: "replay_start ls anchor \<le> length ls"
  by (auto simp: replay_start_def last_state_position_def Suc_le_eq dest!: rposition_SomeD split: option.splits)

lemma rbind_Inr [simp]: "rbind r Inr = r"
  by (cases r) auto

lemma replay_lines_snoc: "replay_lines (ls @ [l]) m =
    rbind (replay_lines ls m) (\<lambda>m. apply_realized_to_manifest m (ll_realized l))"
  by (simp add: replay_lines_def rfold_append rfold_eta)

context setsum
begin

lemma read_anchor_Ok:
  "read_anchor_manifest E r h = Ok m \<Longrightarrow> m_ok m \<and> ss_hexdigest E (m_sum E m) = h"
  using m_parse_sound by (fastforce simp: read_anchor_manifest_def split: if_splits)

lemma current_state_ok: "current_state E r fork = Ok st \<Longrightarrow> state_ok E st"
  using state_of_lines_Ok read_anchor_Ok unfolding current_state_iff by blast

lemma sum_from_rendered [simp]: "sum_from_hexdigest E (ss_hexdigest E a) = Ok a"
  by (simp add: sum_from_hexdigest_def)

end

text \<open>
  The line a state accepts next.  When it returns to the anchor's sum, later replays
  start at the anchor manifest, a state of the same sum.
\<close>

definition extended :: "string \<Rightarrow> manifest \<Rightarrow> fork_state \<Rightarrow> log_line \<Rightarrow> manifest \<Rightarrow> fork_state" where
  "extended anchor m0 st l m' =
     \<lparr>fs_manifest = (if ll_sum_after l = anchor then m0 else m'), fs_sum_hex = ll_sum_after l,
      fs_head_id = ll_id l, fs_lines = fs_lines st @ [l]\<rparr>"

context setsum
begin

lemma state_of_lines_snoc:
  assumes st: "state_of_lines E anchor m0 ls = Ok st" and m0: "m_ok m0" "ss_hexdigest E (m_sum E m0) = anchor"
    and m': "apply_realized_to_manifest (fs_manifest st) (ll_realized l) = Ok m'"
    and l: "ll_prev l = fs_head_id st" "ll_sum_after l = ss_hexdigest E (m_sum E m')"
  shows "state_of_lines E anchor m0 (ls @ [l]) = Ok (extended anchor m0 st l m')"
proof -
  have ok: "state_ok E st" and lns: "fs_lines st = ls"
    and rp: "replay_lines (drop (replay_start ls anchor) ls) m0 = Ok (fs_manifest st)"
    using state_of_lines_Ok [OF st m0(1)] by auto
  have sum: "apply_realized_to_sum E (m_sum E (fs_manifest st)) (ll_realized l) = Ok (m_sum E m')"
    using realized_sum [OF _ m'] ok by (simp add: state_ok_def)
  from st obtain c where c: "rfold (check_line E) ls ([], None) = Ok c"
    by (auto simp: state_of_lines_def Let_def)
  have "fst c = ll_prev l \<and> (snd c = None \<or> snd c = Some (m_sum E (fs_manifest st)))"
    using check_lines_Ok [OF c] ok l(1) by (auto simp: state_ok_def lns split: if_splits)
  then have chk: "rfold (check_line E) (ls @ [l]) ([], None) = Ok (ll_id l, Some (m_sum E m'))"
    using sum l(2) by (cases c) (auto simp: rfold_append c check_line_def)
  have first: "check_first E anchor (ls @ [l]) = Ok ()" if "replay_start (ls @ [l]) anchor = 0"
  proof (cases ls)
    case Nil
    with rp have "fs_manifest st = m0" by (simp add: replay_lines_def)
    with sum l(2) show ?thesis by (simp add: Nil check_first_def m0(2) [symmetric])
  next
    case (Cons k ks)
    have "replay_start ls anchor = 0" using that by (simp add: replay_start_snoc split: if_splits)
    with st show ?thesis by (auto simp: state_of_lines_def Let_def check_first_def Cons split: if_splits)
  qed
  have rp': "replay_lines (drop (replay_start (ls @ [l]) anchor) (ls @ [l])) m0 =
      Ok (if ll_sum_after l = anchor then m0 else m')"
    using rp m' replay_start_le [of ls anchor]
    by (simp add: replay_start_snoc replay_lines_snoc) (simp add: replay_lines_def)
  have h: "ss_hexdigest E (m_sum E (if ll_sum_after l = anchor then m0 else m')) = ll_sum_after l"
    using l(2) m0(2) by (simp del: hexdigest_inj)
  show ?thesis
    unfolding state_of_lines_def Let_def chk rp' rbind.simps h
    using first by (simp add: extended_def lns l(2))
qed

end

end
