(* ===== verification/History.thy ===== *)
theory History
  imports State
begin

text \<open>
  Past states: replayed lines are undone by their inverses, so \<open>manifest_at\<close> of
  \<open>src/src/repo.rs\<close> finds every state a fork passed through, before and after a
  snapshot moved the anchor; and \<open>snapshot\<close> itself, which changes where the replay
  starts and nothing else.
\<close>

subsection \<open>Undoing lines\<close>

lemma undo_entry_Ok: "undo_entry e m = Ok m' \<longleftrightarrow> entry_to_manifest (swap_entry e) m = Ok m'"
  unfolding entry_to_manifest_Ok by (auto simp: undo_entry_def remove_side_def insert_side_def)

lemma undo_entries_Ok:
  "rfold undo_entry (rev es) m = Ok m' \<longleftrightarrow> apply_realized_to_manifest m (inverse_realized es) = Ok m'"
proof -
  have "rfold undo_entry fs m = Ok m' \<longleftrightarrow> rfold entry_to_manifest (map swap_entry fs) m = Ok m'" for fs
    by (induction fs arbitrary: m) (auto simp: undo_entry_Ok)
  then show ?thesis by (simp add: apply_realized_to_manifest_def inverse_realized_def rev_map)
qed

lemma replay_lines_realized: "replay_lines ls m = apply_realized_to_manifest m (concat (map ll_realized ls))"
proof (induction ls arbitrary: m)
  case (Cons l ls)
  have "replay_lines (l # ls) m = rbind (apply_realized_to_manifest m (ll_realized l)) (replay_lines ls)"
    by (simp add: replay_lines_def [abs_def])
  with Cons show ?case
    by (cases "apply_realized_to_manifest m (ll_realized l)") (simp_all add: apply_realized_append)
qed (simp add: replay_lines_def)

lemma undo_lines_Ok:
  "undo_lines ls m = Ok m' \<longleftrightarrow> apply_realized_to_manifest m (inverse_realized (concat (map ll_realized ls))) = Ok m'"
proof (induction ls arbitrary: m')
  case (Cons l ls)
  have "undo_lines (l # ls) m = rbind (undo_lines ls m) (rfold undo_entry (rev (ll_realized l)))"
    by (simp add: undo_lines_def rfold_append rfold_eta)
  moreover have "inverse_realized (concat (map ll_realized (l # ls))) =
      inverse_realized (concat (map ll_realized ls)) @ inverse_realized (ll_realized l)"
    by (simp add: inverse_realized_def)
  ultimately show ?case by (simp add: Cons.IH undo_entries_Ok apply_realized_append)
qed (simp add: undo_lines_def)

text \<open>The round trip.\<close>

lemma replay_undo: "m_ok m \<Longrightarrow> replay_lines ls m = Ok m' \<Longrightarrow> undo_lines ls m' = Ok m"
  unfolding undo_lines_Ok replay_lines_realized by (rule realized_inverse)

lemma replay_lines_append: "replay_lines (ls @ us) m = rbind (replay_lines ls m) (replay_lines us)"
  by (simp add: replay_lines_def rfold_append) (simp add: replay_lines_def [abs_def])

subsection \<open>Every past state is found\<close>

text \<open>A fork's history: its lines verify and replay from the state it was created at.\<close>

definition history_from :: "'s env \<Rightarrow> manifest \<Rightarrow> fork_state \<Rightarrow> bool" where
  "history_from E m0 st \<longleftrightarrow> m_ok m0 \<and> (\<exists>s. verify_chain E (m_sum E m0) (fs_lines st) = Ok s) \<and>
     replay_lines (fs_lines st) m0 = Ok (fs_manifest st)"

context setsum
begin

lemma history_prefix:
  assumes "history_from E m0 st" "k < length (fs_lines st)"
  shows "\<exists>m. replay_lines (take (Suc k) (fs_lines st)) m0 = Ok m \<and> m_ok m \<and>
    undo_lines (drop (Suc k) (fs_lines st)) (fs_manifest st) = Ok m \<and>
    ss_hexdigest E (m_sum E m) = ll_sum_after (fs_lines st ! k)"
proof -
  let ?ls = "fs_lines st"
  from assms(1) obtain s where m0: "m_ok m0" and s: "verify_chain E (m_sum E m0) ?ls = Ok s"
    and rp: "replay_lines (take (Suc k) ?ls @ drop (Suc k) ?ls) m0 = Ok (fs_manifest st)"
    by (auto simp: history_from_def)
  then obtain m where m: "replay_lines (take (Suc k) ?ls) m0 = Ok m"
    "replay_lines (drop (Suc k) ?ls) m = Ok (fs_manifest st)"
    unfolding replay_lines_append by auto
  have ok: "m_ok m" by (rule replay_lines_ok [OF m(1) m0])
  from verify_chain_line [OF s assms(2)] obtain s' where
    s': "verify_chain E (m_sum E m0) (take (Suc k) ?ls) = Ok s'" "ss_hexdigest E s' = ll_sum_after (?ls ! k)"
    by blast
  have "s' = m_sum E m"
    using verify_chain_state [OF s'(1) m0] m(1) by (simp add: replay_lines_realized)
  with m ok s'(2) replay_undo [OF ok m(2)] show ?thesis by blast
qed

lemma manifest_at_history:
  assumes st: "current_state E r fork = Ok st" and ff: "read_fork r fork = Ok ff"
    and h: "history_from E m0 st" and k: "last_state_position (fs_lines st) sum_hex = Some k"
    and ne: "sum_hex \<noteq> ff_anchor ff"
  shows "\<exists>m. manifest_at E r fork sum_hex = Ok m \<and> replay_lines (take (Suc k) (fs_lines st)) m0 = Ok m \<and>
    ss_hexdigest E (m_sum E m) = sum_hex"
proof -
  have kl: "k < length (fs_lines st)" "ll_sum_after (fs_lines st ! k) = sum_hex"
    and later: "\<And>j. k < j \<Longrightarrow> j < length (fs_lines st) \<Longrightarrow> ll_sum_after (fs_lines st ! j) \<noteq> sum_hex"
    using rposition_SomeD [of "\<lambda>l. ll_sum_after l = sum_hex" "fs_lines st" k] k
    by (auto simp: last_state_position_def)
  from history_prefix [OF h kl(1)] obtain m where
    m: "replay_lines (take (Suc k) (fs_lines st)) m0 = Ok m" "ss_hexdigest E (m_sum E m) = sum_hex"
    "undo_lines (drop (Suc k) (fs_lines st)) (fs_manifest st) = Ok m" using kl(2) by auto
  show ?thesis
  proof (cases "fs_sum_hex st = sum_hex")
    case True
    have ok: "state_ok E st" by (rule current_state_ok [OF st])
    have "fs_lines st \<noteq> []" using kl(1) by auto
    with ok True have "ll_sum_after (fs_lines st ! (length (fs_lines st) - 1)) = sum_hex"
      by (simp add: state_ok_def last_conv_nth)
    with later [of "length (fs_lines st) - 1"] kl(1) have "k = length (fs_lines st) - 1"
      by (cases "k < length (fs_lines st) - 1") auto
    with h m(1) kl(1) have "m = fs_manifest st" by (simp add: history_from_def)
    with True m st ff show ?thesis by (auto simp: manifest_at_def)
  next
    case False
    with m st ff k ne show ?thesis by (auto simp: manifest_at_def)
  qed
qed

text \<open>While the anchor is where the history starts, an accepted state has that history.\<close>

lemma state_history:
  assumes st: "state_of_lines E anchor m0 ls = Ok st" and m0: "m_ok m0" "ss_hexdigest E (m_sum E m0) = anchor"
    and start: "replay_start ls anchor = 0"
  shows "history_from E m0 st"
proof -
  note s = state_of_lines_Ok [OF st m0(1)]
  have lns: "fs_lines st = ls" and rp: "replay_lines ls m0 = Ok (fs_manifest st)" using s start by auto
  obtain c where c: "rfold (check_line E) ls ([], None) = Ok c" and first: "check_first E anchor ls = Ok ()"
    using st start by (auto simp: state_of_lines_def Let_def)
  have "\<exists>s. verify_chain E (m_sum E m0) (take n ls) = Ok s \<and>
    (n \<noteq> 0 \<longrightarrow> ss_hexdigest E s = ll_sum_after (ls ! (n - 1)))" if "n \<le> length ls" for n
    using that
  proof (induction n)
    case (Suc n)
    then obtain s1 where s1: "verify_chain E (m_sum E m0) (take n ls) = Ok s1"
      "n \<noteq> 0 \<longrightarrow> ss_hexdigest E s1 = ll_sum_after (ls ! (n - 1))" by auto
    let ?l = "ls ! n"
    have split: "ls = take n ls @ ?l # drop (Suc n) ls" using Suc.prems by (simp add: id_take_nth_drop)
    have "rfold (check_line E) (take n ls @ ?l # drop (Suc n) ls) ([], None) = Ok c"
      using c split by simp
    then obtain c1 c2 where c1: "rfold (check_line E) (take n ls) ([], None) = Ok c1" "check_line E ?l c1 = Ok c2"
      by (auto simp: rfold_append)
    have "fst c1 = head_of (take n ls)" using check_lines_Ok [OF c1(1)] by simp
    then have prev: "ll_prev ?l = head_of (take n ls)"
      using c1(2) by (cases c1) (auto simp: check_line_def split: if_splits)
    have "\<exists>x. apply_realized_to_sum E s1 (ll_realized ?l) = Ok x \<and> ss_hexdigest E x = ll_sum_after ?l"
    proof (cases "n = 0")
      case True
      then obtain us where "ls = ?l # us" using Suc.prems by (cases ls) auto
      with first have "check_first E anchor (?l # us) = Ok ()" by simp
      moreover have "s1 = m_sum E m0" using s1(1) True by simp
      ultimately show ?thesis by (auto simp: check_first_def m0(2) [symmetric] split: if_splits)
    next
      case False
      then have "last (take n ls) = ls ! (n - 1)" "take n ls \<noteq> []"
        using Suc.prems last_take_nth [of "n - 1" ls] by auto
      moreover have "sum_from_hexdigest E (ll_sum_after (ls ! (n - 1))) = Ok s1"
        using s1(2) False sum_from_rendered [of s1] by simp
      ultimately have "snd c1 = Some s1" using check_lines_Ok [OF c1(1)] by auto
      with c1(2) show ?thesis by (cases c1) (auto simp: check_line_def split: if_splits)
    qed
    with s1(1) prev Suc.prems show ?case
      by (auto simp: take_Suc_conv_app_nth verify_chain_snoc head_of_def)
  qed (simp)
  from this [of "length ls"] rp m0(1) lns show ?thesis by (auto simp: history_from_def)
qed

text \<open>Anchored at its own state, a fork replays nothing and has the same state.\<close>

lemma state_at_anchor:
  assumes st: "state_of_lines E anchor m0 ls = Ok st" and m0: "m_ok m0"
  shows "state_of_lines E (fs_sum_hex st) (fs_manifest st) ls = Ok st"
proof -
  note s = state_of_lines_Ok [OF st m0]
  from st obtain c where c: "rfold (check_line E) ls ([], None) = Ok c"
    by (auto simp: state_of_lines_def Let_def)
  have start: "replay_start ls (fs_sum_hex st) = length ls"
  proof (cases ls rule: rev_cases)
    case (snoc us u)
    with s have "ll_sum_after u = fs_sum_hex st" by (auto simp: state_ok_def)
    then show ?thesis by (simp add: snoc replay_start_snoc)
  qed (simp add: replay_start_def last_state_position_def rposition_def)
  have st': "st = \<lparr>fs_manifest = fs_manifest st, fs_sum_hex = ss_hexdigest E (m_sum E (fs_manifest st)),
      fs_head_id = (if ls = [] then [] else ll_id (last ls)), fs_lines = ls\<rparr>"
    using s by (cases st) (simp add: state_ok_def head_of_def)
  have last: "ls \<noteq> [] \<longrightarrow> ll_sum_after (last ls) = ss_hexdigest E (m_sum E (fs_manifest st))"
    using s by (auto simp: state_ok_def)
  show ?thesis
    unfolding state_of_lines_def Let_def start c
    using last by (simp add: replay_lines_def check_first_def st' [symmetric])
qed

end

subsection \<open>Snapshots\<close>

text \<open>The current state becomes the anchor; the log stays.\<close>

definition snapshot :: "'s env \<Rightarrow> string \<Rightarrow> repo \<Rightarrow> (string \<times> repo) result" where
  "snapshot E fork r =
     rbind (ok_or Io (bt_get (rp_forks r) fork)) (\<lambda>_.
     rbind (current_state E r fork) (\<lambda>st.
     let (h, r) = write_anchor_manifest E (fs_manifest st) (recover E fork r) in
     rmap (\<lambda>d. (h, r\<lparr>rp_forks := bt_insert fork
         (d\<lparr>fd_file := fork_to_bytes \<lparr>ff_anchor = h, ff_manifest = h\<rparr>\<rparr>) (rp_forks r)\<rparr>))
       (ok_or Io (bt_get (rp_forks r) fork))))"

text \<open>
  Anchors are put if absent under their sum: the one found must be the one meant.
\<close>

definition anchor_free :: "'s env \<Rightarrow> manifest \<Rightarrow> repo \<Rightarrow> bool" where
  "anchor_free E m r \<longleftrightarrow> m_utf8 m \<and>
     (\<forall>bs. bt_get (rp_anchors r) (ss_hexdigest E (m_sum E m)) = Some bs \<longrightarrow> m_parse E bs = Ok m)"

context setsum
begin

lemma write_anchor_reads:
  assumes "m_ok m" "anchor_free E m r" "bt_ok (rp_anchors r)" "write_anchor_manifest E m r = (h, r')"
  shows "h = ss_hexdigest E (m_sum E m) \<and> read_anchor_manifest E r' h = Ok m \<and> bt_ok (rp_anchors r') \<and>
    rp_pool r' = rp_pool r \<and> rp_forks r' = rp_forks r \<and>
    (\<forall>k bs. bt_get (rp_anchors r) k = Some bs \<longrightarrow> bt_get (rp_anchors r') k = Some bs)"
proof (cases "bt_get (rp_anchors r) (ss_hexdigest E (m_sum E m))")
  case None
  with assms show ?thesis
    by (auto simp: write_anchor_manifest_def Let_def bt_has_def read_anchor_manifest_def anchor_free_def
        bt_get_insert m_parse_to_bytes bt_ok_insert)
next
  case (Some bs)
  with assms show ?thesis
    by (auto simp: write_anchor_manifest_def Let_def bt_has_def read_anchor_manifest_def anchor_free_def)
qed

lemma recovered_log:
  assumes "current_state E r fork = Ok st" "bt_ok (rp_forks r)"
  shows "\<exists>d p. bt_get (rp_forks r) fork = Some d \<and> read_log E r fork = Ok p \<and>
    recover E fork r = r\<lparr>rp_forks := bt_insert fork (d\<lparr>fd_log := take (pl_valid_prefix p) (fd_log d)\<rparr>) (rp_forks r)\<rparr> \<and>
    (\<exists>n. parse_log_lenient E (blob_get (rp_pool r)) (take (pl_valid_prefix p) (fd_log d)) =
       Ok \<lparr>pl_lines = pl_lines p, pl_valid_prefix = n\<rparr>)"
proof -
  from assms(1) obtain p where p: "read_log E r fork = Ok p" unfolding current_state_iff by blast
  then obtain d where d: "bt_get (rp_forks r) fork = Some d"
    "parse_log_lenient E (blob_get (rp_pool r)) (fd_log d) = Ok p" by (auto simp: read_log_def)
  from read_appended(1) [OF d(2) pool_le_refl, of "[]"] obtain n where
    "parse_log_lenient E (blob_get (rp_pool r)) (take (pl_valid_prefix p) (fd_log d)) =
       Ok \<lparr>pl_lines = pl_lines p, pl_valid_prefix = n\<rparr>" by auto
  with p d show ?thesis by (auto simp: recover_def set_log_def)
qed

lemma snapshot_keeps_state:
  assumes sn: "snapshot E fork r = Ok (h, r')" and st: "current_state E r fork = Ok st"
    and ok: "bt_ok (rp_forks r)" "bt_ok (rp_anchors r)" "anchor_free E (fs_manifest st) r"
  shows "h = fs_sum_hex st \<and> current_state E r' fork = Ok st \<and>
    read_fork r' fork = Ok \<lparr>ff_anchor = h, ff_manifest = h\<rparr>"
proof -
  from recovered_log [OF st ok(1)] obtain d p n where d: "bt_get (rp_forks r) fork = Some d"
    "read_log E r fork = Ok p"
    and rc: "recover E fork r = r\<lparr>rp_forks := bt_insert fork (d\<lparr>fd_log := take (pl_valid_prefix p) (fd_log d)\<rparr>) (rp_forks r)\<rparr>"
    and log: "parse_log_lenient E (blob_get (rp_pool r)) (take (pl_valid_prefix p) (fd_log d)) =
       Ok \<lparr>pl_lines = pl_lines p, pl_valid_prefix = n\<rparr>" by blast
  have so: "state_ok E st" by (rule current_state_ok [OF st])
  obtain h1 r1 where w: "write_anchor_manifest E (fs_manifest st) (recover E fork r) = (h1, r1)" by force
  have "anchor_free E (fs_manifest st) (recover E fork r)" "bt_ok (rp_anchors (recover E fork r))"
    using ok by (simp_all add: rc anchor_free_def)
  from write_anchor_reads [OF _ this w] so have r1: "h1 = fs_sum_hex st" "read_anchor_manifest E r1 h1 = Ok (fs_manifest st)"
    "rp_pool r1 = rp_pool r" "rp_forks r1 = rp_forks (recover E fork r)"
    by (auto simp: state_ok_def rc)
  have f1: "bt_get (rp_forks r1) fork = Some (d\<lparr>fd_log := take (pl_valid_prefix p) (fd_log d)\<rparr>)"
    by (simp add: r1(4) rc bt_get_insert ok(1))
  have b1: "bt_ok (rp_forks r1)" by (simp add: r1(4) rc bt_ok_insert ok(1))
  let ?d = "d\<lparr>fd_log := take (pl_valid_prefix p) (fd_log d), fd_file := fork_to_bytes \<lparr>ff_anchor = h1, ff_manifest = h1\<rparr>\<rparr>"
  have r': "h = h1" "r' = r1\<lparr>rp_forks := bt_insert fork ?d (rp_forks r1)\<rparr>"
    using sn st d(1) w f1 by (auto simp: snapshot_def)
  from st obtain ff m0 where c: "read_fork r fork = Ok ff" "read_anchor_manifest E r (ff_manifest ff) = Ok m0"
    "state_of_lines E (ff_anchor ff) m0 (pl_lines p) = Ok st"
    using d(2) unfolding current_state_iff by auto
  have "fork_valid \<lparr>ff_anchor = h1, ff_manifest = h1\<rparr>"
    using so r1(1) by (simp add: fork_valid_def state_ok_def)
  then have rf: "read_fork r' fork = Ok \<lparr>ff_anchor = h1, ff_manifest = h1\<rparr>"
    using c(1) by (auto simp: read_fork_def r'(2) bt_get_insert b1 fork_parse_bytes)
  moreover have "read_log E r' fork = Ok \<lparr>pl_lines = pl_lines p, pl_valid_prefix = n\<rparr>"
    using log by (simp add: read_log_def r'(2) bt_get_insert b1 r1(3))
  moreover have "read_anchor_manifest E r' h1 = Ok (fs_manifest st)"
    using r1(2) by (simp add: read_anchor_manifest_def r'(2))
  moreover have "state_of_lines E h1 (fs_manifest st) (pl_lines p) = Ok st"
    using state_at_anchor [OF c(3)] read_anchor_Ok [OF c(2)] r1(1) by simp
  ultimately have "current_state E r' fork = Ok st"
    unfolding current_state_iff using so r1(1) by (auto simp: state_ok_def)
  with rf r'(1) r1(1) show ?thesis by simp
qed

end

end
