(* ===== verification/Collect.thy ===== *)
theory Collect
  imports History
begin

text \<open>
  Garbage collection of \<open>src/src/repo.rs\<close>: the blobs some fork reaches, and the removal
  of the others.  The truncations of torn log tails its reads perform change nothing
  that is read and are left out.  Main result: a collection changes no fork's state
  and keeps the blobs of every state replayed from its anchor.
\<close>

definition reads_ref :: "annotation \<Rightarrow> string list" where
  "reads_ref a = (case an_reads a of
       Some v \<Rightarrow> (case Option.bind (json_get v ''reads_blob'') as_str of Some h \<Rightarrow> [h] | None \<Rightarrow> [])
     | None \<Rightarrow> [])"

definition line_refs :: "log_line \<Rightarrow> string bset \<Rightarrow> string bset result" where
  "line_refs l refs =
     rmap (\<lambda>refs. bs_extend (reads_ref (ll_annotation l))
         (case an_sig (ll_annotation l) of Some s \<Rightarrow> bs_insert s refs | None \<Rightarrow> refs))
       (rfold (\<lambda>e refs. rmap (\<lambda>a. case a of Some r \<Rightarrow> bs_insert (er_blob r) refs | None \<Rightarrow> refs) (added e))
          (ll_realized l) refs)"

definition fork_refs :: "'s env \<Rightarrow> repo \<Rightarrow> string \<Rightarrow> string bset \<Rightarrow> string bset result" where
  "fork_refs E r fork refs =
     rbind (read_fork r fork) (\<lambda>ff.
     rbind (read_anchor_manifest E r (ff_manifest ff)) (\<lambda>m.
     rbind (log_bytes r fork) (\<lambda>bs.
     rbind (current_state E r fork) (\<lambda>st.
     rfold line_refs (fs_lines st)
       (bs_extend (line_blob_refs E bs) (bs_extend (map er_blob (records m)) refs))))))"

definition referenced_blobs :: "'s env \<Rightarrow> repo \<Rightarrow> string bset result" where
  "referenced_blobs E r = rfold (fork_refs E r) (fork_names r) []"

definition gc_step :: "bool \<Rightarrow> string bset \<Rightarrow> string \<Rightarrow> string list \<times> pool \<Rightarrow> (string list \<times> pool) result" where
  "gc_step dry_run refs h st = (case st of (collected, pool) \<Rightarrow>
     if h \<in> set refs then Ok (collected, pool) else
     rmap (Pair (collected @ [h])) (if dry_run then Ok pool else blob_remove h pool))"

definition gc_blobs :: "'s env \<Rightarrow> bool \<Rightarrow> repo \<Rightarrow> (string list \<times> repo) result" where
  "gc_blobs E dry_run r =
     rbind (referenced_blobs E r) (\<lambda>refs.
     rmap (\<lambda>(collected, pool). (collected, r\<lparr>rp_pool := pool\<rparr>))
       (rfold (gc_step dry_run refs) (blob_list (rp_pool r)) ([], rp_pool r)))"

subsection \<open>What is referenced\<close>

lemma line_refs_grow:
  "line_refs l refs = Ok refs' \<Longrightarrow> set refs \<subseteq> set refs' \<and>
     (\<forall>e \<in> set (ll_realized l). \<forall>x. added e = Ok (Some x) \<longrightarrow> er_blob x \<in> set refs')"
proof -
  let ?f = "\<lambda>e refs. rmap (\<lambda>a. case a of Some r \<Rightarrow> bs_insert (er_blob r) refs | None \<Rightarrow> refs) (added e)"
  have run: "rfold ?f es refs = Ok refs' \<Longrightarrow> set refs \<subseteq> set refs' \<and>
     (\<forall>e \<in> set es. \<forall>x. added e = Ok (Some x) \<longrightarrow> er_blob x \<in> set refs')" for es refs refs'
  proof (induction es arbitrary: refs)
    case (Cons e es)
    from Cons.prems obtain a where a: "added e = Ok a"
      "rfold ?f es (case a of Some r \<Rightarrow> bs_insert (er_blob r) refs | None \<Rightarrow> refs) = Ok refs'" by auto
    from Cons.IH [OF a(2)] a(1) show ?case by (auto split: option.splits)
  qed simp
  assume "line_refs l refs = Ok refs'"
  then obtain r where r: "rfold ?f (ll_realized l) refs = Ok r"
    "refs' = bs_extend (reads_ref (ll_annotation l))
         (case an_sig (ll_annotation l) of Some s \<Rightarrow> bs_insert s r | None \<Rightarrow> r)"
    by (auto simp: line_refs_def)
  with run [OF r(1)] show ?thesis by (auto split: option.splits)
qed

lemma lines_refs_grow:
  "rfold line_refs ls refs = Ok refs' \<Longrightarrow> set refs \<subseteq> set refs' \<and>
     (\<forall>l \<in> set ls. \<forall>e \<in> set (ll_realized l). \<forall>x. added e = Ok (Some x) \<longrightarrow> er_blob x \<in> set refs')"
proof (induction ls arbitrary: refs)
  case (Cons l ls)
  from Cons.prems obtain r1 where r1: "line_refs l refs = Ok r1" "rfold line_refs ls r1 = Ok refs'" by auto
  from Cons.IH [OF r1(2)] line_refs_grow [OF r1(1)] show ?case by auto
qed simp

text \<open>What one fork needs, all of it in the set.\<close>

definition fork_covered :: "'s env \<Rightarrow> repo \<Rightarrow> string set \<Rightarrow> string \<Rightarrow> bool" where
  "fork_covered E r R n \<longleftrightarrow> (\<exists>ff m d st. read_fork r n = Ok ff \<and>
     read_anchor_manifest E r (ff_manifest ff) = Ok m \<and> bt_get (rp_forks r) n = Some d \<and>
     current_state E r n = Ok st \<and> er_blob ` set (records m) \<subseteq> R \<and> set (line_blob_refs E (fd_log d)) \<subseteq> R \<and>
     (\<forall>l \<in> set (fs_lines st). \<forall>e \<in> set (ll_realized l). \<forall>x. added e = Ok (Some x) \<longrightarrow> er_blob x \<in> R))"

lemma fork_refs_Ok:
  assumes "fork_refs E r n refs = Ok refs'" shows "set refs \<subseteq> set refs' \<and> fork_covered E r (set refs') n"
proof -
  from assms obtain ff m bs st where c: "read_fork r n = Ok ff" "read_anchor_manifest E r (ff_manifest ff) = Ok m"
    "log_bytes r n = Ok bs" "current_state E r n = Ok st"
    and l: "rfold line_refs (fs_lines st)
       (bs_extend (line_blob_refs E bs) (bs_extend (map er_blob (records m)) refs)) = Ok refs'"
    by (auto simp: fork_refs_def)
  from c(3) obtain d where "bt_get (rp_forks r) n = Some d" "bs = fd_log d" by (auto simp: log_bytes_def)
  with c lines_refs_grow [OF l] show ?thesis unfolding fork_covered_def by auto
qed

lemma fork_covered_mono: "fork_covered E r R n \<Longrightarrow> R \<subseteq> R' \<Longrightarrow> fork_covered E r R' n"
  unfolding fork_covered_def by (meson order_trans subsetD)

lemma referenced_Ok:
  assumes "referenced_blobs E r = Ok refs" "bt_has (rp_forks r) n" shows "fork_covered E r (set refs) n"
proof -
  have "rfold (fork_refs E r) ns refs0 = Ok refs \<Longrightarrow> set refs0 \<subseteq> set refs \<and> (\<forall>n \<in> set ns. fork_covered E r (set refs) n)"
    for ns refs0
  proof (induction ns arbitrary: refs0)
    case (Cons n ns)
    from Cons.prems obtain r1 where r1: "fork_refs E r n refs0 = Ok r1" "rfold (fork_refs E r) ns r1 = Ok refs" by auto
    from Cons.IH [OF r1(2)] fork_refs_Ok [OF r1(1)] fork_covered_mono show ?case by auto
  qed simp
  moreover have "n \<in> set (fork_names r)" using assms(2) by (auto simp: fork_names_def bt_keys_def bt_has_iff)
  ultimately show ?thesis using assms(1) by (auto simp: referenced_blobs_def)
qed

subsection \<open>What is removed\<close>

lemma gc_step_Ok:
  "gc_step False refs h (c, pool) = Ok st \<Longrightarrow>
   st = (if h \<in> set refs then (c, pool) else (c @ [h], bt_remove h pool))"
  by (auto simp: gc_step_def blob_remove_def split: if_splits)

lemma gc_run:
  "rfold (gc_step False refs) hs (c, pool) = Ok (c', pool') \<Longrightarrow>
   (\<forall>h. bt_get pool' h = (if h \<in> set hs \<and> h \<notin> set refs then None else bt_get pool h)) \<and>
   c' = c @ filter (\<lambda>h. h \<notin> set refs) hs"
proof (induction hs arbitrary: c pool)
  case (Cons h hs)
  from Cons.prems obtain st where st: "gc_step False refs h (c, pool) = Ok st"
    "rfold (gc_step False refs) hs st = Ok (c', pool')" by auto
  show ?case
  proof (cases "h \<in> set refs")
    case True
    with Cons.IH [of c pool] st gc_step_Ok [OF st(1)] show ?thesis by auto
  next
    case False
    with Cons.IH [of "c @ [h]" "bt_remove h pool"] st gc_step_Ok [OF st(1)] show ?thesis
      by (auto simp: bt_get_remove)
  qed
qed simp

lemma resolve_cong:
  "(\<And>h. x = BlobRef h \<Longrightarrow> f h = g h) \<Longrightarrow> stored_resolve E f x = stored_resolve E g x"
  by (cases x) auto

lemma rmapM_cong: "(\<And>x. x \<in> set xs \<Longrightarrow> f x = g x) \<Longrightarrow> rmapM f xs = rmapM g xs"
  by (induction xs) auto

lemma line_blob_refs_set: "set (line_blob_refs E bs) = {h. BlobRef h \<in> set (fst (scan_log E bs))}"
proof -
  have "set (fold (\<lambda>s refs. case s of BlobRef h \<Rightarrow> bs_insert h refs | Line _ \<Rightarrow> refs) ss refs) =
      set refs \<union> {h. BlobRef h \<in> set ss}" for ss :: "stored_line list" and refs
    by (induction ss arbitrary: refs) (auto split: stored_line.splits)
  then show ?thesis by (simp add: line_blob_refs_def)
qed

lemma replayed_records:
  "apply_realized_to_manifest m es = Ok m' \<Longrightarrow> m_ok m \<Longrightarrow> x \<in> set (records m') \<Longrightarrow>
   x \<in> set (records m) \<or> (\<exists>e \<in> set es. added e = Ok (Some x))"
proof (induction es arbitrary: m)
  case (Cons e es)
  from Cons.prems(1) obtain m1 where m1: "entry_to_manifest e m = Ok m1" "apply_realized_to_manifest m1 es = Ok m'"
    by (auto simp: apply_realized_Cons)
  from Cons.IH [OF m1(2) entry_to_manifest_ok [OF Cons.prems(2) m1(1)] Cons.prems(3)]
    records_added [OF Cons.prems(2) m1(1)] show ?case by auto
qed simp

context setsum
begin

lemma gc_blobs_kept:
  assumes g: "gc_blobs E False r = Ok (collected, r')" and refs: "referenced_blobs E r = Ok refs"
  shows "rp_forks r' = rp_forks r \<and> rp_anchors r' = rp_anchors r \<and>
    (\<forall>h \<in> set refs. blob_get (rp_pool r') h = blob_get (rp_pool r) h) \<and>
    collected = filter (\<lambda>h. h \<notin> set refs) (blob_list (rp_pool r)) \<and>
    (\<forall>h \<in> set collected. bt_get (rp_pool r') h = None)"
proof -
  from g refs obtain pool where p: "rfold (gc_step False refs) (blob_list (rp_pool r)) ([], rp_pool r) = Ok (collected, pool)"
    "r' = r\<lparr>rp_pool := pool\<rparr>" by (auto simp: gc_blobs_def)
  from gc_run [OF p(1)] p(2) show ?thesis by (auto simp: blob_get_def)
qed

lemma gc_keeps_state:
  assumes g: "gc_blobs E False r = Ok (collected, r')" and n: "bt_has (rp_forks r) n"
  shows "\<exists>st. current_state E r n = Ok st \<and> current_state E r' n = Ok st \<and>
    (\<forall>ls m0 m ff. set ls \<subseteq> set (fs_lines st) \<longrightarrow> read_fork r n = Ok ff \<longrightarrow>
       read_anchor_manifest E r (ff_manifest ff) = Ok m0 \<longrightarrow> replay_lines ls m0 = Ok m \<longrightarrow>
       (\<forall>x \<in> set (records m). blob_get (rp_pool r') (er_blob x) = blob_get (rp_pool r) (er_blob x)))"
proof -
  from g obtain refs where refs: "referenced_blobs E r = Ok refs" by (auto simp: gc_blobs_def)
  note k = gc_blobs_kept [OF g refs]
  from referenced_Ok [OF refs n] obtain ff m0 d st where
    c: "read_fork r n = Ok ff" "read_anchor_manifest E r (ff_manifest ff) = Ok m0"
      "bt_get (rp_forks r) n = Some d" "current_state E r n = Ok st"
    and a: "er_blob ` set (records m0) \<subseteq> set refs" "set (line_blob_refs E (fd_log d)) \<subseteq> set refs"
      "\<forall>l \<in> set (fs_lines st). \<forall>e \<in> set (ll_realized l). \<forall>x. added e = Ok (Some x) \<longrightarrow> er_blob x \<in> set refs"
    unfolding fork_covered_def by blast
  have "rmapM (stored_resolve E (blob_get (rp_pool r'))) (fst (scan_log E (fd_log d))) =
      rmapM (stored_resolve E (blob_get (rp_pool r))) (fst (scan_log E (fd_log d)))"
    by (rule rmapM_cong) (use a(2) k in \<open>auto simp: line_blob_refs_set intro!: resolve_cong\<close>)
  then have "read_log E r' n = read_log E r n"
    using k c(3) by (simp add: read_log_def parse_log_lenient_def split_beta Let_def)
  moreover have "read_fork r' n = read_fork r n" using k by (simp add: read_fork_def)
  moreover have "read_anchor_manifest E r' h = read_anchor_manifest E r h" for h
    using k by (simp add: read_anchor_manifest_def)
  ultimately have "current_state E r' n = Ok st" using c(4) by (simp add: current_state_def cong: if_cong)
  moreover have "blob_get (rp_pool r') (er_blob x) = blob_get (rp_pool r) (er_blob x)"
    if "set ls \<subseteq> set (fs_lines st)" "replay_lines ls m0 = Ok m" "x \<in> set (records m)" for ls m x
  proof -
    from read_anchor_Ok [OF c(2)] have "m_ok m0" by simp
    from replayed_records [OF that(2) [unfolded replay_lines_realized] this that(3)] that(1) a(1,3)
    have "er_blob x \<in> set refs" by fastforce
    with k show ?thesis by blast
  qed
  ultimately show ?thesis using c by auto
qed

end

end
