(* ===== verification/Lineage.thy ===== *)
theory Lineage
  imports History
begin

text \<open>
  Forks and where they come from, of \<open>src/src/repo.rs\<close>: the fork a fork was forked
  from, the log across forks, states on it, and the removal of forks.  The walks stop
  because every step visits another fork of the repository.
\<close>

subsection \<open>The parent of a fork\<close>

definition zero_hex :: "'s env \<Rightarrow> string" where
  "zero_hex E = ss_hexdigest E (ss_zero E)"

definition classify_parent ::
  "'s env \<Rightarrow> repo \<Rightarrow> string \<Rightarrow> string \<Rightarrow> string \<Rightarrow> string list \<times> string list \<Rightarrow> (string list \<times> string list) result" where
  "classify_parent E r child anchor name st = (case st of (authored, shared) \<Rightarrow>
     if name = child then Ok (authored, shared) else
     rbind (read_fork r name) (\<lambda>ff.
     rbind (current_state E r name) (\<lambda>st.
     Ok (if last_state_position (fs_lines st) anchor \<noteq> None then (authored @ [name], shared)
         else if ff_anchor ff = anchor then (authored, shared @ [name])
         else (authored, shared)))))"

definition pick_parent :: "string list \<Rightarrow> string option" where
  "pick_parent candidates =
     (if ''main'' \<in> set candidates then Some ''main''
      else case candidates of [] \<Rightarrow> None | n # _ \<Rightarrow> Some n)"

definition parent_fork :: "'s env \<Rightarrow> repo \<Rightarrow> string \<Rightarrow> string \<Rightarrow> string option result" where
  "parent_fork E r child anchor =
     rmap (\<lambda>(authored, shared). case pick_parent authored of
         Some p \<Rightarrow> Some p
       | None \<Rightarrow> pick_parent shared)
       (rfold (classify_parent E r child anchor) (fork_names r) ([], []))"

subsection \<open>The walks\<close>

text \<open>The forks of the repository not visited yet.\<close>

definition unvisited :: "repo \<Rightarrow> string list \<Rightarrow> nat" where
  "unvisited r visited = length (filter (\<lambda>n. n \<notin> set visited) (bt_keys (rp_forks r)))"

lemma length_filter_less_fewer:
  "x \<in> set xs \<Longrightarrow> P x \<Longrightarrow> \<not> Q x \<Longrightarrow> (\<And>y. Q y \<Longrightarrow> P y) \<Longrightarrow>
   length (filter Q xs) < length (filter P xs)"
proof (induction xs)
  case (Cons y ys)
  have "length (filter Q ys) \<le> length (filter P ys)"
    using Cons.prems(4) by (induction ys) (auto intro: le_SucI)
  with Cons show ?case by auto
qed simp

lemma unvisited_less:
  assumes "read_fork r n = Ok ff" "n \<notin> set visited"
  shows "unvisited r (n # visited) < unvisited r visited"
proof -
  have "n \<in> set (bt_keys (rp_forks r))"
    using assms(1) by (auto simp: read_fork_def bt_keys_def dest!: map_of_SomeD) force
  then show ?thesis
    using assms(2) unfolding unvisited_def by (intro length_filter_less_fewer [where x = n]) auto
qed

function base_walk :: "'s env \<Rightarrow> repo \<Rightarrow> string \<Rightarrow> string \<Rightarrow> string list \<Rightarrow> string result" where
  "base_walk E r fork current visited =
     (if current \<in> set visited then rmap ff_anchor (read_fork r fork) else
      rbind (read_fork r current) (\<lambda>ff.
      if ff_anchor ff = zero_hex E then Ok (ff_anchor ff) else
      rbind (parent_fork E r current (ff_anchor ff)) (\<lambda>p. case p of
          None \<Rightarrow> Ok (ff_anchor ff)
        | Some parent \<Rightarrow> base_walk E r fork parent (current # visited))))"
  by pat_completeness auto
termination
  by (relation "measure (\<lambda>(E, r, fork, current, visited). unvisited r visited)")
    (auto intro: unvisited_less)

declare base_walk.simps [simp del]

definition lineage_base_sum :: "'s env \<Rightarrow> repo \<Rightarrow> string \<Rightarrow> string result" where
  "lineage_base_sum E r fork = base_walk E r fork fork []"

text \<open>The segments of the lineage, child first; the boundary cuts an ancestor's lines.\<close>

definition up_to :: "string option \<Rightarrow> log_line list \<Rightarrow> log_line list" where
  "up_to boundary ls = (case boundary of
       None \<Rightarrow> ls
     | Some h \<Rightarrow> take (case last_state_position ls h of None \<Rightarrow> 0 | Some p \<Rightarrow> p + 1) ls)"

function lineage_segments ::
  "'s env \<Rightarrow> repo \<Rightarrow> string \<Rightarrow> string option \<Rightarrow> string list \<Rightarrow> (string \<times> log_line list) list result" where
  "lineage_segments E r current boundary visited =
     (if current \<in> set visited then Ok [] else
      rbind (read_fork r current) (\<lambda>ff.
      rbind (current_state E r current) (\<lambda>st.
      let seg = (current, up_to boundary (fs_lines st)) in
      if ff_anchor ff = zero_hex E then Ok [seg] else
      rbind (parent_fork E r current (ff_anchor ff)) (\<lambda>p. case p of
          None \<Rightarrow> Ok [seg]
        | Some parent \<Rightarrow> rmap (Cons seg)
            (lineage_segments E r parent (Some (ff_anchor ff)) (current # visited))))))"
  by pat_completeness auto
termination
  by (relation "measure (\<lambda>(E, r, current, boundary, visited). unvisited r visited)")
    (auto intro: unvisited_less)

declare lineage_segments.simps [simp del]

definition continuity_log :: "'s env \<Rightarrow> repo \<Rightarrow> string \<Rightarrow> (string \<times> log_line) list result" where
  "continuity_log E r fork =
     rmap (\<lambda>segs. concat (map (\<lambda>(name, ls). map (Pair name) ls) (rev segs)))
       (lineage_segments E r fork None [])"

text \<open>Forward replay to a sum.\<close>

fun replay_to :: "'s env \<Rightarrow> string \<Rightarrow> log_line list \<Rightarrow> manifest \<Rightarrow> manifest result" where
  "replay_to E sum_hex [] m = Err Invalid"
| "replay_to E sum_hex (l # ls) m =
     rbind (apply_realized_to_manifest m (ll_realized l)) (\<lambda>m.
     if ll_sum_after l = sum_hex
     then (if ss_hexdigest E (m_sum E m) \<noteq> sum_hex then Err Corrupt else Ok m)
     else replay_to E sum_hex ls m)"

definition manifest_at_lineage :: "'s env \<Rightarrow> repo \<Rightarrow> string \<Rightarrow> string \<Rightarrow> manifest result" where
  "manifest_at_lineage E r fork sum_hex =
     rbind (continuity_log E r fork) (\<lambda>history.
     let ls = map snd history in
     rbind (if ls = [] then rmap fs_sum_hex (current_state E r fork) else lineage_base_sum E r fork) (\<lambda>base.
     rbind (read_anchor_manifest E r base) (\<lambda>m.
     if base = sum_hex then Ok m else replay_to E sum_hex ls m)))"

subsection \<open>Removing a fork\<close>

text \<open>The ids other forks carry, outright or as the origin of a union line.\<close>

definition carried_ids :: "string \<Rightarrow> log_line \<Rightarrow> string list" where
  "carried_ids name l = (case an_origin (ll_annotation l) of
       Some orig \<Rightarrow> if origin_fork orig = name then [origin_id orig, ll_id l] else [ll_id l]
     | None \<Rightarrow> [ll_id l])"

definition carried_elsewhere :: "'s env \<Rightarrow> repo \<Rightarrow> string \<Rightarrow> string set result" where
  "carried_elsewhere E r name = rfold (\<lambda>other acc.
     if other = name then Ok acc else
     rmap (\<lambda>st. acc \<union> set (concat (map (carried_ids name) (fs_lines st)))) (current_state E r other))
     (fork_names r) {}"

definition remove_fork :: "'s env \<Rightarrow> string \<Rightarrow> bool \<Rightarrow> repo \<Rightarrow> repo result" where
  "remove_fork E name force r =
     rbind (validate_fork_name name) (\<lambda>_.
     if name = ''main'' then Err Invalid else
     if \<not> bt_has (rp_forks r) name then Err Invalid else
     rbind (if force then Ok () else
        rbind (current_state E r name) (\<lambda>mine.
        if fs_lines mine = [] then Ok () else
        rbind (carried_elsewhere E r name) (\<lambda>carried.
        if list_ex (\<lambda>l. ll_id l \<notin> carried) (fs_lines mine) then Err Invalid else Ok ()))) (\<lambda>_.
     Ok (r\<lparr>rp_forks := bt_remove name (rp_forks r)\<rparr>)))"

subsection \<open>The lineage is one continuous history\<close>

text \<open>Each line's sum follows from the one before.\<close>

definition sums_from :: "'s env \<Rightarrow> 's \<Rightarrow> log_line list \<Rightarrow> 's result" where
  "sums_from E s ls = rfold (\<lambda>l s. rbind (apply_realized_to_sum E s (ll_realized l)) (\<lambda>x.
     if ss_hexdigest E x \<noteq> ll_sum_after l then Err Corrupt else Ok x)) ls s"

lemma sums_from_append: "sums_from E s (ls @ us) = rbind (sums_from E s ls) (\<lambda>s. sums_from E s us)"
  by (simp add: sums_from_def rfold_append)

lemma verify_chain_sums: "verify_chain E a ls = Ok s \<Longrightarrow> sums_from E a ls = Ok s"
proof (induction ls arbitrary: s rule: rev_induct)
  case (snoc l ls)
  then obtain s1 where "sums_from E a ls = Ok s1" "apply_realized_to_sum E s1 (ll_realized l) = Ok s"
    "ss_hexdigest E s = ll_sum_after l" by (auto simp: verify_chain_snoc)
  then show ?case by (simp add: sums_from_append) (simp add: sums_from_def)
qed (simp add: sums_from_def)

lemma pick_parent_in: "pick_parent c = Some p \<Longrightarrow> p \<in> set c"
  by (auto simp: pick_parent_def split: if_splits list.splits)

text \<open>A parent has the state on its log, or shares it as its anchor.\<close>

definition holds_state :: "'s env \<Rightarrow> repo \<Rightarrow> string \<Rightarrow> string \<Rightarrow> bool" where
  "holds_state E r h n \<longleftrightarrow> (\<exists>ff st. read_fork r n = Ok ff \<and> current_state E r n = Ok st \<and>
     (last_state_position (fs_lines st) h \<noteq> None \<or> ff_anchor ff = h))"

lemma classify_parent_holds:
  assumes "classify_parent E r child h n (a, b) = Ok (a', b')"
  shows "\<forall>x \<in> set a' \<union> set b'. x \<in> set a \<union> set b \<or> holds_state E r h x \<and> x \<noteq> child"
proof (cases "n = child")
  case True
  with assms show ?thesis by (simp add: classify_parent_def)
next
  case False
  with assms obtain ff st where ff: "read_fork r n = Ok ff" "current_state E r n = Ok st"
    by (auto simp: classify_parent_def)
  with assms False show ?thesis
    unfolding holds_state_def by (auto simp: classify_parent_def split: if_splits)
qed

lemma classify_parents_hold:
  "rfold (classify_parent E r child h) ns (a, b) = Ok (a', b') \<Longrightarrow>
   \<forall>x \<in> set a' \<union> set b'. x \<in> set a \<union> set b \<or> holds_state E r h x \<and> x \<noteq> child"
proof (induction ns arbitrary: a b)
  case (Cons n ns)
  from Cons.prems obtain a1 b1 where 1: "classify_parent E r child h n (a, b) = Ok (a1, b1)"
    "rfold (classify_parent E r child h) ns (a1, b1) = Ok (a', b')" by auto
  from Cons.IH [OF 1(2)] classify_parent_holds [OF 1(1)] show ?case by blast
qed simp

lemma parent_fork_holds:
  assumes "parent_fork E r child h = Ok (Some p)" shows "holds_state E r h p \<and> p \<noteq> child"
proof -
  from assms obtain a b where c: "rfold (classify_parent E r child h) (fork_names r) ([], []) = Ok (a, b)"
    and p: "(case pick_parent a of Some p \<Rightarrow> Some p | None \<Rightarrow> pick_parent b) = Some p"
    by (auto simp: parent_fork_def)
  from p have "p \<in> set a \<union> set b" by (auto split: option.splits dest: pick_parent_in)
  with classify_parents_hold [OF c] show ?thesis by auto
qed

text \<open>A walk that ends at a root: the empty state, or a state no other fork holds.\<close>

definition rooted :: "'s env \<Rightarrow> repo \<Rightarrow> string \<Rightarrow> bool" where
  "rooted E r n \<longleftrightarrow> (\<exists>ff. read_fork r n = Ok ff \<and>
     (ff_anchor ff = zero_hex E \<or> parent_fork E r n (ff_anchor ff) = Ok None))"

text \<open>No log of the forks returns to its anchor, which a snapshot makes it do.\<close>

definition unsnapshotted :: "'s env \<Rightarrow> repo \<Rightarrow> string list \<Rightarrow> bool" where
  "unsnapshotted E r ns \<longleftrightarrow> (\<forall>n \<in> set ns. \<forall>ff st. read_fork r n = Ok ff \<longrightarrow> current_state E r n = Ok st \<longrightarrow>
     replay_start (fs_lines st) (ff_anchor ff) = 0)"

context setsum
begin

lemma fork_sums:
  assumes "current_state E r n = Ok st" "read_fork r n = Ok ff" "replay_start (fs_lines st) (ff_anchor ff) = 0"
  shows "\<exists>a. ss_hexdigest E a = ff_anchor ff \<and>
    (\<exists>s. sums_from E a (fs_lines st) = Ok s \<and> ss_hexdigest E s = fs_sum_hex st) \<and>
    (\<forall>h. last_state_position (fs_lines st) h \<noteq> None \<longrightarrow>
       (\<exists>s. sums_from E a (up_to (Some h) (fs_lines st)) = Ok s \<and> ss_hexdigest E s = h))"
proof -
  from assms(1) obtain f m0 p where f: "read_fork r n = Ok f"
    and m0': "read_anchor_manifest E r (ff_manifest f) = Ok m0" "ss_hexdigest E (m_sum E m0) = ff_anchor f"
      "state_of_lines E (ff_anchor f) m0 (pl_lines p) = Ok st" and "read_log E r n = Ok p"
    unfolding current_state_iff by blast
  have "f = ff" using f assms(2) by simp
  note m0 = m0' [unfolded this]
  have ok: "m_ok m0" using read_anchor_Ok [OF m0(1)] by simp
  note s = state_of_lines_Ok [OF m0(3) ok]
  have h: "history_from E m0 st"
  proof (rule state_history [OF m0(3) ok m0(2)])
    show "replay_start (pl_lines p) (ff_anchor ff) = 0" using assms(3) s by simp
  qed
  then obtain e where e: "verify_chain E (m_sum E m0) (fs_lines st) = Ok e"
    and rp: "apply_realized_to_manifest m0 (concat (map ll_realized (fs_lines st))) = Ok (fs_manifest st)"
    by (auto simp: history_from_def replay_lines_realized)
  have "ss_hexdigest E e = fs_sum_hex st"
    using verify_chain_state [OF e ok rp] s by (simp add: state_ok_def)
  moreover have "\<exists>s. sums_from E (m_sum E m0) (up_to (Some g) (fs_lines st)) = Ok s \<and> ss_hexdigest E s = g"
    if g: "last_state_position (fs_lines st) g \<noteq> None" for g
  proof -
    from g obtain k where k: "last_state_position (fs_lines st) g = Some k" by auto
    then have kl: "k < length (fs_lines st)" "ll_sum_after (fs_lines st ! k) = g"
      using rposition_SomeD [of "\<lambda>l. ll_sum_after l = g" "fs_lines st" k] by (auto simp: last_state_position_def)
    from verify_chain_line [OF e kl(1)] kl(2) k show ?thesis
      by (auto simp: up_to_def dest!: verify_chain_sums)
  qed
  ultimately show ?thesis using m0(2) verify_chain_sums [OF e] by blast
qed

lemma lineage_continuous:
  assumes "lineage_segments E r current boundary visited = Ok segs" "segs \<noteq> []"
    "rooted E r (fst (last segs))" "unsnapshotted E r (map fst segs)"
    "\<And>h. boundary = Some h \<Longrightarrow> holds_state E r h current"
  shows "\<exists>b s. base_walk E r fork current visited = Ok (ss_hexdigest E b) \<and>
    sums_from E b (concat (map snd (rev segs))) = Ok s \<and>
    (case boundary of
       None \<Rightarrow> \<exists>st. current_state E r current = Ok st \<and> fs_sum_hex st = ss_hexdigest E s
     | Some h \<Rightarrow> ss_hexdigest E s = h)"
  using assms
proof (induction "unvisited r visited" arbitrary: current boundary visited segs rule: less_induct)
  case less
  note defs = lineage_segments.simps [of E r current boundary visited]
    base_walk.simps [of E r fork current visited]
  from less.prems(1,2) have nv: "current \<notin> set visited" by (auto simp: defs split: if_splits)
  with less.prems(1) obtain ff st where ff: "read_fork r current = Ok ff"
    and st: "current_state E r current = Ok st" by (auto simp: defs)
  let ?seg = "(current, up_to boundary (fs_lines st))"
  have "current \<in> set (map fst segs)"
    using less.prems(1) nv ff st by (auto simp: defs Let_def split: if_splits option.splits)
  with less.prems(4) ff st have "replay_start (fs_lines st) (ff_anchor ff) = 0"
    unfolding unsnapshotted_def by blast
  from fork_sums [OF st ff this] obtain a where a: "ss_hexdigest E a = ff_anchor ff"
    and full: "\<exists>s. sums_from E a (fs_lines st) = Ok s \<and> ss_hexdigest E s = fs_sum_hex st"
    and part: "\<And>h. last_state_position (fs_lines st) h \<noteq> None \<Longrightarrow>
       \<exists>s. sums_from E a (up_to (Some h) (fs_lines st)) = Ok s \<and> ss_hexdigest E s = h" by blast
  have own: "\<exists>s. sums_from E a (up_to boundary (fs_lines st)) = Ok s \<and>
    (case boundary of
       None \<Rightarrow> \<exists>st. current_state E r current = Ok st \<and> fs_sum_hex st = ss_hexdigest E s
     | Some h \<Rightarrow> ss_hexdigest E s = h)"
  proof (cases boundary)
    case None
    with full st show ?thesis by (auto simp: up_to_def)
  next
    case (Some h)
    show ?thesis
    proof (cases "last_state_position (fs_lines st) h")
      case None
      with less.prems(5) [OF Some] ff st have "ff_anchor ff = h" by (auto simp: holds_state_def)
      with None Some a show ?thesis by (simp add: up_to_def sums_from_def)
    qed (use part [of h] Some in auto)
  qed
  show ?case
  proof (cases "ff_anchor ff = zero_hex E \<or> parent_fork E r current (ff_anchor ff) = Ok None")
    case True
    then have "segs = [?seg]" "base_walk E r fork current visited = Ok (ff_anchor ff)"
      using less.prems(1) nv ff st by (auto simp: defs Let_def split: if_splits)
    moreover from own obtain s where "sums_from E a (up_to boundary (fs_lines st)) = Ok s"
      "case boundary of None \<Rightarrow> \<exists>st. current_state E r current = Ok st \<and> fs_sum_hex st = ss_hexdigest E s
       | Some h \<Rightarrow> ss_hexdigest E s = h" by blast
    ultimately show ?thesis using a by (intro exI [of _ a] exI [of _ s]) simp
  next
    case False
    with less.prems(1) nv ff st obtain parent us where
      p: "parent_fork E r current (ff_anchor ff) = Ok (Some parent)"
      and us: "lineage_segments E r parent (Some (ff_anchor ff)) (current # visited) = Ok us" "segs = ?seg # us"
      by (auto simp: defs Let_def split: if_splits option.splits)
    have ne: "us \<noteq> []"
    proof
      assume "us = []"
      with less.prems(3) us(2) ff False show False by (auto simp: rooted_def)
    qed
    have "unvisited r (current # visited) < unvisited r visited" by (rule unvisited_less [OF ff nv])
    moreover have "unsnapshotted E r (map fst us)" using less.prems(4) us(2) by (simp add: unsnapshotted_def)
    ultimately obtain b s where b: "base_walk E r fork parent (current # visited) = Ok (ss_hexdigest E b)"
      "sums_from E b (concat (map snd (rev us))) = Ok s" "ss_hexdigest E s = ff_anchor ff"
      using less.hyps [OF _ us(1) ne] less.prems(3) us(2) ne parent_fork_holds [OF p] by auto
    then have "s = a" using a by (metis hexdigest_inj)
    with b own us(2) nv ff p False show ?thesis by (auto simp: defs sums_from_append)
  qed
qed

text \<open>The whole lineage runs from its base sum to the fork's state.\<close>

lemma continuity_sums:
  assumes "continuity_log E r fork = Ok hist" "lineage_segments E r fork None [] = Ok segs"
    "rooted E r (fst (last segs))" "unsnapshotted E r (map fst segs)"
  shows "\<exists>b s st. lineage_base_sum E r fork = Ok (ss_hexdigest E b) \<and>
    sums_from E b (map snd hist) = Ok s \<and> current_state E r fork = Ok st \<and> fs_sum_hex st = ss_hexdigest E s"
proof -
  have "segs \<noteq> []"
    using assms(2) by (auto simp: lineage_segments.simps [of E r fork None "[]"] Let_def split: if_splits option.splits)
  moreover have "map snd hist = concat (map snd (rev segs))"
    using assms(1,2) by (auto simp: continuity_log_def map_concat comp_def split_def)
  ultimately show ?thesis
    using lineage_continuous [OF assms(2) _ assms(3,4), of fork] by (auto simp: lineage_base_sum_def)
qed

end

text \<open>
  A fork without a parent that was snapshotted: the base of its lineage is its anchor, which
  is now its current state, though its log still starts at the old one.
\<close>

lemma snapshot_moves_base:
  assumes "read_fork r fork = Ok ff" "ff_anchor ff = fs_sum_hex st" "current_state E r fork = Ok st"
    "fork_names r = [fork]"
  shows "lineage_base_sum E r fork = Ok (fs_sum_hex st) \<and>
    continuity_log E r fork = Ok (map (Pair fork) (fs_lines st))"
proof -
  have p: "parent_fork E r fork h = Ok None" for h
    by (simp add: parent_fork_def assms(4) classify_parent_def pick_parent_def)
  show ?thesis
    using assms p by (simp add: lineage_base_sum_def continuity_log_def base_walk.simps [of E r fork fork]
        lineage_segments.simps [of E r fork] up_to_def Let_def)
qed

subsection \<open>Removal keeps every other fork\<close>

lemma same_fork_reads:
  assumes "bt_get (rp_forks r') n = bt_get (rp_forks r) n" "rp_anchors r' = rp_anchors r" "rp_pool r' = rp_pool r"
  shows "read_fork r' n = read_fork r n \<and> current_state E r' n = current_state E r n"
proof -
  have "read_fork r' n = read_fork r n" by (simp add: read_fork_def assms)
  moreover have "read_log E r' n = read_log E r n" by (simp add: read_log_def assms)
  moreover have "read_anchor_manifest E r' h = read_anchor_manifest E r h" for h
    by (simp add: read_anchor_manifest_def assms)
  ultimately show ?thesis by (simp add: current_state_def cong: if_cong)
qed

lemma remove_fork_Ok:
  assumes "remove_fork E name force r = Ok r'"
  shows "name \<noteq> ''main'' \<and> bt_get (rp_forks r') name = None \<and>
    (\<forall>n. n \<noteq> name \<longrightarrow> read_fork r' n = read_fork r n \<and> current_state E r' n = current_state E r n)"
proof -
  from assms have r': "r' = r\<lparr>rp_forks := bt_remove name (rp_forks r)\<rparr>" and "name \<noteq> ''main''"
    by (auto simp: remove_fork_def split: if_splits)
  moreover have "read_fork r' n = read_fork r n \<and> current_state E r' n = current_state E r n" if "n \<noteq> name" for n
    by (rule same_fork_reads) (use that in \<open>simp_all add: r' bt_get_remove\<close>)
  ultimately show ?thesis by (simp add: bt_get_remove)
qed

text \<open>Without force, every line of the fork is carried by another one.\<close>

lemma carried_Ok:
  assumes "carried_elsewhere E r name = Ok c" "i \<in> c"
  shows "\<exists>n st l. n \<noteq> name \<and> current_state E r n = Ok st \<and> l \<in> set (fs_lines st) \<and> i \<in> set (carried_ids name l)"
proof -
  let ?P = "\<lambda>c. \<forall>i \<in> c. \<exists>n st l. n \<noteq> name \<and> current_state E r n = Ok st \<and> l \<in> set (fs_lines st) \<and>
    i \<in> set (carried_ids name l)"
  have "?P c"
    by (rule rfold_invariant [OF assms(1) [unfolded carried_elsewhere_def]])
      (auto split: if_splits; blast)+
  with assms(2) show ?thesis by blast
qed

lemma remove_fork_subsumed:
  assumes "remove_fork E name False r = Ok r'" "current_state E r name = Ok mine" "l \<in> set (fs_lines mine)"
  shows "\<exists>n st k. n \<noteq> name \<and> current_state E r' n = Ok st \<and> k \<in> set (fs_lines st) \<and> ll_id l \<in> set (carried_ids name k)"
proof -
  from assms(1,2,3) obtain c where c: "carried_elsewhere E r name = Ok c" "list_all (\<lambda>l. ll_id l \<in> c) (fs_lines mine)"
    by (auto simp: remove_fork_def list_ex_iff list_all_iff split: if_splits)
  with assms(3) have "ll_id l \<in> c" by (auto simp: list_all_iff)
  with carried_Ok [OF c(1)] remove_fork_Ok [OF assms(1)] show ?thesis by metis
qed

end
