(* ===== verification/WritePath.thy ===== *)
theory WritePath
  imports State
begin

text \<open>
  The write path of \<open>src/src/repo.rs\<close>: an applied intent is the next line of its
  fork, and a crash anywhere in the operation leaves the fork's old state or the new
  one, never anything else.
\<close>

subsection \<open>A fork whose log is replaced\<close>

text \<open>The same fork file and anchors, a pool that only grew, another log.\<close>

definition relogged :: "string \<Rightarrow> repo \<Rightarrow> bytes \<Rightarrow> repo \<Rightarrow> bool" where
  "relogged fork r log r' \<longleftrightarrow> rp_anchors r' = rp_anchors r \<and>
     (\<exists>d. bt_get (rp_forks r) fork = Some d \<and> bt_get (rp_forks r') fork = Some (d\<lparr>fd_log := log\<rparr>))"

lemma relogged_reads:
  assumes "relogged fork r log r'"
  shows "read_fork r' fork = read_fork r fork"
    and "read_anchor_manifest E r' h = read_anchor_manifest E r h"
    and "read_log E r' fork = parse_log_lenient E (blob_get (rp_pool r')) log"
  using assms by (auto simp: relogged_def read_fork_def read_anchor_manifest_def read_log_def)

text \<open>The log up to its valid prefix: what a write appends to.\<close>

definition kept_log :: "'s env \<Rightarrow> repo \<Rightarrow> string \<Rightarrow> bytes" where
  "kept_log E r fork = (case (read_log E r fork, bt_get (rp_forks r) fork) of
       (Ok p, Some d) \<Rightarrow> take (pl_valid_prefix p) (fd_log d)
     | _ \<Rightarrow> [])"

text \<open>Whatever partial line stands behind the kept log, the state is the old one.\<close>

lemma torn_keeps_state:
  assumes st: "current_state E r fork = Ok st" and r': "relogged fork r (kept_log E r fork @ torn) r'"
    and le: "pool_le (rp_pool r) (rp_pool r')" and torn: "LF \<notin> set torn"
  shows "current_state E r' fork = Ok st"
proof -
  from st obtain ff m0 p where c: "read_fork r fork = Ok ff"
    "read_anchor_manifest E r (ff_manifest ff) = Ok m0" "ss_hexdigest E (m_sum E m0) = ff_anchor ff"
    "read_log E r fork = Ok p" "state_of_lines E (ff_anchor ff) m0 (pl_lines p) = Ok st"
    unfolding current_state_iff by blast
  from c(4) obtain d where d: "bt_get (rp_forks r) fork = Some d"
    "parse_log_lenient E (blob_get (rp_pool r)) (fd_log d) = Ok p" by (auto simp: read_log_def)
  from read_appended(1) [OF d(2) le torn] obtain n where
    "read_log E r' fork = Ok \<lparr>pl_lines = pl_lines p, pl_valid_prefix = n\<rparr>"
    using relogged_reads(3) [OF r', of E] by (auto simp: kept_log_def c(4) d(1))
  with c show ?thesis unfolding current_state_iff relogged_reads(1,2) [OF r'] by auto
qed

text \<open>A whole line behind it, that follows the state, extends the state.\<close>

definition next_line_of :: "'s env \<Rightarrow> fork_state \<Rightarrow> log_line \<Rightarrow> manifest \<Rightarrow> bool" where
  "next_line_of E st l m' \<longleftrightarrow> apply_realized_to_manifest (fs_manifest st) (ll_realized l) = Ok m' \<and>
     ll_prev l = fs_head_id st \<and> ll_sum_after l = ss_hexdigest E (m_sum E m')"

definition stored_as :: "'s env \<Rightarrow> pool \<Rightarrow> bytes \<Rightarrow> log_line \<Rightarrow> bool" where
  "stored_as E pool bs l \<longleftrightarrow> (\<exists>t x. bs = t @ [LF] \<and> LF \<notin> set t \<and> from_utf8 t \<and>
     stored_parse E t = Ok x \<and> stored_resolve E (blob_get pool) x = Ok l)"

lemma stored_as_le: "stored_as E p bs l \<Longrightarrow> pool_le p p' \<Longrightarrow> stored_as E p' bs l"
proof -
  assume s: "stored_as E p bs l" and le: "pool_le p p'"
  from s obtain t x where "bs = t @ [LF]" "LF \<notin> set t" "from_utf8 t" "stored_parse E t = Ok x"
    and x: "stored_resolve E (blob_get p) x = Ok l" by (auto simp: stored_as_def)
  moreover have "stored_resolve E (blob_get p') x = Ok l"
    by (rule resolve_le [OF _ x]) (use le in \<open>simp add: pool_le_def\<close>)
  ultimately show "stored_as E p' bs l" by (auto simp: stored_as_def)
qed

text \<open>The state after the line: that of the intent, unless it is back at the anchor.\<close>

definition follows :: "'s env \<Rightarrow> string \<Rightarrow> fork_state \<Rightarrow> log_line \<Rightarrow> manifest \<Rightarrow> fork_state \<Rightarrow> bool" where
  "follows E anchor st l m' st' \<longleftrightarrow> fs_lines st' = fs_lines st @ [l] \<and> fs_head_id st' = ll_id l \<and>
     fs_sum_hex st' = ss_hexdigest E (m_sum E m') \<and> (fs_sum_hex st' \<noteq> anchor \<longrightarrow> fs_manifest st' = m')"

subsection \<open>Lines their reader can read\<close>

text \<open>
  The facts about a sealed line its reader relies on: the JSON reader reads the
  canonical text, strings are UTF-8, and the overflow blob's hash did not collide.
\<close>

definition readable :: "'s env \<Rightarrow> log_line \<Rightarrow> bool" where
  "readable E l \<longleftrightarrow> json_reads E (line_to_value l) \<and> json_all utf8 (line_to_value l) \<and>
     (\<forall>c. canonical_json (line_to_value l) = Ok c \<longrightarrow> SPILL_THRESHOLD < length c \<longrightarrow>
        json_reads E (JObj [(''line_blob'', JStr (sha3_hex E c))]) \<and>
        (\<forall>c'. sha3_hex E c' = sha3_hex E c \<longrightarrow> c' = c))"

context setsum
begin

lemma line_extends_state:
  assumes st: "current_state E r fork = Ok st" and r': "relogged fork r (kept_log E r fork @ bs) r'"
    and le: "pool_le (rp_pool r) (rp_pool r')" and bs: "stored_as E (rp_pool r') bs l"
    and l: "next_line_of E st l m'" and ff: "read_fork r fork = Ok ff"
  shows "\<exists>st'. current_state E r' fork = Ok st' \<and> follows E (ff_anchor ff) st l m' st'"
proof -
  from st ff obtain m0 p where c: "read_anchor_manifest E r (ff_manifest ff) = Ok m0"
    "ss_hexdigest E (m_sum E m0) = ff_anchor ff"
    "read_log E r fork = Ok p" "state_of_lines E (ff_anchor ff) m0 (pl_lines p) = Ok st"
    unfolding current_state_iff by auto
  from c(3) obtain d where d: "bt_get (rp_forks r) fork = Some d"
    "parse_log_lenient E (blob_get (rp_pool r)) (fd_log d) = Ok p" by (auto simp: read_log_def)
  from bs obtain t x where t: "bs = t @ [LF]" "LF \<notin> set t" "from_utf8 t"
    "stored_parse E t = Ok x" "stored_resolve E (blob_get (rp_pool r')) x = Ok l"
    by (auto simp: stored_as_def)
  from read_appended(2) [OF d(2) le t(2-5)] obtain n where
    "read_log E r' fork = Ok \<lparr>pl_lines = pl_lines p @ [l], pl_valid_prefix = n\<rparr>"
    using relogged_reads(3) [OF r', of E] by (auto simp: kept_log_def c(3) d(1) t(1))
  moreover have "state_of_lines E (ff_anchor ff) m0 (pl_lines p @ [l]) = Ok (extended (ff_anchor ff) m0 st l m')"
    by (rule state_of_lines_snoc [OF c(4) _ c(2)])
      (use l read_anchor_Ok [OF c(1)] in \<open>simp_all add: next_line_of_def\<close>)
  ultimately have "current_state E r' fork = Ok (extended (ff_anchor ff) m0 st l m')"
    using c ff unfolding current_state_iff relogged_reads(1,2) [OF r'] by auto
  moreover have "follows E (ff_anchor ff) st l m' (extended (ff_anchor ff) m0 st l m')"
    using l by (simp add: follows_def extended_def next_line_of_def)
  ultimately show ?thesis by blast
qed


lemma sealed_stored_as:
  assumes "seal E now l pool = Ok (bs, l', pool')" "ll_valid l" "pool_ok E pool" "readable E l'"
  shows "stored_as E pool' bs l' \<and> pool_ok E pool' \<and> pool_le pool pool' \<and> pool_kept pool pool' \<and>
    ll_realized l' = ll_realized l \<and> ll_prev l' = ll_prev l \<and> ll_sum_after l' = ll_sum_after l \<and>
    ll_intent l' = ll_intent l"
proof -
  from seal_Ok [OF assms(1-3)] obtain t where t: "bs = t @ [LF]" "LF \<notin> set t" "sealed_as E l' t pool'"
    "pool_ok E pool'" and keep: "ll_realized l' = ll_realized l" "ll_prev l' = ll_prev l"
    "ll_sum_after l' = ll_sum_after l" "ll_intent l' = ll_intent l" by blast
  have "\<exists>x. from_utf8 t \<and> stored_parse E t = Ok x \<and> stored_resolve E (blob_get pool') x = Ok l'"
    by (rule sealed_stored [OF t(3,4)]) (use assms(4) in \<open>auto simp: readable_def\<close>)
  with t keep seal_pool [OF assms(1,3)] show ?thesis by (auto simp: stored_as_def)
qed

lemma prepare_apply_Ok:
  assumes p: "prepare_apply E now fork i ann r = Ok (bs, l, pool)"
    and ok: "pool_ok E (rp_pool r)" "an_valid ann" "readable E l"
  shows "\<exists>st m' rz pool1. current_state E r fork = Ok st \<and>
    apply_intent E i (fs_manifest st) (rp_pool r) = Ok (m', rz) \<and>
    pool_blobs E (new_blobs rz) (rp_pool r) = Ok pool1 \<and> ll_intent l = i \<and> ll_realized l = realized rz \<and>
    next_line_of E st l m' \<and> stored_as E pool bs l \<and>
    pool_ok E pool \<and> pool_le (rp_pool r) pool \<and> pool_kept (rp_pool r) pool"
proof -
  from p obtain st m' rz pool1 s where st: "current_state E r fork = Ok st"
    and a: "apply_intent E i (fs_manifest st) (rp_pool r) = Ok (m', rz)"
    and pb: "pool_blobs E (new_blobs rz) (rp_pool r) = Ok pool1"
    and s: "apply_realized_to_sum E (m_sum E (fs_manifest st)) (realized rz) = Ok s"
    and sl: "seal E now (new_line (fs_head_id st) i (realized rz) (ss_hexdigest E s) 0 ann) pool1 = Ok (bs, l, pool)"
    by (auto simp: prepare_apply_def)
  have m: "m_ok (fs_manifest st)" using current_state_ok [OF st] by (simp add: state_ok_def)
  note ai = apply_intent_realizes [OF m a]
  have "s = m_sum E m'" using realized_sum [OF m] ai s by fastforce
  note p1 = pool_blobs_Ok [OF pb ok(1)]
  have "ll_valid (new_line (fs_head_id st) i (realized rz) (ss_hexdigest E s) 0 ann)"
    using ok(2) by (simp add: ll_valid_def new_line_def)
  from sealed_stored_as [OF sl this _ ok(3)] p1 \<open>s = m_sum E m'\<close> ai
  have "next_line_of E st l m' \<and> stored_as E pool bs l \<and> pool_ok E pool \<and> pool_le pool1 pool \<and>
    pool_kept pool1 pool \<and> ll_intent l = i \<and> ll_realized l = realized rz"
    by (auto simp: new_line_def next_line_of_def)
  with st a pb p1 show ?thesis using pool_le_trans pool_kept_trans by blast
qed

end

subsection \<open>Where a crash can leave the operation\<close>

text \<open>
  Unsynced blobs may be lost, appended bytes may be any beginning of what was
  written, and the working tree any tree.  The log may already be truncated to its
  valid prefix (\<open>recover\<close>) or not.
\<close>

inductive apply_crash ::
  "'s env \<Rightarrow> nat \<Rightarrow> string \<Rightarrow> intent \<Rightarrow> annotation \<Rightarrow> repo \<Rightarrow> repo \<Rightarrow> bool"
  for E now fork i ann r where
  reading: "apply_crash E now fork i ann r (with_pool (blob_crash (rp_pool r)) r)"
| pooling: "current_state E r fork = Ok st \<Longrightarrow> apply_intent E i (fs_manifest st) (rp_pool r) = Ok (m', rz) \<Longrightarrow>
    pool_blobs E (take n (new_blobs rz)) (rp_pool r) = Ok pool \<Longrightarrow>
    apply_crash E now fork i ann r (with_pool (blob_crash pool) (recover E fork r))"
| sealing: "prepare_apply E now fork i ann r = Ok (bs, l, pool) \<Longrightarrow>
    apply_crash E now fork i ann r (with_pool (blob_crash pool) (recover E fork r))"
| appending: "prepare_apply E now fork i ann r = Ok (bs, l, pool) \<Longrightarrow>
    apply_crash E now fork i ann r ((append_log fork (take n bs)
      (with_pool (blob_crash (blob_sync pool)) (recover E fork r)))\<lparr>rp_tree := t\<rparr>)"

text \<open>The repository as a crash right before the operation would leave it.\<close>

definition crashed :: "repo \<Rightarrow> repo" where
  "crashed r = with_pool (blob_crash (rp_pool r)) r"

lemma with_pool_simps [simp]:
  "rp_pool (with_pool p r) = p" "rp_forks (with_pool p r) = rp_forks r"
  "rp_anchors (with_pool p r) = rp_anchors r"
  by (simp_all add: with_pool_def)

lemma crash_mono:
  "bt_ok p \<Longrightarrow> bt_ok p' \<Longrightarrow> pool_kept p p' \<Longrightarrow> pool_le (blob_crash p) (blob_crash p')"
  by (auto simp: pool_le_def blob_get_Ok bt_get_crash pool_kept_def split: option.splits bool.splits)

lemma crash_below: "bt_ok p \<Longrightarrow> pool_le (blob_crash p) p"
  by (auto simp: pool_le_def blob_get_Ok bt_get_crash split: option.splits bool.splits)

text \<open>The recovered log does not depend on what the pool lost, when both states are read.\<close>

lemma kept_log_crashed:
  assumes "read_log E (crashed r) fork = Ok p'" "read_log E r fork = Ok p"
  shows "kept_log E (crashed r) fork = kept_log E r fork"
proof -
  from assms obtain d where d: "bt_get (rp_forks r) fork = Some d"
    "parse_log_lenient E (blob_get (rp_pool r)) (fd_log d) = Ok p"
    "parse_log_lenient E (blob_get (rp_pool (crashed r))) (fd_log d) = Ok p'"
    by (auto simp: read_log_def crashed_def)
  then have "pl_valid_prefix p' = pl_valid_prefix p"
    by (auto simp: parse_log_lenient_def split: if_splits prod.splits)
  with assms d(1) show ?thesis by (simp add: kept_log_def crashed_def)
qed

lemma relogged_set:
  assumes "bt_ok (rp_forks r)" "bt_get (rp_forks r) fork = Some d" "f (fd_log d) = log"
  shows "relogged fork r log (set_log fork f r)"
  using assms by (simp add: relogged_def set_log_def bt_get_insert)

lemma lenient_le:
  assumes "parse_log_lenient E f bs = Ok p" "\<And>h c. f h = Ok c \<Longrightarrow> g h = Ok c"
  shows "parse_log_lenient E g bs = Ok p"
  using assms(1) resolves_le [OF assms(2)]
  by (auto simp: parse_log_lenient_def split: if_splits prod.splits)

lemma state_in_more_pool:
  assumes "current_state E r fork = Ok st" "pool_le (rp_pool r) p"
  shows "current_state E (with_pool p r) fork = Ok st"
proof -
  have "read_log E (with_pool p r) fork = Ok q" if "read_log E r fork = Ok q" for q
    using that lenient_le [of E "blob_get (rp_pool r)" _ q "blob_get p"] assms(2)
    by (auto simp: read_log_def pool_le_def)
  moreover have "read_fork (with_pool p r) fork = read_fork r fork"
    "read_anchor_manifest E (with_pool p r) h = read_anchor_manifest E r h" for h
    by (simp_all add: read_fork_def read_anchor_manifest_def)
  ultimately show ?thesis using assms(1) unfolding current_state_iff by auto
qed

lemma uncrash: "with_pool (rp_pool r) (crashed r) = r"
  by (simp add: crashed_def with_pool_def)

lemma state_before_crash:
  "current_state E (crashed r) fork = Ok st \<Longrightarrow> bt_ok (rp_pool r) \<Longrightarrow> current_state E r fork = Ok st"
  using state_in_more_pool [of E "crashed r" fork st "rp_pool r"] crash_below [of "rp_pool r"]
  by (simp add: uncrash) (simp add: crashed_def)

text \<open>What the operation leaves, as a relogged fork of the crashed repository.\<close>

lemma relogged_append:
  assumes st: "current_state E (crashed r) fork = Ok st" and ok: "bt_ok (rp_pool r)" "bt_ok (rp_forks r)"
  shows "relogged fork (crashed r) (kept_log E (crashed r) fork) (with_pool p (recover E fork r))"
    and "relogged fork (crashed r) (kept_log E (crashed r) fork @ bs)
      ((append_log fork bs (with_pool p (recover E fork r)))\<lparr>rp_tree := t\<rparr>)"
proof -
  from st state_before_crash [OF st ok(1)] obtain q q' where q: "read_log E (crashed r) fork = Ok q'"
    "read_log E r fork = Ok q" unfolding current_state_iff by blast
  then obtain d where d: "bt_get (rp_forks r) fork = Some d" by (auto simp: read_log_def)
  have k: "kept_log E (crashed r) fork = take (pl_valid_prefix q) (fd_log d)"
    unfolding kept_log_crashed [OF q] by (simp add: kept_log_def q(2) d)
  show "relogged fork (crashed r) (kept_log E (crashed r) fork) (with_pool p (recover E fork r))"
    unfolding k using d ok(2)
    by (simp add: relogged_def recover_def q(2) set_log_def crashed_def bt_get_insert)
  show "relogged fork (crashed r) (kept_log E (crashed r) fork @ bs)
      ((append_log fork bs (with_pool p (recover E fork r)))\<lparr>rp_tree := t\<rparr>)"
    unfolding k using d ok(2)
    by (simp add: relogged_def recover_def q(2) set_log_def crashed_def bt_get_insert append_log_def
        bt_ok_insert with_pool_def)
qed

lemma refreshed_tree: "\<exists>t. refresh_working_tree l r = r\<lparr>rp_tree := t\<rparr>"
  by (auto simp: refresh_working_tree_def)

context setsum
begin

text \<open>A sealed line appended behind the recovered log, its pool synced: the next state, durably.\<close>

lemma appended_line:
  assumes H: "current_state E (crashed r) fork = Ok st" and ff: "read_fork r fork = Ok ff"
    and b: "bt_ok (rp_pool r)" and ok: "bt_ok (rp_forks r)"
    and n: "next_line_of E st l m'" and s: "stored_as E pool bs l"
    and pk: "bt_ok pool" "pool_kept (rp_pool r) pool"
    and r': "r' = (append_log fork bs (with_pool (blob_sync pool) (recover E fork r)))\<lparr>rp_tree := t\<rparr>"
  shows "\<exists>st'. current_state E r' fork = Ok st' \<and> current_state E (crashed r') fork = Ok st' \<and>
    follows E (ff_anchor ff) st l m' st'"
proof -
  have rl: "relogged fork (crashed r) (kept_log E (crashed r) fork @ bs) r'"
    unfolding r' by (rule relogged_append [OF H b ok])
  have pool: "rp_pool r' = blob_sync pool"
    unfolding r' by (simp add: append_log_def set_log_def split: option.splits)
  have le: "pool_le (rp_pool (crashed r)) (blob_sync pool)"
    using crash_mono [OF b pk] crash_below [OF pk(1)] sync_le pool_le_trans
    unfolding crashed_def by (metis with_pool_simps(1))
  from line_extends_state [OF H rl _ _ n, of ff] le stored_as_le [OF s sync_le] ff obtain st' where
    st': "current_state E r' fork = Ok st'" "follows E (ff_anchor ff) st l m' st'"
    by (auto simp: pool) (auto simp: crashed_def read_fork_def)
  have "crashed r' = r'" by (simp add: crashed_def pool blob_sync_crash) (simp add: with_pool_def pool [symmetric])
  with st' show ?thesis by auto
qed

text \<open>An operation that returns: its line is the fork's next.\<close>

lemma apply_inner_Ok:
  assumes a: "apply_inner E now fork i ann refresh r = Ok (l, r')"
    and ok: "pool_ok E (rp_pool r)" "bt_ok (rp_forks r)" "an_valid ann" "readable E l"
    and ff: "read_fork r fork = Ok ff"
    and H: "current_state E (crashed r) fork = Ok st"
  shows "\<exists>m' rz st'. apply_intent E i (fs_manifest st) (rp_pool r) = Ok (m', rz) \<and> ll_intent l = i \<and>
    ll_realized l = realized rz \<and> current_state E r' fork = Ok st' \<and>
    current_state E (crashed r') fork = Ok st' \<and> follows E (ff_anchor ff) st l m' st'"
proof -
  note b = pool_ok_bt [OF ok(1)]
  from a obtain bs pool where p: "prepare_apply E now fork i ann r = Ok (bs, l, pool)"
    and r': "r' = (let r = append_log fork bs (with_pool (blob_sync pool) (recover E fork r)) in
       if refresh then refresh_working_tree l r else r)"
    by (auto simp: apply_inner_def Let_def)
  have t: "r' = (append_log fork bs (with_pool (blob_sync pool) (recover E fork r)))\<lparr>rp_tree := rp_tree r'\<rparr>"
    using refreshed_tree [of l "append_log fork bs (with_pool (blob_sync pool) (recover E fork r))"]
    by (auto simp: r' Let_def)
  from prepare_apply_Ok [OF p ok(1,3,4)] state_before_crash [OF H b] obtain m' rz where
    a: "apply_intent E i (fs_manifest st) (rp_pool r) = Ok (m', rz)" "ll_intent l = i" "ll_realized l = realized rz"
    and n: "next_line_of E st l m'" and s: "stored_as E pool bs l"
    and pk: "pool_ok E pool" "pool_kept (rp_pool r) pool" by auto
  from appended_line [OF H ff b ok(2) n s pool_ok_bt [OF pk(1)] pk(2) t] a show ?thesis by blast
qed

text \<open>A crash anywhere in it leaves the old state or the new one.\<close>

lemma apply_crash_atomic:
  assumes c: "apply_crash E now fork i ann r r'"
    and ok: "pool_ok E (rp_pool r)" "bt_ok (rp_forks r)" "an_valid ann"
      "\<And>bs l pool. prepare_apply E now fork i ann r = Ok (bs, l, pool) \<Longrightarrow> readable E l"
    and ff: "read_fork r fork = Ok ff"
    and H: "current_state E (crashed r) fork = Ok st"
  shows "current_state E r' fork = Ok st \<or>
    (\<exists>m' rz l st'. apply_intent E i (fs_manifest st) (rp_pool r) = Ok (m', rz) \<and> ll_intent l = i \<and>
       ll_realized l = realized rz \<and> current_state E r' fork = Ok st' \<and> follows E (ff_anchor ff) st l m' st')"
  using c
proof cases
  case reading
  with H show ?thesis by (simp add: crashed_def)
next
  case (pooling st0 m' rz n pool)
  note b = pool_ok_bt [OF ok(1)]
  note p = pool_blobs_Ok [OF pooling(4) ok(1)]
  have "current_state E r' fork = Ok st"
    using torn_keeps_state [OF H, of "[]" r'] relogged_append(1) [OF H b ok(2)] p
      crash_mono [OF b pool_ok_bt [of E]] unfolding pooling(1) by (simp add: crashed_def)
  then show ?thesis ..
next
  case (sealing bs l pool)
  note b = pool_ok_bt [OF ok(1)]
  from prepare_apply_Ok [OF sealing(2) ok(1,3) ok(4) [OF sealing(2)]]
  have p: "pool_ok E pool" "pool_kept (rp_pool r) pool" by auto
  have "current_state E r' fork = Ok st"
    using torn_keeps_state [OF H, of "[]" r'] relogged_append(1) [OF H b ok(2)] p
      crash_mono [OF b pool_ok_bt [of E]] unfolding sealing(1) by (simp add: crashed_def)
  then show ?thesis ..
next
  case (appending bs l pool tree n)
  note b = pool_ok_bt [OF ok(1)]
  have st: "current_state E r fork = Ok st" by (rule state_before_crash [OF H b])
  from prepare_apply_Ok [OF appending(2) ok(1,3) ok(4) [OF appending(2)]] st obtain m' rz where
    a: "apply_intent E i (fs_manifest st) (rp_pool r) = Ok (m', rz)" "ll_intent l = i" "ll_realized l = realized rz"
    and nx: "next_line_of E st l m'" and s: "stored_as E pool bs l"
    and p: "pool_ok E pool" "pool_kept (rp_pool r) pool" by auto
  have rl: "relogged fork (crashed r) (kept_log E (crashed r) fork @ take n bs) r'"
    unfolding appending(1) by (rule relogged_append [OF H b ok(2)])
  have pool: "rp_pool r' = blob_crash (blob_sync pool)"
    unfolding appending(1) by (simp add: append_log_def set_log_def split: option.splits)
  have le: "pool_le (rp_pool (crashed r)) (rp_pool r')"
    using crash_mono [OF b bt_ok_sync [OF pool_ok_bt [OF p(1)]] pool_kept_trans [OF p(2) sync_kept]]
    by (simp add: pool crashed_def)
  from s obtain t where t: "bs = t @ [LF]" "LF \<notin> set t" by (auto simp: stored_as_def)
  show ?thesis
  proof (cases "n \<le> length t")
    case True
    then have "LF \<notin> set (take n bs)" using t in_set_takeD by fastforce
    from torn_keeps_state [OF H rl le this] show ?thesis ..
  next
    case False
    then have "take n bs = bs" by (simp add: t)
    with line_extends_state [OF H _ le, of bs l m' ff] rl nx ff
      stored_as_le [OF s crash_synced_le [OF pool_ok_bt [OF p(1)]]]
    obtain st' where "current_state E r' fork = Ok st'" "follows E (ff_anchor ff) st l m' st'"
      by (auto simp: pool) (auto simp: crashed_def read_fork_def)
    with a show ?thesis by blast
  qed
qed

end

end
