(* ===== verification/Batch.thy ===== *)
theory Batch
  imports WritePath
begin

text \<open>
  Appends of several lines at once, of \<open>src/src/repo.rs\<close>: imported batches and the
  batch of a union.  Main results: a finished batch is the fork's next lines, and a
  crash inside the write keeps a beginning of the batch, any beginning: the write is
  atomic line by line, not as a whole.
\<close>

subsection \<open>Batches\<close>

record 's batch_run =
  br_manifest :: manifest
  br_sum :: 's
  br_prev :: string
  br_bytes :: bytes
  br_lines :: "log_line list"
  br_pool :: pool

definition batch_step ::
  "'s env \<Rightarrow> nat \<Rightarrow> realized_entry list \<times> annotation \<times> nat \<Rightarrow> 's batch_run \<Rightarrow> 's batch_run result" where
  "batch_step E now item b = (case item of (es, ann, ms) \<Rightarrow>
     rbind (apply_realized_to_manifest (br_manifest b) es) (\<lambda>m.
     rbind (blobs_present (br_pool b) es) (\<lambda>_.
     rbind (apply_realized_to_sum E (br_sum b) es) (\<lambda>s.
     rbind (seal E now (new_line (br_prev b) \<lparr>ops = []\<rparr> es (ss_hexdigest E s) ms ann) (br_pool b)) (\<lambda>(bs, l, pool).
     Ok \<lparr>br_manifest = m, br_sum = s, br_prev = ll_id l, br_bytes = br_bytes b @ bs,
         br_lines = br_lines b @ [l], br_pool = pool\<rparr>)))))"

definition batch_start :: "'s env \<Rightarrow> fork_state \<Rightarrow> pool \<Rightarrow> 's batch_run" where
  "batch_start E st pool = \<lparr>br_manifest = fs_manifest st, br_sum = m_sum E (fs_manifest st),
     br_prev = fs_head_id st, br_bytes = [], br_lines = [], br_pool = pool\<rparr>"

definition prepare_batch ::
  "'s env \<Rightarrow> nat \<Rightarrow> string \<Rightarrow> (realized_entry list \<times> annotation \<times> nat) list \<Rightarrow> repo \<Rightarrow> 's batch_run result" where
  "prepare_batch E now fork batch r =
     rbind (ok_or Io (bt_get (rp_forks r) fork)) (\<lambda>_.
     rbind (current_state E r fork) (\<lambda>st.
     rfold (batch_step E now) batch (batch_start E st (rp_pool r))))"

definition append_realized_batch ::
  "'s env \<Rightarrow> nat \<Rightarrow> string \<Rightarrow> (realized_entry list \<times> annotation \<times> nat) list \<Rightarrow> repo \<Rightarrow> (nat \<times> repo) result" where
  "append_realized_batch E now fork batch r =
     rmap (\<lambda>b.
       if br_lines b = [] then (0, recover E fork r) else
       (length (br_lines b),
        fold refresh_working_tree (br_lines b)
          (append_log fork (br_bytes b) (with_pool (blob_sync (br_pool b)) (recover E fork r)))))
     (prepare_batch E now fork batch r)"

text \<open>Union's append: the caller holds the lock, sealed the lines and pooled the blobs.\<close>

definition append_sealed_locked :: "string \<Rightarrow> log_line list \<Rightarrow> bytes \<Rightarrow> repo \<Rightarrow> repo result" where
  "append_sealed_locked fork ls bs r =
     (if ls = [] then Ok r else
      rmap (\<lambda>_. fold refresh_working_tree ls (append_log fork bs (with_pool (blob_sync (rp_pool r)) r)))
        (ok_or Io (bt_get (rp_forks r) fork)))"

subsection \<open>Several lines extend a state\<close>

fun lines_follow :: "'s env \<Rightarrow> string \<Rightarrow> manifest \<Rightarrow> log_line list \<Rightarrow> manifest \<Rightarrow> bool" where
  "lines_follow E prev m [] m' \<longleftrightarrow> m' = m"
| "lines_follow E prev m (l # ls) m' \<longleftrightarrow> (\<exists>m1. apply_realized_to_manifest m (ll_realized l) = Ok m1 \<and>
     ll_prev l = prev \<and> ll_sum_after l = ss_hexdigest E (m_sum E m1) \<and> lines_follow E (ll_id l) m1 ls m')"

lemma lines_follow_snoc:
  "lines_follow E prev m (ls @ [l]) m' \<longleftrightarrow> (\<exists>m1. lines_follow E prev m ls m1 \<and>
     apply_realized_to_manifest m1 (ll_realized l) = Ok m' \<and>
     ll_prev l = (if ls = [] then prev else ll_id (last ls)) \<and> ll_sum_after l = ss_hexdigest E (m_sum E m'))"
  by (induction ls arbitrary: prev m) auto

lemma lines_follow_take: "lines_follow E prev m ls m' \<Longrightarrow> \<exists>m1. lines_follow E prev m (take k ls) m1"
proof (induction ls arbitrary: prev m k)
  case (Cons l ls)
  then show ?case by (cases k) auto
qed auto

text \<open>Behind a recovered log: whole lines, then a torn one.\<close>

lemma read_appended_lines:
  assumes p: "parse_log_lenient E (blob_get p) log = Ok pl" and le: "pool_le p p'"
    and ls: "list_all2 (stored_as E p') pieces ls" and torn: "LF \<notin> set torn"
  shows "\<exists>n. parse_log_lenient E (blob_get p') (take (pl_valid_prefix pl) log @ concat pieces @ torn) =
      Ok \<lparr>pl_lines = pl_lines pl @ ls, pl_valid_prefix = n\<rparr>"
proof -
  from lenient_Ok [OF p] obtain ts ss where
    ts: "take (pl_valid_prefix pl) log = unlines ts" "stored_texts E ts ss"
    "rmapM (stored_resolve E (blob_get p)) ss = Ok (pl_lines pl)" by blast
  have r: "rmapM (stored_resolve E (blob_get p')) ss = Ok (pl_lines pl)"
    by (rule resolves_le [OF _ ts(3)]) (use le in \<open>simp add: pool_le_def\<close>)
  from ls have "\<exists>us xs. concat pieces = unlines us \<and> stored_texts E us xs \<and>
    rmapM (stored_resolve E (blob_get p')) xs = Ok ls"
  proof (induction rule: list_all2_induct)
    case Nil
    then show ?case by (intro exI [of _ "[]"]) (simp add: stored_texts_def)
  next
    case (Cons c cs l ls)
    from Cons.IH obtain us xs where ih: "concat cs = unlines us" "stored_texts E us xs"
      "rmapM (stored_resolve E (blob_get p')) xs = Ok ls" by blast
    from Cons.hyps(1) obtain t x where t: "c = t @ [LF]" "LF \<notin> set t" "from_utf8 t"
      "stored_parse E t = Ok x" "stored_resolve E (blob_get p') x = Ok l" by (auto simp: stored_as_def)
    then show ?case
      using ih by (intro exI [of _ "t # us"] exI [of _ "x # xs"]) (simp add: stored_texts_def)
  qed
  then obtain us xs where us: "concat pieces = unlines us" "stored_texts E us xs"
    "rmapM (stored_resolve E (blob_get p')) xs = Ok ls" by blast
  have "stored_texts E (ts @ us) (ss @ xs)"
    using ts(2) us(2) by (simp add: stored_texts_def list_all2_appendI)
  from lenient_torn_tail [OF this _ torn, of "blob_get p'" "pl_lines pl @ ls"] r us(3)
  show ?thesis by (simp add: ts(1) us(1) rmapM_append)
qed

text \<open>A beginning of stored lines: some of them whole, then a piece of the next.\<close>

lemma torn_prefix:
  "list_all2 (stored_as E p) pieces ls \<Longrightarrow>
     \<exists>k torn. take n (concat pieces) = concat (take k pieces) @ torn \<and> LF \<notin> set torn"
proof (induction arbitrary: n rule: list_all2_induct)
  case Nil
  show ?case by (intro exI [of _ 0] exI [of _ "[]"]) simp
next
  case (Cons c cs l ls)
  from Cons.hyps(1) obtain t where t: "c = t @ [LF]" "LF \<notin> set t" by (auto simp: stored_as_def)
  show ?case
  proof (cases "n \<le> length t")
    case True
    with t have "take n (concat (c # cs)) = concat (take 0 (c # cs)) @ take n t" "LF \<notin> set (take n t)"
      by (auto dest: in_set_takeD)
    then show ?thesis by blast
  next
    case False
    from Cons.IH [of "n - length c"] obtain k torn where
      "take (n - length c) (concat cs) = concat (take k cs) @ torn" "LF \<notin> set torn" by blast
    with False t(1) have "take n (concat (c # cs)) = concat (take (Suc k) (c # cs)) @ torn" "LF \<notin> set torn"
      by (auto simp: take_Cons')
    then show ?thesis by blast
  qed
qed

definition batch_inv :: "'s env \<Rightarrow> fork_state \<Rightarrow> pool \<Rightarrow> 's batch_run \<Rightarrow> bool" where
  "batch_inv E st p0 b \<longleftrightarrow> br_sum b = m_sum E (br_manifest b) \<and> m_ok (br_manifest b) \<and>
     pool_ok E (br_pool b) \<and> pool_kept p0 (br_pool b) \<and>
     br_prev b = (if br_lines b = [] then fs_head_id st else ll_id (last (br_lines b))) \<and>
     lines_follow E (fs_head_id st) (fs_manifest st) (br_lines b) (br_manifest b) \<and>
     (\<exists>pieces. br_bytes b = concat pieces \<and> list_all2 (stored_as E (br_pool b)) pieces (br_lines b))"

lemma lines_follow_realized:
  "lines_follow E prev m ls m' \<Longrightarrow> apply_realized_to_manifest m (concat (map ll_realized ls)) = Ok m'"
  by (induction ls arbitrary: prev m) (auto simp: apply_realized_append)

text \<open>The state is the same on the recovered log.\<close>

lemma recovered_state:
  assumes H: "current_state E (crashed r) fork = Ok st" and ok: "bt_ok (rp_pool r)" "bt_ok (rp_forks r)"
    and p: "bt_ok p" "pool_kept (rp_pool r) p"
  shows "current_state E (crashed (with_pool p (recover E fork r))) fork = Ok st"
proof (rule torn_keeps_state [OF H, of "[]"])
  have "crashed (with_pool p (recover E fork r)) = with_pool (blob_crash p) (recover E fork r)"
    by (simp add: crashed_def) (simp add: with_pool_def)
  then show "relogged fork (crashed r) (kept_log E (crashed r) fork @ []) (crashed (with_pool p (recover E fork r)))"
    using relogged_append(1) [OF H ok] by simp
  show "pool_le (rp_pool (crashed r)) (rp_pool (crashed (with_pool p (recover E fork r))))"
    using crash_mono [OF ok(1) p] by (simp add: crashed_def)
qed simp

lemma refreshed_trees: "\<exists>t. fold refresh_working_tree ls r = r\<lparr>rp_tree := t\<rparr>"
proof (induction ls arbitrary: r)
  case Nil
  show ?case by (intro exI [of _ "rp_tree r"]) simp
next
  case (Cons l ls)
  obtain t where "refresh_working_tree l r = r\<lparr>rp_tree := t\<rparr>" using refreshed_tree by blast
  with Cons.IH [of "r\<lparr>rp_tree := t\<rparr>"] show ?case by auto
qed

text \<open>
  What a crash inside the append leaves: the log held \<open>old\<close>, \<open>n\<close> bytes of the batch got to the
  device, and the working tree is whatever it was.
\<close>

definition cut_append :: "string \<Rightarrow> bytes \<Rightarrow> nat \<Rightarrow> tree \<Rightarrow> repo \<Rightarrow> repo" where
  "cut_append fork old n t r1 = (crashed (set_log fork (take (length old + n)) r1))\<lparr>rp_tree := t\<rparr>"

context setsum
begin

lemma state_of_lines_append:
  assumes st: "state_of_lines E anchor m0 ks = Ok st" and m0: "m_ok m0" "ss_hexdigest E (m_sum E m0) = anchor"
  shows "lines_follow E (fs_head_id st) (fs_manifest st) ls m' \<Longrightarrow> \<forall>l \<in> set ls. ll_sum_after l \<noteq> anchor \<Longrightarrow>
    \<exists>st'. state_of_lines E anchor m0 (ks @ ls) = Ok st' \<and> fs_lines st' = ks @ ls \<and> fs_manifest st' = m' \<and>
      fs_head_id st' = (if ls = [] then fs_head_id st else ll_id (last ls))"
proof (induction ls arbitrary: m' rule: rev_induct)
  case Nil
  with st state_of_lines_Ok [OF st m0(1)] show ?case by simp
next
  case (snoc l ls)
  then obtain m1 where m1: "lines_follow E (fs_head_id st) (fs_manifest st) ls m1"
    "apply_realized_to_manifest m1 (ll_realized l) = Ok m'"
    "ll_prev l = (if ls = [] then fs_head_id st else ll_id (last ls))"
    "ll_sum_after l = ss_hexdigest E (m_sum E m')" by (auto simp: lines_follow_snoc)
  from snoc.IH [OF m1(1)] snoc.prems(2) obtain st1 where
    st1: "state_of_lines E anchor m0 (ks @ ls) = Ok st1" "fs_lines st1 = ks @ ls" "fs_manifest st1 = m1"
      "fs_head_id st1 = (if ls = [] then fs_head_id st else ll_id (last ls))" by auto
  have "state_of_lines E anchor m0 ((ks @ ls) @ [l]) = Ok (extended anchor m0 st1 l m')"
    by (rule state_of_lines_snoc [OF st1(1) m0]) (use m1 st1 in simp_all)
  with st1 snoc.prems(2) show ?case by (simp add: extended_def)
qed

lemma lines_extend_state:
  assumes st: "current_state E r fork = Ok st"
    and r': "relogged fork r (kept_log E r fork @ concat pieces @ torn) r'" and torn: "LF \<notin> set torn"
    and le: "pool_le (rp_pool r) (rp_pool r')" and ls: "list_all2 (stored_as E (rp_pool r')) pieces ls"
    and fl: "lines_follow E (fs_head_id st) (fs_manifest st) ls m'" and ff: "read_fork r fork = Ok ff"
    and away: "\<forall>l \<in> set ls. ll_sum_after l \<noteq> ff_anchor ff"
  shows "\<exists>st'. current_state E r' fork = Ok st' \<and> fs_lines st' = fs_lines st @ ls \<and> fs_manifest st' = m'"
proof -
  from st ff obtain m0 p where c: "read_anchor_manifest E r (ff_manifest ff) = Ok m0"
    "ss_hexdigest E (m_sum E m0) = ff_anchor ff"
    "read_log E r fork = Ok p" "state_of_lines E (ff_anchor ff) m0 (pl_lines p) = Ok st"
    unfolding current_state_iff by auto
  from c(3) obtain d where d: "bt_get (rp_forks r) fork = Some d"
    "parse_log_lenient E (blob_get (rp_pool r)) (fd_log d) = Ok p" by (auto simp: read_log_def)
  have m0: "m_ok m0" using read_anchor_Ok [OF c(1)] by simp
  from read_appended_lines [OF d(2) le ls torn] obtain n where
    "read_log E r' fork = Ok \<lparr>pl_lines = pl_lines p @ ls, pl_valid_prefix = n\<rparr>"
    using relogged_reads(3) [OF r', of E] by (auto simp: kept_log_def c(3) d(1))
  moreover from state_of_lines_append [OF c(4) m0 c(2) fl away] obtain st' where
    "state_of_lines E (ff_anchor ff) m0 (pl_lines p @ ls) = Ok st'" "fs_lines st' = pl_lines p @ ls"
    "fs_manifest st' = m'" by blast
  ultimately show ?thesis
    using c ff state_of_lines_Ok [OF c(4) m0] unfolding current_state_iff relogged_reads(1,2) [OF r'] by auto
qed

text \<open>
  A crash of a union's append, which has synced the pool and got \<open>n\<close> bytes of the batch into
  the log: the lines written in full stay, and what is left of the next one is dropped.  The
  hypothesis on the anchor keeps the replay's start in place.
\<close>

lemma sealed_append_crash:
  assumes ap: "append_sealed_locked fork ls (concat pieces) r = Ok r1" "ls \<noteq> []"
    and H: "current_state E r fork = Ok st" and ff: "read_fork r fork = Ok ff"
    and ls: "list_all2 (stored_as E (rp_pool r)) pieces ls"
    and fl: "lines_follow E (fs_head_id st) (fs_manifest st) ls m'"
    and away: "\<forall>l \<in> set ls. ll_sum_after l \<noteq> ff_anchor ff"
    and log: "log_bytes r fork = Ok old" "old = kept_log E r fork" and ok: "bt_ok (rp_forks r)" "bt_ok (rp_pool r)"
  shows "\<exists>k torn st'. take n (concat pieces) = concat (take k pieces) @ torn \<and> LF \<notin> set torn \<and>
      current_state E (cut_append fork old n t r1) fork = Ok st' \<and> fs_lines st' = fs_lines st @ take k ls \<and>
      lines_follow E (fs_head_id st) (fs_manifest st) (take k ls) (fs_manifest st')"
proof -
  let ?r = "cut_append fork old n t r1"
  from torn_prefix [OF ls] obtain k torn where
    k: "take n (concat pieces) = concat (take k pieces) @ torn" "LF \<notin> set torn" by blast
  from log obtain d where d: "bt_get (rp_forks r) fork = Some d" "fd_log d = kept_log E r fork"
    by (auto simp: log_bytes_def)
  obtain t' where r1: "r1 = (append_log fork (concat pieces) (with_pool (blob_sync (rp_pool r)) r))\<lparr>rp_tree := t'\<rparr>"
    using ap d(1) refreshed_trees [of ls "append_log fork (concat pieces) (with_pool (blob_sync (rp_pool r)) r)"]
    by (auto simp: append_sealed_locked_def)
  have rp: "rp_pool ?r = blob_crash (blob_sync (rp_pool r))"
    by (simp add: cut_append_def crashed_def r1 append_log_def set_log_def split: option.split)
  then have le: "pool_le (rp_pool r) (rp_pool ?r)" using crash_synced_le [OF ok(2)] by simp
  have rl: "relogged fork r (kept_log E r fork @ concat (take k pieces) @ torn) ?r"
    unfolding k(1) [symmetric] using d ok(1) log(2)
    by (simp add: relogged_def cut_append_def crashed_def r1 append_log_def set_log_def bt_get_insert bt_ok_insert)
  have "list_all2 (stored_as E (rp_pool ?r)) (take k pieces) (take k ls)"
    by (rule list_all2_takeI) (rule list_all2_mono [OF ls], rule stored_as_le [OF _ le])
  moreover from lines_follow_take [OF fl] obtain m1 where
    m1: "lines_follow E (fs_head_id st) (fs_manifest st) (take k ls) m1" by blast
  ultimately obtain st' where "current_state E ?r fork = Ok st'" "fs_lines st' = fs_lines st @ take k ls"
    "fs_manifest st' = m1"
    using lines_extend_state [OF H rl k(2) le _ _ ff, of "take k ls" m1] away by (auto dest: in_set_takeD)
  with k m1 show ?thesis by blast
qed

text \<open>One more sealed line.\<close>

lemma sealed_inv:
  assumes b: "batch_inv E st p0 b" and m: "apply_realized_to_manifest (br_manifest b) es = Ok m"
    and x: "apply_realized_to_sum E (br_sum b) es = Ok x"
    and p: "pool_ok E p1" "pool_le (br_pool b) p1" "pool_kept (br_pool b) p1"
    and sl: "seal E now (new_line (br_prev b) i es (ss_hexdigest E x) ms ann) p1 = Ok (bs, l, pool)"
    and v: "an_valid ann" "ms < 2 ^ 64" "readable E l"
  shows "batch_inv E st p0 \<lparr>br_manifest = m, br_sum = x, br_prev = ll_id l, br_bytes = br_bytes b @ bs,
         br_lines = br_lines b @ [l], br_pool = pool\<rparr> \<and> ll_realized l = es \<and> ll_intent l = i \<and>
         pool_le p1 pool \<and> pool_kept p1 pool"
proof -
  from b obtain pieces where pc: "br_bytes b = concat pieces" "list_all2 (stored_as E (br_pool b)) pieces (br_lines b)"
    by (auto simp: batch_inv_def)
  have xm: "x = m_sum E m" using realized_sum [OF _ m] x b by (auto simp: batch_inv_def)
  have val: "ll_valid (new_line (br_prev b) i es (ss_hexdigest E x) ms ann)"
    using v by (simp add: ll_valid_def new_line_def)
  from sealed_stored_as [OF sl val p(1) v(3)] have k: "stored_as E pool bs l" "pool_ok E pool"
    "pool_le p1 pool" "pool_kept p1 pool" "ll_realized l = es" "ll_prev l = br_prev b"
    "ll_sum_after l = ss_hexdigest E (m_sum E m)" "ll_intent l = i" by (auto simp: new_line_def xm)
  have le: "pool_le (br_pool b) pool" using pool_le_trans [OF p(2) k(3)] .
  have "list_all2 (stored_as E pool) (pieces @ [bs]) (br_lines b @ [l])"
    using list_all2_mono [OF pc(2) stored_as_le [OF _ le]] k(1) by (intro list_all2_appendI) auto
  moreover have "br_bytes b @ bs = concat (pieces @ [bs])" by (simp add: pc(1))
  moreover have "m_ok m" using apply_realized_ok [OF _ m] b by (simp add: batch_inv_def)
  moreover have "pool_kept p0 pool"
    using pool_kept_trans [OF pool_kept_trans [OF _ p(3)] k(4)] b by (simp add: batch_inv_def)
  moreover have "lines_follow E (fs_head_id st) (fs_manifest st) (br_lines b @ [l]) m"
    using b m k(5-7) unfolding lines_follow_snoc by (auto simp: batch_inv_def)
  ultimately show ?thesis
    using k by (auto simp: batch_inv_def xm intro!: exI [of _ "pieces @ [bs]"])
qed

lemma batch_step_inv:
  assumes b: "batch_inv E st p0 b" and s: "batch_step E now (es, ann, ms) b = Ok b'"
    and v: "an_valid ann" "ms < 2 ^ 64" "readable E (last (br_lines b'))"
  shows "batch_inv E st p0 b' \<and> (\<exists>l. br_lines b' = br_lines b @ [l] \<and> ll_realized l = es)"
proof -
  from s obtain m x bs l pool where m: "apply_realized_to_manifest (br_manifest b) es = Ok m"
    and x: "apply_realized_to_sum E (br_sum b) es = Ok x"
    and sl: "seal E now (new_line (br_prev b) \<lparr>ops = []\<rparr> es (ss_hexdigest E x) ms ann) (br_pool b) = Ok (bs, l, pool)"
    and b': "b' = \<lparr>br_manifest = m, br_sum = x, br_prev = ll_id l, br_bytes = br_bytes b @ bs,
         br_lines = br_lines b @ [l], br_pool = pool\<rparr>"
    by (auto simp: batch_step_def)
  have "pool_ok E (br_pool b)" using b by (simp add: batch_inv_def)
  from sealed_inv [OF b m x this pool_le_refl pool_kept_refl sl v(1,2)] v(3) show ?thesis by (simp add: b')
qed

lemma batch_run_inv:
  assumes "rfold (batch_step E now) batch (batch_start E st p0) = Ok b" "m_ok (fs_manifest st)" "pool_ok E p0"
    "\<forall>(es, ann, ms) \<in> set batch. an_valid ann \<and> ms < 2 ^ 64" "\<forall>l \<in> set (br_lines b). readable E l"
  shows "batch_inv E st p0 b \<and> map ll_realized (br_lines b) = map fst batch"
  using assms
proof (induction batch arbitrary: b rule: rev_induct)
  case Nil
  then show ?case by (auto simp: batch_start_def batch_inv_def intro!: exI [of _ "[]"])
next
  case (snoc item batch)
  obtain es ann ms where item: "item = (es, ann, ms)" by (cases item) auto
  from snoc.prems(1) obtain b1 where b1: "rfold (batch_step E now) batch (batch_start E st p0) = Ok b1"
    "batch_step E now (es, ann, ms) b1 = Ok b" by (auto simp: rfold_append item)
  then obtain l where l: "br_lines b = br_lines b1 @ [l]" by (auto simp: batch_step_def)
  from snoc.IH [OF b1(1) snoc.prems(2,3)] snoc.prems(4,5) l have i: "batch_inv E st p0 b1"
    "map ll_realized (br_lines b1) = map fst batch" by auto
  from batch_step_inv [OF i(1) b1(2)] snoc.prems(4,5) l i(2) show ?case by (auto simp: item)
qed

text \<open>A run of lines that is appended is the fork's next lines, crash or not.\<close>

lemma batch_landed:
  assumes i: "batch_inv E st (rp_pool r) b" and bok: "bt_ok (rp_pool r)" "bt_ok (rp_forks r)"
    and ff: "read_fork r fork = Ok ff" and away: "\<forall>l \<in> set (br_lines b). ll_sum_after l \<noteq> ff_anchor ff"
    and H: "current_state E (crashed r) fork = Ok st"
    and r': "r' = fold refresh_working_tree ls
        (append_log fork (br_bytes b) (with_pool (blob_sync (br_pool b)) (recover E fork r)))"
  shows "crashed r' = r' \<and> (\<exists>st'. current_state E r' fork = Ok st' \<and> fs_lines st' = fs_lines st @ br_lines b \<and>
    fs_manifest st' = br_manifest b)"
proof -
  from i obtain pieces where pc: "br_bytes b = concat pieces" "list_all2 (stored_as E (br_pool b)) pieces (br_lines b)"
    and fl: "lines_follow E (fs_head_id st) (fs_manifest st) (br_lines b) (br_manifest b)"
    and pool: "pool_ok E (br_pool b)" "pool_kept (rp_pool r) (br_pool b)" by (auto simp: batch_inv_def)
  obtain t where t: "r' = (append_log fork (br_bytes b) (with_pool (blob_sync (br_pool b)) (recover E fork r)))\<lparr>rp_tree := t\<rparr>"
    using refreshed_trees r' by force
  have rl: "relogged fork (crashed r) (kept_log E (crashed r) fork @ concat pieces @ []) r'"
    unfolding t pc(1) append_Nil2 by (rule relogged_append [OF H bok])
  have rp: "rp_pool r' = blob_sync (br_pool b)"
    unfolding t by (simp add: append_log_def set_log_def split: option.splits)
  have "crashed r' = r'"
    by (simp add: crashed_def rp blob_sync_crash) (simp add: with_pool_def rp [symmetric])
  moreover have "pool_le (rp_pool (crashed r)) (rp_pool r')"
    using crash_mono [OF bok(1) bt_ok_sync [OF pool_ok_bt [OF pool(1)]] pool_kept_trans [OF pool(2) sync_kept]]
    by (simp add: rp crashed_def blob_sync_crash)
  moreover have "list_all2 (stored_as E (rp_pool r')) pieces (br_lines b)"
    using list_all2_mono [OF pc(2) stored_as_le [OF _ sync_le]] by (simp add: rp)
  moreover have "read_fork (crashed r) fork = Ok ff" using ff by (simp add: crashed_def read_fork_def)
  ultimately show ?thesis
    using lines_extend_state [OF H rl _ _ _ fl _ away] by simp
qed

lemma batch_next:
  assumes a: "append_realized_batch E now fork batch r = Ok (n, r')" and p: "prepare_batch E now fork batch r = Ok b"
    and ok: "pool_ok E (rp_pool r)" "bt_ok (rp_forks r)"
      "\<forall>(es, ann, ms) \<in> set batch. an_valid ann \<and> ms < 2 ^ 64" "\<forall>l \<in> set (br_lines b). readable E l"
    and ff: "read_fork r fork = Ok ff" and away: "\<forall>l \<in> set (br_lines b). ll_sum_after l \<noteq> ff_anchor ff"
    and H: "current_state E (crashed r) fork = Ok st"
  shows "n = length batch \<and> (\<exists>st'. current_state E (crashed r') fork = Ok st' \<and>
    fs_lines st' = fs_lines st @ br_lines b \<and> map ll_realized (br_lines b) = map fst batch \<and>
    apply_realized_to_manifest (fs_manifest st) (concat (map fst batch)) = Ok (fs_manifest st'))"
proof -
  note b = pool_ok_bt [OF ok(1)]
  have st: "current_state E r fork = Ok st" by (rule state_before_crash [OF H b])
  have m: "m_ok (fs_manifest st)" using current_state_ok [OF st] by (simp add: state_ok_def)
  have "rfold (batch_step E now) batch (batch_start E st (rp_pool r)) = Ok b"
    using p st by (auto simp: prepare_batch_def)
  from batch_run_inv [OF this m ok(1,3,4)] have i: "batch_inv E st (rp_pool r) b"
    and es: "map ll_realized (br_lines b) = map fst batch" by auto
  from i obtain pieces where pc: "br_bytes b = concat pieces" "list_all2 (stored_as E (br_pool b)) pieces (br_lines b)"
    and fl: "lines_follow E (fs_head_id st) (fs_manifest st) (br_lines b) (br_manifest b)"
    and pool: "pool_ok E (br_pool b)" "pool_kept (rp_pool r) (br_pool b)" by (auto simp: batch_inv_def)
  have n: "n = length batch" and r': "r' = (if br_lines b = [] then recover E fork r else
      fold refresh_working_tree (br_lines b)
        (append_log fork (br_bytes b) (with_pool (blob_sync (br_pool b)) (recover E fork r))))"
    using a p arg_cong [OF es, of length] by (auto simp: append_realized_batch_def split: if_splits)
  have res: "\<exists>st'. current_state E (crashed r') fork = Ok st' \<and> fs_lines st' = fs_lines st @ br_lines b \<and>
    fs_manifest st' = br_manifest b"
  proof (cases "br_lines b = []")
    case True
    have "with_pool (rp_pool r) (recover E fork r) = recover E fork r"
      by (auto simp: with_pool_def recover_def set_log_def split: sum.splits option.splits)
    with recovered_state [OF H b ok(2) b] True fl show ?thesis by (simp add: r')
  next
    case False
    with batch_landed [OF i b ok(2) ff away H, of r' "br_lines b"] r' show ?thesis by auto
  qed
  with n es lines_follow_realized [OF fl] show ?thesis by auto
qed

end

end
