(* ===== verification/Ops.thy ===== *)
theory Ops
  imports Lineage Batch
begin

text \<open>
  The operations of \<open>src/src/repo.rs\<close> on top of the write path: commits of
  the working tree, repoints, fuses, restores and the check.  Main results: a delta
  applied as it is moves the state exactly by it; a commit takes the fork to the
  working tree's state on the selected paths and leaves the rest; a repoint takes it
  to its target.
\<close>

subsection \<open>Pathspecs\<close>

definition trim_slashes :: "string \<Rightarrow> string" where
  "trim_slashes f = rev (dropWhile (\<lambda>c. c = CHR ''/'') (rev f))"

definition under_filter :: "string \<Rightarrow> string \<Rightarrow> bool" where
  "under_filter path f = (let f = trim_slashes f in path = f \<or> starts_with (f @ ''/'') path)"

subsection \<open>Commits\<close>

text \<open>The walk pools the working tree's contents first; those blobs stay whatever follows.\<close>

definition selected :: "string list option \<Rightarrow> string \<Rightarrow> bool" where
  "selected filters path = (case filters of None \<Rightarrow> True | Some fs \<Rightarrow> list_ex (under_filter path) fs)"

definition commit ::
  "'s env \<Rightarrow> (bytes \<Rightarrow> bytes option result) \<Rightarrow> nat \<Rightarrow> string \<Rightarrow> string list option \<Rightarrow> annotation \<Rightarrow> repo \<Rightarrow>
   (log_line \<times> repo) result" where
  "commit E follow now fork filters ann r =
     rbind (current_state E r fork) (\<lambda>st.
     rbind (working_tree_manifest E follow (tr_root (rp_tree r)) (rp_pool r)) (\<lambda>(working, pool).
     let changes = filter (\<lambda>c. selected filters (pc_path c)) (diff_manifests (fs_manifest st) working) in
     if changes = [] then Err Precondition else
     rbind (synthesize_intent changes (blob_get pool)) (\<lambda>i.
     apply_realized E now fork i (map change_entry changes) ann (with_pool pool (recover E fork r)))))"

definition check :: "'s env \<Rightarrow> (bytes \<Rightarrow> bytes option result) \<Rightarrow> string \<Rightarrow> repo \<Rightarrow> (('s \<times> 's) \<times> repo) result" where
  "check E follow fork r =
     rbind (current_state E r fork) (\<lambda>st.
     rmap (\<lambda>(rs, pool).
         ((m_sum E (fs_manifest st), sum_of_records E rs),
          with_pool pool (recover E fork r)))
       (records_of_working_tree E follow (tr_root (rp_tree r)) (rp_pool r)))"

subsection \<open>Repoints and fuses\<close>

definition plain_annotation :: "string \<Rightarrow> provenance \<Rightarrow> string option \<Rightarrow> fuse option \<Rightarrow> annotation" where
  "plain_annotation author prov prose fuse =
     \<lparr>an_author = author, an_provenance = prov, an_reason = None, an_sig = None, an_session = None,
      an_prose = prose, an_reads = None, an_origin = None, an_import = None, an_harness = None, an_fuse = fuse\<rparr>"

definition repoint ::
  "'s env \<Rightarrow> nat \<Rightarrow> string \<Rightarrow> manifest \<Rightarrow> string \<Rightarrow> string option \<Rightarrow> repo \<Rightarrow> (log_line \<times> repo) result" where
  "repoint E now fork target author prose r =
     rbind (current_state E r fork) (\<lambda>st.
     let changes = diff_manifests (fs_manifest st) target in
     if changes = [] then Err Invalid else
     apply_realized E now fork \<lparr>ops = []\<rparr> (map change_entry changes)
       (plain_annotation author PAgent
          (Some (case prose of Some p \<Rightarrow> p | None \<Rightarrow> ''repoint to '' @ ss_hexdigest E (m_sum E target))) None)
       (recover E fork r))"

text \<open>A line by its id, or by a prefix of it that only one line has.\<close>

definition resolve_line :: "log_line list \<Rightarrow> string \<Rightarrow> nat result" where
  "resolve_line ls i = (case position (\<lambda>l. ll_id l = i) ls of
       Some k \<Rightarrow> Ok k
     | None \<Rightarrow> (case filter (\<lambda>k. starts_with i (ll_id (ls ! k))) [0..<length ls] of
           [k] \<Rightarrow> Ok k
         | _ \<Rightarrow> Err Invalid))"

definition fuse_span ::
  "'s env \<Rightarrow> nat \<Rightarrow> string \<Rightarrow> string \<Rightarrow> string \<Rightarrow> string \<Rightarrow> string option \<Rightarrow> string \<Rightarrow> repo \<Rightarrow> (log_line \<times> repo) result" where
  "fuse_span E now fork name from to prose author r =
     (if name = [] then Err Invalid else
      rbind (current_state E r fork) (\<lambda>st.
      rbind (resolve_line (fs_lines st) from) (\<lambda>a.
      rbind (resolve_line (fs_lines st) to) (\<lambda>b.
      if a > b then Err Invalid else
      repo_apply E now fork \<lparr>ops = []\<rparr>
        (plain_annotation author PFuse prose
           (Some \<lparr>fuse_name = name, fuse_from = ll_id (fs_lines st ! a), fuse_to = ll_id (fs_lines st ! b)\<rparr>))
        (recover E fork r)))))"

subsection \<open>Restores\<close>

fun restore_paths ::
  "pool \<Rightarrow> manifest \<Rightarrow> bool \<Rightarrow> string list \<Rightarrow> (string \<times> string) list \<Rightarrow> tree \<Rightarrow>
   (string \<times> string) list result \<times> tree" where
  "restore_paths pool target write [] actions t = (Ok actions, t)"
| "restore_paths pool target write (p # ps) actions t = (case m_get target p of
       Some r \<Rightarrow> (case if write then write_record_to pool r t else (Ok (), t) of
           (Err e, t) \<Rightarrow> (Err e, t)
         | (Ok _, t) \<Rightarrow> restore_paths pool target write ps (actions @ [(''restore'', p)]) t)
     | None \<Rightarrow> restore_paths pool target write ps (actions @ [(''remove'', p)])
         (if write then remove_file (tree_path p) t else t))"

definition restore_impl ::
  "'s env \<Rightarrow> (bytes \<Rightarrow> bytes option result) \<Rightarrow> manifest \<Rightarrow> string list option \<Rightarrow> bool \<Rightarrow> repo \<Rightarrow>
   (string \<times> string) list result \<times> repo" where
  "restore_impl E follow target filters write r =
     (case (case filters of
           None \<Rightarrow> Ok ([], rp_pool r)
         | Some _ \<Rightarrow> records_of_working_tree E follow (tr_root (rp_tree r)) (rp_pool r)) of
        Err e \<Rightarrow> (Err e, r)
      | Ok (working, pool) \<Rightarrow>
          let paths = bs_extend (map er_path working) (bs_extend (map er_path (records target)) []);
              hit = (\<lambda>p. case filters of None \<Rightarrow> m_get target p \<noteq> None | Some fs \<Rightarrow> list_ex (under_filter p) fs);
              (res, t) = restore_paths pool target write (filter hit paths) [] (rp_tree r)
          in (res, r\<lparr>rp_pool := pool, rp_tree := t\<rparr>))"

subsection \<open>A delta applied as it is\<close>

lemma sealed_valid: "an_valid ann \<Longrightarrow> ms < 2 ^ 64 \<Longrightarrow> ll_valid (new_line prev i es h ms ann)"
  by (simp add: ll_valid_def new_line_def)

context setsum
begin

lemma apply_realized_next:
  assumes a: "apply_realized E now fork i es ann r = Ok (l, r')"
    and ok: "pool_ok E (rp_pool r)" "bt_ok (rp_forks r)" "an_valid ann" "readable E l"
    and ff: "read_fork r fork = Ok ff"
    and H: "current_state E (crashed r) fork = Ok st"
  shows "\<exists>m' st'. apply_realized_to_manifest (fs_manifest st) es = Ok m' \<and> ll_realized l = es \<and>
    current_state E r' fork = Ok st' \<and> current_state E (crashed r') fork = Ok st' \<and>
    follows E (ff_anchor ff) st l m' st'"
proof -
  note b = pool_ok_bt [OF ok(1)]
  have st: "current_state E r fork = Ok st" by (rule state_before_crash [OF H b])
  from a st obtain m' s bs pool where m': "apply_realized_to_manifest (fs_manifest st) es = Ok m'"
    and s: "apply_realized_to_sum E (m_sum E (fs_manifest st)) es = Ok s"
    and sl: "seal E now (new_line (fs_head_id st) i es (ss_hexdigest E s) 0 ann) (rp_pool r) = Ok (bs, l, pool)"
    and r': "r' = refresh_working_tree l (append_log fork bs (with_pool (blob_sync pool) (recover E fork r)))"
    by (auto simp: apply_realized_def)
  have "m_ok (fs_manifest st)" using current_state_ok [OF st] by (simp add: state_ok_def)
  with m' s have sm: "s = m_sum E m'" using realized_sum by fastforce
  from sealed_stored_as [OF sl sealed_valid [OF ok(3)] ok(1,4)]
  have k: "stored_as E pool bs l" "pool_ok E pool" "pool_kept (rp_pool r) pool" "ll_realized l = es"
    "next_line_of E st l m'" using m' by (auto simp: new_line_def next_line_of_def sm)
  obtain t where "r' = (append_log fork bs (with_pool (blob_sync pool) (recover E fork r)))\<lparr>rp_tree := t\<rparr>"
    using refreshed_tree r' by blast
  from appended_line [OF H ff b ok(2) k(5,1) pool_ok_bt [OF k(2)] k(3) this] m' k(4) show ?thesis by blast
qed

end

text \<open>What the recovery leaves alone.\<close>

lemma recover_simps [simp]:
  "rp_pool (recover E fork r) = rp_pool r" "rp_anchors (recover E fork r) = rp_anchors r"
  by (auto simp: recover_def set_log_def split: sum.splits option.splits)

lemma recover_forks_ok: "bt_ok (rp_forks r) \<Longrightarrow> bt_ok (rp_forks (recover E fork r))"
  by (auto simp: recover_def set_log_def bt_ok_insert split: sum.splits option.splits)

lemma recover_fork:
  assumes "bt_ok (rp_forks r)" shows "read_fork (recover E fork r) n = read_fork r n"
  using assms by (auto simp: recover_def set_log_def read_fork_def bt_get_insert split: sum.splits option.splits)

lemma with_pool_fork [simp]: "read_fork (with_pool p r) n = read_fork r n"
  by (simp add: read_fork_def)

subsection \<open>Commits\<close>

definition walk_ok :: "'s env \<Rightarrow> pool \<Rightarrow> walk_state \<Rightarrow> bool" where
  "walk_ok E p0 st \<longleftrightarrow> pool_ok E (fst st) \<and> pool_kept p0 (fst st) \<and> list_all er_valid (snd st)"

lemma pooled_record_ok:
  assumes "pooled_record E mode path c st = Ok st'" "walk_ok E p0 st" shows "walk_ok E p0 st'"
proof -
  from assms(1) obtain h pool r where w: "blob_write E Deferred c (fst st) = Ok (h, pool)"
    and r: "er_new mode path h = Ok r" and st': "st' = (pool, snd st @ [r])"
    by (auto simp: pooled_record_def blob_put_unsynced_def)
  have ok: "pool_ok E (fst st)" using assms(2) by (simp add: walk_ok_def)
  from pool_ok_write [OF ok w] write_kept [OF w pool_ok_bt [OF ok]] pool_kept_trans er_new_valid [OF r] assms(2)
  show ?thesis by (auto simp: walk_ok_def st')
qed

lemma walk_tree_ok: "walk_tree E rules pre es st = Ok st' \<Longrightarrow> walk_ok E p0 st \<Longrightarrow> walk_ok E p0 st'"
proof (induction E rules pre es st arbitrary: st' rule: walk_tree.induct)
  case (2 E rules pre name n es st)
  let ?rel = "pre @ name"
  show ?case
  proof (cases "pre = [] \<and> (name = ''.tally'' \<or> name = ''.git'')")
    case True
    with 2(1,5,6) show ?thesis by simp
  next
    case False
    show ?thesis
    proof (cases "is_ignored rules ?rel (case n of Dir _ \<Rightarrow> True | _ \<Rightarrow> False)")
      case True
      with 2(2,5,6) False show ?thesis by (simp add: Let_def split: if_splits)
    next
      case nig: False
      with 2(5) False obtain st1 where
        u: "from_utf8 ?rel" and
        s1: "(case n of
          Link target \<Rightarrow>
            if \<not> from_utf8 target then Err Invalid else pooled_record E ''120000'' (CHR ''/'' # ?rel) target st
        | Dir sub \<Rightarrow> walk_tree E rules (?rel @ ''/'') sub st
        | File exec content \<Rightarrow>
            pooled_record E (if exec then ''100755'' else ''100644'') (CHR ''/'' # ?rel) content st) = Ok st1"
        and r: "walk_tree E rules pre es st1 = Ok st'" by (auto simp: Let_def split: if_splits)
      have "walk_ok E p0 st1"
      proof (cases n)
        case (Dir sub)
        with 2(3) [OF False refl refl _ _ Dir] u nig s1 2(6) show ?thesis by simp
      qed (use s1 2(6) in \<open>auto split: if_splits intro: pooled_record_ok\<close>)
      with 2(4) [OF False refl refl _ _ s1 r] u nig show ?thesis by simp
    qed
  qed
qed simp

lemma working_tree_Ok:
  assumes w: "working_tree_manifest E follow root pool = Ok (m, pool')" and ok: "pool_ok E pool"
  shows "m_ok m \<and> pool_ok E pool' \<and> pool_kept pool pool'"
proof -
  from w obtain es rules rs rs' where
    rs: "walk_tree E rules [] es (pool, []) = Ok (pool', rs)"
      "rs' = sort_key (\<lambda>r. (er_mode r, er_path r, er_blob r)) rs" "from_records rs' = Ok m"
    by (auto simp: working_tree_manifest_def records_of_working_tree_def split: node.splits)
  have "walk_ok E pool (pool, [])" using ok by (simp add: walk_ok_def)
  from walk_tree_ok [OF rs(1) this] have k: "pool_ok E pool'" "pool_kept pool pool'" "list_all er_valid rs'"
    by (auto simp: walk_ok_def rs(2) list_all_iff)
  with from_records_ok [OF rs(3)] show ?thesis by blast
qed

context setsum
begin

lemma commit_next:
  assumes c: "commit E follow now fork filters ann r = Ok (l, r')"
    and ok: "pool_ok E (rp_pool r)" "bt_ok (rp_forks r)" "an_valid ann" "readable E l"
    and ff: "read_fork r fork = Ok ff"
    and H: "current_state E (crashed r) fork = Ok st"
  shows "\<exists>working pool m' st'. working_tree_manifest E follow (tr_root (rp_tree r)) (rp_pool r) = Ok (working, pool) \<and>
    m_ok m' \<and>
    (\<forall>p. m_get m' p = (if selected filters p then m_get working p else m_get (fs_manifest st) p)) \<and>
    current_state E r' fork = Ok st' \<and> current_state E (crashed r') fork = Ok st' \<and>
    follows E (ff_anchor ff) st l m' st'"
proof -
  note b = pool_ok_bt [OF ok(1)]
  have st: "current_state E r fork = Ok st" by (rule state_before_crash [OF H b])
  let ?cs = "\<lambda>working. filter (\<lambda>c. selected filters (pc_path c)) (diff_manifests (fs_manifest st) working)"
  from c st obtain working pool i where
    w: "working_tree_manifest E follow (tr_root (rp_tree r)) (rp_pool r) = Ok (working, pool)"
    and a: "apply_realized E now fork i (map change_entry (?cs working)) ann (with_pool pool (recover E fork r)) = Ok (l, r')"
    by (auto simp: commit_def Let_def split: if_splits)
  note wk = working_tree_Ok [OF w ok(1)]
  have m: "m_ok (fs_manifest st)" using current_state_ok [OF st] by (simp add: state_ok_def)
  have "current_state E (crashed (with_pool pool (recover E fork r))) fork = Ok st"
    by (rule recovered_state [OF H b ok(2)]) (use wk pool_ok_bt in blast)+
  from apply_realized_next [OF a _ _ ok(3,4) _ this, of ff] wk ok(2) ff obtain m' st' where
    m': "apply_realized_to_manifest (fs_manifest st) (map change_entry (?cs working)) = Ok m'"
    and s: "current_state E r' fork = Ok st'" "current_state E (crashed r') fork = Ok st'"
      "follows E (ff_anchor ff) st l m' st'"
    by (auto simp: recover_forks_ok recover_fork)
  from replay_selected [OF m, of working "selected filters"] wk m'
  have "m_ok m' \<and> (\<forall>p. m_get m' p = (if selected filters p then m_get working p else m_get (fs_manifest st) p))"
    by auto
  with w s show ?thesis by blast
qed

lemma repoint_next:
  assumes c: "repoint E now fork target author prose r = Ok (l, r')"
    and ok: "pool_ok E (rp_pool r)" "bt_ok (rp_forks r)" "readable E l" "m_ok target"
    and ff: "read_fork r fork = Ok ff"
    and H: "current_state E (crashed r) fork = Ok st"
  shows "\<exists>st'. current_state E r' fork = Ok st' \<and> current_state E (crashed r') fork = Ok st' \<and>
    follows E (ff_anchor ff) st l target st'"
proof -
  note b = pool_ok_bt [OF ok(1)]
  have st: "current_state E r fork = Ok st" by (rule state_before_crash [OF H b])
  have m: "m_ok (fs_manifest st)" using current_state_ok [OF st] by (simp add: state_ok_def)
  let ?ann = "plain_annotation author PAgent
      (Some (case prose of Some p \<Rightarrow> p | None \<Rightarrow> ''repoint to '' @ ss_hexdigest E (m_sum E target))) None"
  from c st have a: "apply_realized E now fork \<lparr>ops = []\<rparr> (map change_entry (diff_manifests (fs_manifest st) target))
       ?ann (with_pool (rp_pool r) (recover E fork r)) = Ok (l, r')"
    by (auto simp: repoint_def Let_def with_pool_def recover_def set_log_def split: if_splits sum.splits option.splits)
  have v: "an_valid ?ann" by (simp add: an_valid_def plain_annotation_def)
  have "current_state E (crashed (with_pool (rp_pool r) (recover E fork r))) fork = Ok st"
    by (rule recovered_state [OF H b ok(2) b]) simp
  from apply_realized_next [OF a _ _ v ok(3) _ this, of ff] ok ff replay_diff [OF m ok(4)]
  show ?thesis by (auto simp: recover_forks_ok recover_fork)
qed

end

end
