(* ===== verification/Segment.thy ===== *)
theory Segment
  imports Log Fork
begin

text \<open>
  \<open>src/src/segment.rs\<close>: the packed format.  An entry table (\<open>.idx\<close>), a payload
  (\<open>.pk\<close>, one zstd frame, through the parameters of theory \<open>Env\<close>), the logical
  image, the writer with its cuts, and the reader with its checks in the mandated
  order.  \<open>usize\<close> is 64 bits wide.  Main results: entry tables round-trip; a
  segment that was built opens under its own hashes and every stored entry
  materialises to the input it was built from; whatever materialises has the
  hash the entry names; the cuts partition the inputs; the image does not depend
  on whether a blob is stored or constructed.
\<close>

definition EMPTY_BLOB :: string where
  "EMPTY_BLOB = ''a7ffc6f8bf1ed76651c14756a061d662f580ff4de43b49fa82d80a4b80f8434a''"

subsection \<open>Entries\<close>

datatype enc =
    Raw
  | Zstd
  | Zstdd string
  | Construct string string
  | Lines string string

record idx_entry =
  ie_sha3 :: string
  ie_frame :: nat
  ie_offset :: nat
  ie_len :: nat
  ie_enc :: enc

abbreviation SP :: char where "SP \<equiv> CHR '' ''"

text \<open>The name of the encoding and its auxiliary fields.\<close>

fun enc_fields :: "enc \<Rightarrow> string \<times> string option \<times> string option" where
  "enc_fields Raw = (''raw'', None, None)"
| "enc_fields Zstd = (''zstd'', None, None)"
| "enc_fields (Zstdd dict) = (''zstdd'', Some dict, None)"
| "enc_fields (Construct base line_id) = (''construct'', Some base, Some line_id)"
| "enc_fields (Lines fork span) = (''lines'', Some fork, Some span)"

definition ie_to_line :: "idx_entry \<Rightarrow> string" where
  "ie_to_line e =
     (let (enc, aux1, aux2) = enc_fields (ie_enc e) in
      ie_sha3 e @ [SP] @ show_nat (ie_frame e) @ [SP] @ show_nat (ie_offset e) @ [SP] @
      show_nat (ie_len e) @ [SP] @ enc @
      (case aux1 of None \<Rightarrow> [] | Some a \<Rightarrow> SP # a) @
      (case aux2 of None \<Rightarrow> [] | Some a \<Rightarrow> SP # a) @ [LF])"

definition get_field :: "'a list \<Rightarrow> nat \<Rightarrow> 'a option" where
  "get_field xs i = (if i < length xs then Some (xs ! i) else None)"

definition enc_of_fields :: "string \<Rightarrow> string option \<Rightarrow> string option \<Rightarrow> enc result" where
  "enc_of_fields enc aux1 aux2 =
     (case (aux1, aux2) of
        (None, None) \<Rightarrow> if enc = ''raw'' then Ok Raw else if enc = ''zstd'' then Ok Zstd else Err Corrupt
      | (Some a, None) \<Rightarrow> if enc = ''zstdd'' then Ok (Zstdd a) else Err Corrupt
      | (Some a, Some b) \<Rightarrow> if enc = ''construct'' then Ok (Construct a b)
                           else if enc = ''lines'' then Ok (Lines a b) else Err Corrupt
      | _ \<Rightarrow> Err Corrupt)"

definition ie_parse :: "string \<Rightarrow> idx_entry result" where
  "ie_parse line =
     (let fields = split_on SP line in
      if length fields < 5 then Err Corrupt else
      let sha3 = fields ! 0 in
      if \<not> is_hex64 sha3 then Err Corrupt else
      rbind (ok_or Corrupt (parse_u64 (fields ! 1))) (\<lambda>frame.
      rbind (ok_or Corrupt (parse_u64 (fields ! 2))) (\<lambda>offset.
      rbind (ok_or Corrupt (parse_u64 (fields ! 3))) (\<lambda>len.
      rbind (enc_of_fields (fields ! 4) (get_field fields 5) (get_field fields 6)) (\<lambda>enc.
      Ok \<lparr>ie_sha3 = sha3, ie_frame = frame, ie_offset = offset, ie_len = len, ie_enc = enc\<rparr>)))))"

definition parse_idx :: "bytes \<Rightarrow> idx_entry list result" where
  "parse_idx idx = (if \<not> from_utf8 idx then Err Corrupt else rmapM ie_parse (lines idx))"

subsection \<open>The logical image\<close>

datatype image_item =
    IBlob string
  | ILine string string
  | IDict string

fun item_to_bytes :: "image_item \<Rightarrow> bytes" where
  "item_to_bytes (IBlob h) = ''blob'' @ [TAB] @ h @ [LF]"
| "item_to_bytes (ILine fork i) = ''line'' @ [TAB] @ fork @ [TAB] @ i @ [LF]"
| "item_to_bytes (IDict h) = ''dict'' @ [TAB] @ h @ [LF]"

definition image_setsum :: "'s env \<Rightarrow> image_item list \<Rightarrow> 's" where
  "image_setsum E items = fold (\<lambda>x s. ss_insert E s (item_to_bytes x)) items (ss_zero E)"

subsection \<open>The writer\<close>

definition segid_of :: "'s env \<Rightarrow> string \<Rightarrow> string \<Rightarrow> string" where
  "segid_of E pk_sha3 idx_sha3 = sha3_hex E (pk_sha3 @ idx_sha3)"

datatype segment_input =
    SBlob bytes
  | SDict bytes
  | SConstruct string string string
  | SLogSpan string bytes "string list"

fun input_items :: "'s env \<Rightarrow> segment_input \<Rightarrow> image_item list" where
  "input_items E (SBlob c) = [IBlob (sha3_hex E c)]"
| "input_items E (SDict c) = [IDict (sha3_hex E c)]"
| "input_items E (SConstruct h base line_id) = [IBlob h]"
| "input_items E (SLogSpan fork bs ids) = map (ILine fork) ids"

fun plain_len :: "segment_input \<Rightarrow> nat" where
  "plain_len (SBlob c) = length c"
| "plain_len (SDict c) = length c"
| "plain_len (SConstruct h base line_id) = 0"
| "plain_len (SLogSpan fork bs ids) = length bs"

record 's built_segment =
  bs_segid :: string
  bs_pk_sha3 :: string
  bs_pk :: bytes
  bs_idx :: bytes
  bs_idx_sha3 :: string
  bs_entries :: nat
  bs_image_setsum :: 's
  bs_log_span :: "(string \<times> string) option"
  bs_forks :: "string list"

text \<open>What the loop over the inputs accumulates.\<close>

record building =
  bd_plain :: bytes
  bd_entries :: "idx_entry list"
  bd_items :: "image_item list"
  bd_span :: "(string \<times> string) option"
  bd_forks :: "string list"

definition bd_start :: building where
  "bd_start = \<lparr>bd_plain = [], bd_entries = [], bd_items = [], bd_span = None, bd_forks = []\<rparr>"

definition stored_entry :: "'s env \<Rightarrow> building \<Rightarrow> bytes \<Rightarrow> enc \<Rightarrow> idx_entry" where
  "stored_entry E b bs enc = \<lparr>ie_sha3 = sha3_hex E bs, ie_frame = 0, ie_offset = length (bd_plain b),
     ie_len = length bs, ie_enc = enc\<rparr>"

fun build_step :: "'s env \<Rightarrow> segment_input \<Rightarrow> building \<Rightarrow> building" where
  "build_step E (SBlob c) b =
     b\<lparr>bd_plain := bd_plain b @ c, bd_entries := bd_entries b @ [stored_entry E b c Raw],
       bd_items := bd_items b @ input_items E (SBlob c)\<rparr>"
| "build_step E (SDict c) b =
     b\<lparr>bd_plain := bd_plain b @ c, bd_entries := bd_entries b @ [stored_entry E b c Raw],
       bd_items := bd_items b @ input_items E (SDict c)\<rparr>"
| "build_step E (SConstruct h base line_id) b =
     b\<lparr>bd_entries := bd_entries b @ [\<lparr>ie_sha3 = h, ie_frame = 0, ie_offset = 0, ie_len = 0,
         ie_enc = Construct base line_id\<rparr>],
       bd_items := bd_items b @ input_items E (SConstruct h base line_id)\<rparr>"
| "build_step E (SLogSpan fork bs ids) b =
     (if ids = [] then b else
      b\<lparr>bd_plain := bd_plain b @ bs,
        bd_entries := bd_entries b @ [stored_entry E b bs (Lines fork (hd ids @ ''..'' @ last ids))],
        bd_items := bd_items b @ input_items E (SLogSpan fork bs ids),
        bd_span := (case bd_span b of None \<Rightarrow> Some (hd ids, last ids) | Some (f, _) \<Rightarrow> Some (f, last ids)),
        bd_forks := (if fork \<in> set (bd_forks b) then bd_forks b else bd_forks b @ [fork])\<rparr>)"

definition build_segment :: "'s env \<Rightarrow> segment_input list \<Rightarrow> int \<Rightarrow> 's built_segment result" where
  "build_segment E inputs level =
     (let b = fold (build_step E) inputs bd_start in
      rbind (ok_or Io (zstd_encode E level (bd_plain b))) (\<lambda>pk.
      let idx = concat (map ie_to_line (bd_entries b));
          pk_sha3 = sha3_hex E pk;
          idx_sha3 = sha3_hex E idx
      in Ok \<lparr>bs_segid = segid_of E pk_sha3 idx_sha3, bs_pk_sha3 = pk_sha3, bs_pk = pk, bs_idx = idx,
             bs_idx_sha3 = idx_sha3, bs_entries = length (bd_entries b),
             bs_image_setsum = image_setsum E (bd_items b), bs_log_span = bd_span b,
             bs_forks = bd_forks b\<rparr>))"

text \<open>\<open>usize::saturating_add\<close>.\<close>

definition saturating_add :: "nat \<Rightarrow> nat \<Rightarrow> nat" where
  "saturating_add a b = min (a + b) (2 ^ 64 - 1)"

text \<open>
  The loop of \<open>build_segments\<close> as the list of slices it cuts: the inputs since
  the last cut and the plain bytes they add up to.
\<close>

fun cut_inputs :: "nat \<Rightarrow> segment_input list \<Rightarrow> nat \<Rightarrow> segment_input list \<Rightarrow> segment_input list list" where
  "cut_inputs target held sz [] = (if held = [] then [] else [held])"
| "cut_inputs target held sz (x # xs) =
     (let sz = saturating_add sz (plain_len x) in
      if sz \<ge> target then (held @ [x]) # cut_inputs target [] 0 xs
      else cut_inputs target (held @ [x]) sz xs)"

definition build_segments :: "'s env \<Rightarrow> segment_input list \<Rightarrow> nat \<Rightarrow> int \<Rightarrow> 's built_segment list result" where
  "build_segments E inputs target level =
     rmapM (\<lambda>xs. build_segment E xs level) (cut_inputs target [] 0 inputs)"

subsection \<open>The reader\<close>

record segment =
  sg_entries :: "idx_entry list"
  sg_frames :: "bytes list"

text \<open>\<open>usize::checked_add\<close>.\<close>

definition checked_add :: "nat \<Rightarrow> nat \<Rightarrow> nat option" where
  "checked_add a b = (if a + b < 2 ^ 64 then Some (a + b) else None)"

text \<open>The budget of frame 0 is the maximal extent an entry claims.\<close>

definition frame_budget :: "idx_entry list \<Rightarrow> nat result" where
  "frame_budget es = rfold (\<lambda>e budget.
     if ie_frame e \<noteq> 0 then Err Corrupt else
     rbind (ok_or Corrupt (checked_add (ie_offset e) (ie_len e))) (\<lambda>extent. Ok (max budget extent))) es 0"

text \<open>
  Reserving more than \<open>isize::MAX\<close> bytes panics, before anything is read; the
  limit \<open>budget + 1\<close> of the reader cannot overflow below that.
\<close>

definition segment_open :: "'s env \<Rightarrow> bytes \<Rightarrow> bytes \<Rightarrow> string \<Rightarrow> string \<Rightarrow> segment result" where
  "segment_open E pk idx expect_pk expect_idx =
     (if sha3_hex E pk \<noteq> expect_pk then Err Corrupt
      else if sha3_hex E idx \<noteq> expect_idx then Err Corrupt else
      rbind (parse_idx idx) (\<lambda>es.
      rbind (frame_budget es) (\<lambda>budget.
      if budget \<ge> 2 ^ 63 then Err Panic else
      rbind (ok_or Io (zstd_take E pk (budget + 1))) (\<lambda>plain.
      if length plain > budget then Err Corrupt
      else Ok \<lparr>sg_entries = es, sg_frames = [plain]\<rparr>))))"

definition sg_stored :: "segment \<Rightarrow> idx_entry \<Rightarrow> bytes result" where
  "sg_stored s e =
     rbind (ok_or Corrupt (get_field (sg_frames s) (ie_frame e))) (\<lambda>frame.
       if ie_offset e + ie_len e \<le> length frame
       then Ok (Span.slice (ie_offset e) (ie_offset e + ie_len e) frame) else Err Corrupt)"

text \<open>The path a construct targets: the last realized add that carries the hash.\<close>

fun construct_path :: "string \<Rightarrow> realized_entry list \<Rightarrow> string option \<Rightarrow> string option result" where
  "construct_path target [] path = Ok path"
| "construct_path target (e # es) path =
     rbind (added e) (\<lambda>a.
       construct_path target es
         (case a of None \<Rightarrow> path | Some r \<Rightarrow> if er_blob r = target then Some (er_path r) else path))"

fun construct_op :: "string \<Rightarrow> op \<Rightarrow> bytes \<Rightarrow> bytes result" where
  "construct_op target_path (Edit path old new) content =
     (if path = target_path
      then (case replace_unique content old new of Inl n \<Rightarrow> Err Corrupt | Inr c \<Rightarrow> Ok c)
      else Ok content)"
| "construct_op target_path (Create path mode blob content_b64) content =
     (if path = target_path
      then (case (content_b64, blob) of (Some c, None) \<Rightarrow> decode c | _ \<Rightarrow> Err Corrupt)
      else Ok content)"
| "construct_op target_path (Delete path blob) content = Ok content"
| "construct_op target_path (Chmod path old new) content = Ok content"

definition construct_blob :: "'s env \<Rightarrow> bytes \<Rightarrow> log_line \<Rightarrow> string \<Rightarrow> bytes result" where
  "construct_blob E base line target =
     rbind (construct_path target (ll_realized line) None) (\<lambda>path.
     rbind (ok_or Corrupt path) (\<lambda>path.
     rbind (rfold (construct_op path) (ops (ll_intent line)) base) (\<lambda>content.
     if sha3_hex E content \<noteq> target then Err Corrupt else Ok content)))"

definition decode_item ::
  "'s env \<Rightarrow> (string \<Rightarrow> bytes result) \<Rightarrow> (string \<Rightarrow> log_line result) \<Rightarrow> segment \<Rightarrow> idx_entry \<Rightarrow> bytes result" where
  "decode_item E fetch_blob fetch_line s e = (case ie_enc e of
       Raw \<Rightarrow> sg_stored s e
     | Lines _ _ \<Rightarrow> sg_stored s e
     | Zstd \<Rightarrow> rbind (sg_stored s e) (\<lambda>x. ok_or Io (zstd_all E x))
     | Zstdd dict \<Rightarrow>
         rbind (fetch_blob dict) (\<lambda>d.
         if sha3_hex E d \<noteq> dict then Err Corrupt else
         rbind (sg_stored s e) (\<lambda>x. ok_or Io (zstd_dict E d x)))
     | Construct base line_id \<Rightarrow>
         rbind (if base = EMPTY_BLOB then Ok [] else fetch_blob base) (\<lambda>b.
         if sha3_hex E b \<noteq> base then Err Corrupt else
         rbind (fetch_line line_id) (\<lambda>line. construct_blob E b line (ie_sha3 e))))"

definition materialize ::
  "'s env \<Rightarrow> (string \<Rightarrow> bytes result) \<Rightarrow> (string \<Rightarrow> log_line result) \<Rightarrow> segment \<Rightarrow> idx_entry \<Rightarrow> bytes result" where
  "materialize E fetch_blob fetch_line s e =
     rbind (decode_item E fetch_blob fetch_line s e) (\<lambda>bs.
       if sha3_hex E bs \<noteq> ie_sha3 e then Err Corrupt else Ok bs)"

definition entry_items ::
  "'s env \<Rightarrow> (string \<Rightarrow> bytes result) \<Rightarrow> (string \<Rightarrow> log_line result) \<Rightarrow> segment \<Rightarrow> idx_entry \<Rightarrow>
   image_item list result" where
  "entry_items E fetch_blob fetch_line s e =
     rbind (materialize E fetch_blob fetch_line s e) (\<lambda>bs.
     case ie_enc e of
       Lines fork _ \<Rightarrow>
         if \<not> from_utf8 bs then Err Corrupt else
         rmapM (\<lambda>l. rmap (\<lambda>p. ILine fork (ll_id p)) (line_parse_with E fetch_blob l)) (lines bs)
     | _ \<Rightarrow> Ok [IBlob (ie_sha3 e)])"

definition segment_items ::
  "'s env \<Rightarrow> (string \<Rightarrow> bytes result) \<Rightarrow> (string \<Rightarrow> log_line result) \<Rightarrow> segment \<Rightarrow>
   image_item list result" where
  "segment_items E fetch_blob fetch_line s =
     rmap concat (rmapM (entry_items E fetch_blob fetch_line s) (sg_entries s))"

subsection \<open>The entry table round-trips\<close>

lemma split_on_join_fields:
  "fs \<noteq> [] \<Longrightarrow> (\<And>f. f \<in> set fs \<Longrightarrow> c \<notin> set f) \<Longrightarrow> split_on c (join c fs) = fs"
  by (induction fs rule: induct_list012) (simp_all add: split_on_none split_on_piece)

definition opt_list :: "'a option \<Rightarrow> 'a list" where
  "opt_list x = (case x of None \<Rightarrow> [] | Some a \<Rightarrow> [a])"

definition ie_fields :: "idx_entry \<Rightarrow> string list" where
  "ie_fields e = (case enc_fields (ie_enc e) of (enc, a, b) \<Rightarrow>
     [ie_sha3 e, show_nat (ie_frame e), show_nat (ie_offset e), show_nat (ie_len e), enc] @
     opt_list a @ opt_list b)"

lemma ie_to_line_join: "ie_to_line e = join SP (ie_fields e) @ [LF]"
  by (cases "ie_enc e") (simp_all add: ie_to_line_def ie_fields_def opt_list_def)

definition plain_field :: "string \<Rightarrow> bool" where
  "plain_field f \<longleftrightarrow> set f \<inter> {SP, LF, CHR 0x0D} = {} \<and> utf8 f"

definition ie_valid :: "idx_entry \<Rightarrow> bool" where
  "ie_valid e \<longleftrightarrow> is_hex64 (ie_sha3 e) \<and> ie_frame e < 2 ^ 64 \<and> ie_offset e < 2 ^ 64 \<and>
     ie_len e < 2 ^ 64 \<and> (case enc_fields (ie_enc e) of (_, a, b) \<Rightarrow>
       list_all plain_field (opt_list a @ opt_list b))"

lemma plain_show_nat: "plain_field (show_nat n)"
proof -
  have "byte c < 128 \<and> c \<notin> {SP, LF, CHR 0x0D}" if "c \<in> set (show_nat n)" for c
    using show_nat_chars [OF that] by (auto simp: is_digit_def byte_def LF_def)
  then show ?thesis by (auto simp: plain_field_def intro!: ascii_utf8)
qed

lemma plain_hex64: "is_hex64 s \<Longrightarrow> plain_field s"
  using is_hex64_not_in [of s] by (auto simp: plain_field_def ascii_hex64)

lemma plain_enc_name: "plain_field (fst (enc_fields enc))"
proof -
  have "list_all (\<lambda>c. byte c < 128 \<and> c \<notin> {SP, LF, CHR 0x0D}) (fst (enc_fields enc))"
    by (cases enc) (simp_all add: byte_def LF_def)
  then show ?thesis by (auto simp: plain_field_def list_all_iff intro!: ascii_utf8)
qed

lemma ie_fields_plain: "ie_valid e \<Longrightarrow> f \<in> set (ie_fields e) \<Longrightarrow> plain_field f"
  using plain_enc_name [of "ie_enc e"]
  by (auto simp: ie_fields_def ie_valid_def plain_hex64 plain_show_nat list_all_iff split: prod.splits)

lemma enc_of_fields_enc:
  "enc_fields enc = (n, a, b) \<Longrightarrow> enc_of_fields n a b = Ok enc"
  by (cases enc) (auto simp: enc_of_fields_def)

lemma get_field_fields:
  "enc_fields (ie_enc e) = (n, a, b) \<Longrightarrow>
   get_field (ie_fields e) 5 = a \<and> get_field (ie_fields e) 6 = b \<and> ie_fields e ! 4 = n \<and>
   5 \<le> length (ie_fields e) \<and> ie_fields e ! 0 = ie_sha3 e \<and> ie_fields e ! 1 = show_nat (ie_frame e) \<and>
   ie_fields e ! 2 = show_nat (ie_offset e) \<and> ie_fields e ! 3 = show_nat (ie_len e)"
  by (cases "ie_enc e") (auto simp: ie_fields_def get_field_def opt_list_def)

lemma ie_parse_line:
  assumes "ie_valid e" shows "ie_parse (join SP (ie_fields e)) = Ok e"
proof -
  obtain n a b where f: "enc_fields (ie_enc e) = (n, a, b)" by (metis prod.exhaust)
  note g = get_field_fields [OF f]
  have "ie_fields e \<noteq> []" using g by auto
  then have "split_on SP (join SP (ie_fields e)) = ie_fields e"
    using ie_fields_plain [OF assms] by (intro split_on_join_fields) (auto simp: plain_field_def)
  then show ?thesis
    using assms g enc_of_fields_enc [OF f]
    by (simp add: ie_parse_def Let_def ie_valid_def parse_u64_show)
qed

interpretation idx_line: codec "\<lambda>e. join SP (ie_fields e)" ie_parse ie_valid
  by unfold_locales (rule ie_parse_line)

lemma join_plain:
  assumes "\<And>f. f \<in> set fs \<Longrightarrow> plain_field f"
  shows "LF \<notin> set (join SP fs) \<and> CHR 0x0D \<notin> set (join SP fs) \<and> utf8 (join SP fs)"
proof -
  have sp: "utf8 [SP]" by (rule ascii_utf8) (simp add: byte_def)
  show ?thesis using assms
  proof (induction fs rule: induct_list012)
    case (3 x y xs)
    then have "plain_field x" and ih: "LF \<notin> set (join SP (y # xs)) \<and>
      CHR 0x0D \<notin> set (join SP (y # xs)) \<and> utf8 (join SP (y # xs))" by auto
    moreover have "utf8 (x @ [SP] @ join SP (y # xs))"
      using calculation sp by (intro utf8_append) (auto simp: plain_field_def)
    ultimately show ?case by (auto simp: plain_field_def LF_def)
  qed (auto simp: plain_field_def intro: utf8.nil)
qed

lemma parse_idx_lines:
  assumes "list_all ie_valid es"
  shows "parse_idx (concat (map ie_to_line es)) = Ok es"
proof -
  let ?ls = "map (\<lambda>e. join SP (ie_fields e)) es"
  have p: "LF \<notin> set l \<and> CHR 0x0D \<notin> set l \<and> utf8 l" if "l \<in> set ?ls" for l
  proof -
    from that assms obtain e where "l = join SP (ie_fields e)" "ie_valid e"
      by (auto simp: list_all_iff)
    then show ?thesis using join_plain [of "ie_fields e"] ie_fields_plain by blast
  qed
  have c: "concat (map ie_to_line es) = concat (map (\<lambda>l. l @ [CHR 0x0A]) ?ls)"
    by (simp add: ie_to_line_join [abs_def] comp_def LF_def)
  have "utf8 (concat (map ie_to_line es))"
    unfolding c by (rule utf8_concat) (use p in \<open>auto intro!: utf8_append simp: LF_def [symmetric]\<close>)
  moreover have "lines (concat (map ie_to_line es)) = ?ls"
    unfolding c by (rule lines_unlines) (use p in \<open>auto simp: LF_def\<close>)
  ultimately show ?thesis
    using idx_line.dec_encs [OF assms] by (simp add: parse_idx_def from_utf8_iff)
qed

text \<open>A name with a space in it is cut: the table then names another fork and span.\<close>

lemma idx_space_in_fork:
  assumes "is_hex64 h" "f < 2 ^ 64" "i < 2 ^ 64" "n < 2 ^ 64" "SP \<notin> set a" "SP \<notin> set b" "SP \<notin> set span"
  shows "ie_parse (join SP (ie_fields \<lparr>ie_sha3 = h, ie_frame = f, ie_offset = i, ie_len = n,
      ie_enc = Lines (a @ SP # b) span\<rparr>)) =
    Ok \<lparr>ie_sha3 = h, ie_frame = f, ie_offset = i, ie_len = n, ie_enc = Lines a b\<rparr>"
proof -
  let ?fs = "[h, show_nat f, show_nat i, show_nat n, ''lines'', a, b, span]"
  have "join SP (ie_fields \<lparr>ie_sha3 = h, ie_frame = f, ie_offset = i, ie_len = n,
      ie_enc = Lines (a @ SP # b) span\<rparr>) = join SP ?fs"
    by (simp add: ie_fields_def opt_list_def)
  moreover have "split_on SP (join SP ?fs) = ?fs"
    using assms plain_show_nat is_hex64_not_in(4) [of h]
    by (intro split_on_join_fields) (auto simp: plain_field_def)
  ultimately show ?thesis
    using assms by (simp add: ie_parse_def Let_def parse_u64_show get_field_def enc_of_fields_def)
qed

subsection \<open>What was built opens\<close>

text \<open>The content an input stores, if it stores any.\<close>

fun input_content :: "segment_input \<Rightarrow> bytes option" where
  "input_content (SBlob c) = Some c"
| "input_content (SDict c) = Some c"
| "input_content (SConstruct h base line_id) = None"
| "input_content (SLogSpan fork bs ids) = (if ids = [] then None else Some bs)"

definition plain_of :: "segment_input list \<Rightarrow> bytes" where
  "plain_of xs = concat (map (\<lambda>x. case input_content x of None \<Rightarrow> [] | Some c \<Rightarrow> c) xs)"

definition input_valid :: "segment_input \<Rightarrow> bool" where
  "input_valid x \<longleftrightarrow> (case x of
       SConstruct h base line_id \<Rightarrow> is_hex64 h \<and> plain_field base \<and> plain_field line_id
     | SLogSpan fork bs ids \<Rightarrow> plain_field fork \<and> (\<forall>i \<in> set ids. plain_field i)
     | _ \<Rightarrow> True)"

lemma build_plain: "bd_plain (fold (build_step E) xs b) = bd_plain b @ plain_of xs"
proof (induction xs arbitrary: b)
  case (Cons x xs)
  then show ?case by (cases x) (auto simp: plain_of_def)
qed (simp add: plain_of_def)

lemma build_items:
  "bd_items (fold (build_step E) xs b) = bd_items b @ concat (map (input_items E) xs)"
proof (induction xs arbitrary: b)
  case (Cons x xs)
  then show ?case by (cases x) auto
qed simp

text \<open>An entry lies in the plain bytes and cuts out content with the hash it names.\<close>

definition entry_in :: "'s env \<Rightarrow> bytes \<Rightarrow> idx_entry \<Rightarrow> bool" where
  "entry_in E plain e \<longleftrightarrow> ie_frame e = 0 \<and> ie_offset e + ie_len e \<le> length plain \<and>
     ((\<exists>b l. ie_enc e = Construct b l) \<and> is_hex64 (ie_sha3 e) \<or>
      sha3_hex E (Span.slice (ie_offset e) (ie_offset e + ie_len e) plain) = ie_sha3 e)"

text \<open>The entry an input got: a stored one, or the construct it asked for.\<close>

definition input_entry :: "'s env \<Rightarrow> bytes \<Rightarrow> segment_input \<Rightarrow> idx_entry \<Rightarrow> bool" where
  "input_entry E plain x e \<longleftrightarrow> (case x of
       SConstruct h base line_id \<Rightarrow> ie_sha3 e = h \<and> ie_enc e = Construct base line_id
     | SLogSpan fork bs ids \<Rightarrow> (\<exists>span. ie_enc e = Lines fork span) \<and>
         Span.slice (ie_offset e) (ie_offset e + ie_len e) plain = bs \<and> ie_sha3 e = sha3_hex E bs
     | SBlob c \<Rightarrow> ie_enc e = Raw \<and>
         Span.slice (ie_offset e) (ie_offset e + ie_len e) plain = c \<and> ie_sha3 e = sha3_hex E c
     | SDict c \<Rightarrow> ie_enc e = Raw \<and>
         Span.slice (ie_offset e) (ie_offset e + ie_len e) plain = c \<and> ie_sha3 e = sha3_hex E c)"

lemma slice_extend:
  "i + n \<le> length p \<Longrightarrow> Span.slice i (i + n) (p @ q) = Span.slice i (i + n) p"
  by (simp add: Span.slice_def)

lemma slice_end: "Span.slice (length p) (length p + length c) (p @ c @ q) = c"
  by (simp add: Span.slice_def)

definition building_ok :: "'s env \<Rightarrow> building \<Rightarrow> bool" where
  "building_ok E b \<longleftrightarrow> (\<forall>e \<in> set (bd_entries b). entry_in E (bd_plain b) e \<and>
     (case enc_fields (ie_enc e) of (_, x, y) \<Rightarrow> list_all plain_field (opt_list x @ opt_list y)))"

lemma entry_in_extend: "entry_in E p e \<Longrightarrow> entry_in E (p @ q) e"
  by (auto simp: entry_in_def slice_extend)

lemma plain_span: "plain_field a \<Longrightarrow> plain_field b \<Longrightarrow> plain_field (a @ ''..'' @ b)"
proof -
  have "utf8 ''..''" by (rule ascii_utf8) (auto simp: byte_def)
  then show "plain_field a \<Longrightarrow> plain_field b \<Longrightarrow> plain_field (a @ ''..'' @ b)"
    unfolding plain_field_def by (auto simp: LF_def intro!: utf8_append simp del: append_Cons append.simps)
qed

lemma build_step_ok:
  assumes "building_ok E b" "input_valid x"
  shows "building_ok E (build_step E x b)"
proof (cases x)
  case (SLogSpan fork bs ids)
  show ?thesis
  proof (cases "ids = []")
    case False
    then have "plain_field (hd ids @ ''..'' @ last ids)" "plain_field fork"
      using assms(2) SLogSpan plain_span [of "hd ids" "last ids"] by (auto simp: input_valid_def)
    with assms(1) False show ?thesis
      by (auto simp: SLogSpan building_ok_def stored_entry_def entry_in_extend opt_list_def)
        (auto simp: entry_in_def Span.slice_def)
  qed (use assms SLogSpan in simp)
qed (use assms in \<open>auto simp: building_ok_def stored_entry_def entry_in_extend opt_list_def
      input_valid_def entry_in_def Span.slice_def\<close>)

lemma build_ok: "building_ok E b \<Longrightarrow> list_all input_valid xs \<Longrightarrow> building_ok E (fold (build_step E) xs b)"
  by (induction xs arbitrary: b) (simp_all add: build_step_ok)

lemma build_keeps_entries:
  "e \<in> set (bd_entries b) \<Longrightarrow> e \<in> set (bd_entries (fold (build_step E) xs b))"
proof (induction xs arbitrary: b)
  case (Cons x xs)
  then have "e \<in> set (bd_entries (build_step E x b))" by (cases x) auto
  with Cons.IH show ?case by simp
qed simp

definition stores_entry :: "segment_input \<Rightarrow> bool" where
  "stores_entry x \<longleftrightarrow> (\<nexists>fork bs. x = SLogSpan fork bs [])"

lemma input_entry_extend:
  "input_entry E p x e \<Longrightarrow> entry_in E p e \<Longrightarrow> input_entry E (p @ q) x e"
  by (cases x) (auto simp: input_entry_def entry_in_def slice_extend)

lemma build_entry:
  assumes "x \<in> set xs" "stores_entry x" "building_ok E b" "list_all input_valid xs"
  shows "\<exists>e \<in> set (bd_entries (fold (build_step E) xs b)).
    input_entry E (bd_plain (fold (build_step E) xs b)) x e"
  using assms
proof (induction xs arbitrary: b)
  case (Cons y xs)
  let ?b = "build_step E y b"
  have ok: "building_ok E ?b" using Cons.prems by (intro build_step_ok) simp_all
  show ?case
  proof (cases "x = y")
    case True
    have "\<exists>e \<in> set (bd_entries ?b). input_entry E (bd_plain ?b) x e"
      using Cons.prems(2) True
      by (cases y) (auto simp: stores_entry_def input_entry_def stored_entry_def Span.slice_def)
    then obtain e where e: "e \<in> set (bd_entries ?b)" "input_entry E (bd_plain ?b) x e" by blast
    with ok have "entry_in E (bd_plain ?b) e" by (auto simp: building_ok_def)
    with e input_entry_extend build_keeps_entries show ?thesis
      by (fastforce simp: build_plain)
  next
    case False
    with Cons ok show ?thesis by simp
  qed
qed simp

definition extent_max :: "idx_entry list \<Rightarrow> nat" where
  "extent_max es = fold (\<lambda>e m. max m (ie_offset e + ie_len e)) es 0"

lemma build_extent:
  "extent_max (bd_entries b) = length (bd_plain b) \<Longrightarrow>
   extent_max (bd_entries (fold (build_step E) xs b)) = length (bd_plain (fold (build_step E) xs b))"
proof (induction xs arbitrary: b)
  case (Cons x xs)
  have "extent_max (bd_entries (build_step E x b)) = length (bd_plain (build_step E x b))"
    using Cons.prems by (cases x) (auto simp: extent_max_def stored_entry_def)
  with Cons.IH show ?case by simp
qed simp

lemma frame_budget_max:
  assumes "\<forall>e \<in> set es. ie_frame e = 0 \<and> ie_offset e + ie_len e < 2 ^ 64"
  shows "frame_budget es = Ok (extent_max es)"
proof -
  have "rfold (\<lambda>e budget. if ie_frame e \<noteq> 0 then Err Corrupt else
     rbind (ok_or Corrupt (checked_add (ie_offset e) (ie_len e))) (\<lambda>x. Ok (max budget x))) es 0 =
     Ok (fold (\<lambda>e m. max m (ie_offset e + ie_len e)) es 0)"
    by (rule rfold_ok) (use assms in \<open>simp add: checked_add_def\<close>)
  then show ?thesis by (simp add: frame_budget_def extent_max_def)
qed

lemma fold_max_ge: "(m::nat) \<le> fold (\<lambda>e m. max m (f e)) es m"
  by (induction es arbitrary: m) (auto intro: le_trans [OF max.cobounded1])

lemma materialize_stored:
  assumes "input_entry E plain x e" "entry_in E plain e" "input_content x = Some c"
  shows "materialize E fb fl \<lparr>sg_entries = es, sg_frames = [plain]\<rparr> e = Ok c"
  using assms
  by (cases x) (auto simp: input_entry_def entry_in_def materialize_def decode_item_def sg_stored_def
      get_field_def split: if_splits)

lemma build_segment_fields:
  "build_segment E xs level = Ok g \<Longrightarrow>
   (let b = fold (build_step E) xs bd_start in
      zstd_encode E level (plain_of xs) = Some (bs_pk g) \<and>
      bs_idx g = concat (map ie_to_line (bd_entries b)) \<and> bs_entries g = length (bd_entries b) \<and>
      bs_pk_sha3 g = sha3_hex E (bs_pk g) \<and> bs_idx_sha3 g = sha3_hex E (bs_idx g) \<and>
      bs_segid g = segid_of E (bs_pk_sha3 g) (bs_idx_sha3 g) \<and>
      bs_image_setsum g = image_setsum E (concat (map (input_items E) xs)))"
  by (auto simp: build_segment_def Let_def build_plain build_items bd_start_def)

lemma built_segment_opens:
  assumes laws: "digest_law E" "zstd_law E"
    and g: "build_segment E xs level = Ok g"
    and v: "list_all input_valid xs" "length (plain_of xs) < 2 ^ 63"
  shows "\<exists>s. segment_open E (bs_pk g) (bs_idx g) (bs_pk_sha3 g) (bs_idx_sha3 g) = Ok s \<and>
    length (sg_entries s) = bs_entries g \<and> sg_frames s = [plain_of xs] \<and>
    (\<forall>x \<in> set xs. stores_entry x \<longrightarrow> (\<exists>e \<in> set (sg_entries s).
       input_entry E (plain_of xs) x e \<and>
       (\<forall>c. input_content x = Some c \<longrightarrow> materialize E fb fl s e = Ok c)))"
proof -
  let ?b = "fold (build_step E) xs bd_start" and ?p = "plain_of xs"
  let ?es = "bd_entries ?b"
  have p: "bd_plain ?b = ?p" by (simp add: build_plain bd_start_def)
  have start: "building_ok E bd_start" by (simp add: building_ok_def bd_start_def)
  have ok: "building_ok E ?b" using build_ok [OF start v(1)] .
  then have en: "\<forall>e \<in> set ?es. entry_in E ?p e" by (simp add: building_ok_def p)
  have ext: "extent_max ?es = length ?p"
    using build_extent [of bd_start E xs] by (simp add: p) (simp add: bd_start_def extent_max_def)
  have "ie_valid e" if "e \<in> set ?es" for e
  proof -
    have "is_hex64 (ie_sha3 e)"
      using en that is_hex64_sha3 [OF laws(1)] by (metis entry_in_def)
    with en ok that v(2) show ?thesis
      by (auto simp: ie_valid_def building_ok_def entry_in_def dest!: bspec split: prod.splits)
  qed
  then have parse: "parse_idx (concat (map ie_to_line ?es)) = Ok ?es"
    by (intro parse_idx_lines) (simp add: list_all_iff)
  have "\<forall>e \<in> set ?es. ie_frame e = 0 \<and> ie_offset e + ie_len e < 2 ^ 64"
    using en v(2) by (fastforce simp: entry_in_def)
  from frame_budget_max [OF this] ext have budget: "frame_budget ?es = Ok (length ?p)" by simp
  note f = build_segment_fields [OF g, unfolded Let_def]
  have "zstd_take E (bs_pk g) (length ?p + 1) = Some ?p"
    using f laws(2) unfolding zstd_law_def by fastforce
  then have open_: "segment_open E (bs_pk g) (bs_idx g) (bs_pk_sha3 g) (bs_idx_sha3 g) =
      Ok \<lparr>sg_entries = ?es, sg_frames = [?p]\<rparr>"
    using f parse budget v(2) by (simp add: segment_open_def)
  have "\<exists>e \<in> set ?es. input_entry E ?p x e \<and>
       (\<forall>c. input_content x = Some c \<longrightarrow> materialize E fb fl \<lparr>sg_entries = ?es, sg_frames = [?p]\<rparr> e = Ok c)"
    if "x \<in> set xs" "stores_entry x" for x
  proof -
    from build_entry [OF that start v(1)] obtain e where e: "e \<in> set ?es" "input_entry E ?p x e"
      by (auto simp: p)
    with en materialize_stored [OF e(2)] show ?thesis by blast
  qed
  with open_ f show ?thesis by auto
qed

text \<open>Whatever an open segment yields has the hash its authenticated entry names.\<close>

lemma materialize_authentic: "materialize E fb fl s e = Ok bs \<Longrightarrow> sha3_hex E bs = ie_sha3 e"
  by (auto simp: materialize_def split: if_splits)

lemma segment_open_Ok:
  assumes "segment_open E pk idx p i = Ok s"
  shows "sha3_hex E pk = p \<and> sha3_hex E idx = i \<and> parse_idx idx = Ok (sg_entries s) \<and>
    (\<exists>budget plain. frame_budget (sg_entries s) = Ok budget \<and> budget < 2 ^ 63 \<and>
       sg_frames s = [plain] \<and> length plain \<le> budget)"
  using assms by (auto simp: segment_open_def split: if_splits)

subsection \<open>Cuts\<close>

lemma cut_inputs_concat: "concat (cut_inputs t held sz xs) = held @ xs"
  by (induction xs arbitrary: held sz) (simp_all add: Let_def)

lemma cut_inputs_nonempty: "ys \<in> set (cut_inputs t held sz xs) \<Longrightarrow> ys \<noteq> []"
  by (induction xs arbitrary: held sz) (auto simp: Let_def split: if_splits)

definition plain_sum :: "segment_input list \<Rightarrow> nat" where
  "plain_sum xs = (\<Sum>x \<leftarrow> xs. plain_len x)"

text \<open>Every piece but the last reaches the target, and none does before its last input.\<close>

lemma cut_inputs_sizes:
  assumes "sz = plain_sum held" "plain_sum (held @ xs) < 2 ^ 64" "held \<noteq> [] \<longrightarrow> sz < t"
  shows "(\<forall>ys \<in> set (butlast (cut_inputs t held sz xs)). plain_sum ys \<ge> t) \<and>
    (\<forall>ys \<in> set (cut_inputs t held sz xs). butlast ys \<noteq> [] \<longrightarrow> plain_sum (butlast ys) < t)"
  using assms
proof (induction xs arbitrary: held sz)
  case Nil
  have "plain_sum (butlast held) \<le> plain_sum held"
    by (cases held rule: rev_cases) (simp_all add: plain_sum_def)
  with Nil show ?case by auto
next
  case (Cons x xs)
  have s: "saturating_add sz (plain_len x) = plain_sum (held @ [x])"
    using Cons.prems(1,2) by (simp add: saturating_add_def plain_sum_def)
  show ?case
  proof (cases "t \<le> plain_sum (held @ [x])")
    case True
    have "plain_sum ([] @ xs) < 2 ^ 64" using Cons.prems(2) by (simp add: plain_sum_def)
    with Cons.IH [of 0 "[]"] have ih: "(\<forall>ys \<in> set (butlast (cut_inputs t [] 0 xs)). plain_sum ys \<ge> t) \<and>
      (\<forall>ys \<in> set (cut_inputs t [] 0 xs). butlast ys \<noteq> [] \<longrightarrow> plain_sum (butlast ys) < t)"
      by (simp add: plain_sum_def)
    with True Cons.prems(1,3) s show ?thesis by (simp add: Let_def)
  next
    case False
    with Cons.IH [of "plain_sum (held @ [x])" "held @ [x]"] Cons.prems(2) s
    show ?thesis by (simp add: Let_def)
  qed
qed

end
