(* ===== verification/Serve.thy ===== *)
theory Serve
  imports Segment "HOL-Library.Product_Lexorder"
begin

text \<open>
  \<open>src/src/serve.rs\<close>: the serve-manifest with its JSON form and its size-bounded
  parse, the arithmetic of manifest swaps, and the verification and unpacking of
  a set of segments.  Main results: manifests read back; a swap's delta is the
  image it added; whatever unpacks is named by its hash and every segment's image
  is the one the manifest claims; the construct fixpoint terminates and resolves
  every construct.
\<close>

definition MANIFEST_SIZE_BOUND :: nat where
  "MANIFEST_SIZE_BOUND = 16 * 2 ^ 20"

record fork_head =
  fh_anchor :: string
  fh_head_id :: string
  fh_head_sum :: string
  fh_log_segments :: "string list"

record segment_meta =
  me_pk_sha3 :: string
  me_idx_sha3 :: string
  me_bytes :: nat
  me_entries :: nat
  me_image_setsum :: string
  me_log_span :: "(string \<times> string) option"

record serve_manifest =
  sm_id :: string
  sm_v :: nat
  sm_seq :: nat
  sm_prev :: string
  sm_forks :: "(string, fork_head) btree"
  sm_segments :: "(string, segment_meta) btree"
  sm_anchors :: "string list"
  sm_retire :: "string list"

definition meta_of :: "'s env \<Rightarrow> 's built_segment \<Rightarrow> segment_meta" where
  "meta_of E b =
     \<lparr>me_pk_sha3 = bs_pk_sha3 b, me_idx_sha3 = bs_idx_sha3 b, me_bytes = length (bs_pk b),
      me_entries = bs_entries b, me_image_setsum = ss_hexdigest E (bs_image_setsum b),
      me_log_span = bs_log_span b\<rparr>"

subsection \<open>The JSON form\<close>

definition head_to_value :: "fork_head \<Rightarrow> json" where
  "head_to_value h =
     JObj [(''anchor'', JStr (fh_anchor h)), (''head_id'', JStr (fh_head_id h)),
           (''head_sum'', JStr (fh_head_sum h)), (''log_segments'', JArr (map JStr (fh_log_segments h)))]"

definition pair_to_value :: "string \<times> string \<Rightarrow> json" where
  "pair_to_value p = JArr [JStr (fst p), JStr (snd p)]"

definition meta_to_value :: "segment_meta \<Rightarrow> json" where
  "meta_to_value m =
     JObj ([(''bytes'', JInt (int (me_bytes m))), (''entries'', JInt (int (me_entries m))),
            (''idx_sha3'', JStr (me_idx_sha3 m)), (''image_setsum'', JStr (me_image_setsum m))] @
           member ''log_span'' pair_to_value (me_log_span m) @ [(''pk_sha3'', JStr (me_pk_sha3 m))])"

definition sm_to_value :: "serve_manifest \<Rightarrow> json" where
  "sm_to_value m =
     JObj [(''anchors'', JArr (map JStr (sm_anchors m))),
           (''forks'', JObj (map (\<lambda>(k, h). (k, head_to_value h)) (sm_forks m))),
           (''id'', JStr (sm_id m)),
           (''prev'', JStr (sm_prev m)),
           (''retire'', JArr (map JStr (sm_retire m))),
           (''segments'', JObj (map (\<lambda>(k, s). (k, meta_to_value s)) (sm_segments m))),
           (''seq'', JInt (int (sm_seq m))),
           (''v'', JInt (int (sm_v m)))]"

definition head_of_value :: "json \<Rightarrow> fork_head result" where
  "head_of_value v =
     rbind (struct_fields [''anchor'', ''head_id'', ''head_sum'', ''log_segments''] 0 v) (\<lambda>f.
     rbind (req f ''anchor'' str_of) (\<lambda>a.
     rbind (req f ''head_id'' str_of) (\<lambda>i.
     rbind (req f ''head_sum'' str_of) (\<lambda>s.
     rbind (req f ''log_segments'' (arr_of str_of)) (\<lambda>l.
       Ok \<lparr>fh_anchor = a, fh_head_id = i, fh_head_sum = s, fh_log_segments = l\<rparr>)))))"

definition pair_of_value :: "json \<Rightarrow> (string \<times> string) result" where
  "pair_of_value v = (case v of
       JArr [a, b] \<Rightarrow> rbind (str_of a) (\<lambda>a. rbind (str_of b) (\<lambda>b. Ok (a, b)))
     | _ \<Rightarrow> Err Json)"

definition meta_of_value :: "json \<Rightarrow> segment_meta result" where
  "meta_of_value v =
     rbind (struct_fields [''pk_sha3'', ''idx_sha3'', ''bytes'', ''entries'', ''image_setsum'', ''log_span''] 0 v) (\<lambda>f.
     rbind (req f ''pk_sha3'' str_of) (\<lambda>p.
     rbind (req f ''idx_sha3'' str_of) (\<lambda>i.
     rbind (req f ''bytes'' u64_of) (\<lambda>b.
     rbind (req f ''entries'' u64_of) (\<lambda>n.
     rbind (req f ''image_setsum'' str_of) (\<lambda>s.
     rbind (opt f ''log_span'' pair_of_value) (\<lambda>l.
       Ok \<lparr>me_pk_sha3 = p, me_idx_sha3 = i, me_bytes = b, me_entries = n, me_image_setsum = s,
           me_log_span = l\<rparr>)))))))"

text \<open>A map from an object: each member is inserted under its key.\<close>

definition map_of_value :: "(json \<Rightarrow> 'a result) \<Rightarrow> json \<Rightarrow> (string, 'a) btree result" where
  "map_of_value rd v = (case v of
       JObj m \<Rightarrow> rfold (\<lambda>(k, x) acc. rmap (\<lambda>y. bt_insert k y acc) (rd x)) m []
     | _ \<Rightarrow> Err Json)"

definition sm_of_value :: "json \<Rightarrow> serve_manifest result" where
  "sm_of_value v =
     rbind (struct_fields [''id'', ''v'', ''seq'', ''prev'', ''forks'', ''segments'', ''anchors'', ''retire''] 0 v) (\<lambda>f.
     rbind (req f ''id'' str_of) (\<lambda>i.
     rbind (req f ''v'' u64_of) (\<lambda>v.
     rbind (req f ''seq'' u64_of) (\<lambda>seq.
     rbind (req f ''prev'' str_of) (\<lambda>prev.
     rbind (req f ''forks'' (map_of_value head_of_value)) (\<lambda>forks.
     rbind (req f ''segments'' (map_of_value meta_of_value)) (\<lambda>segs.
     rbind (req f ''anchors'' (arr_of str_of)) (\<lambda>anchors.
     rbind (req f ''retire'' (arr_of str_of)) (\<lambda>ret.
       Ok \<lparr>sm_id = i, sm_v = v, sm_seq = seq, sm_prev = prev, sm_forks = forks, sm_segments = segs,
           sm_anchors = anchors, sm_retire = ret\<rparr>)))))))))"

definition sm_to_bytes :: "serve_manifest \<Rightarrow> bytes result" where
  "sm_to_bytes m = canonical_json (sm_to_value m)"

definition sm_parse :: "'s env \<Rightarrow> bytes \<Rightarrow> serve_manifest result" where
  "sm_parse E bs =
     (if length bs > MANIFEST_SIZE_BOUND then Err Corrupt else
      rbind (ok_or Json (json_parse E bs)) (\<lambda>v.
      rbind (verify_record_id E v) (\<lambda>_.
      rbind (sm_of_value v) (\<lambda>m.
      if sm_v m \<noteq> 0 then Err Corrupt else Ok m))))"

subsection \<open>The arithmetic of swaps\<close>

definition total_image :: "'s env \<Rightarrow> serve_manifest \<Rightarrow> 's result" where
  "total_image E m = rfold (\<lambda>meta total.
     rmap (ss_add E total) (sum_from_hexdigest E (me_image_setsum meta))) (bt_values (sm_segments m)) (ss_zero E)"

definition swap_delta :: "'s env \<Rightarrow> serve_manifest \<Rightarrow> serve_manifest \<Rightarrow> 's result" where
  "swap_delta E prev next =
     rbind (total_image E next) (\<lambda>n. rbind (total_image E prev) (\<lambda>p. Ok (ss_sub E n p)))"

subsection \<open>Unpacking\<close>

record unpacked =
  un_manifest :: serve_manifest
  un_blobs :: "(string, bytes) btree"
  un_logs :: "(string, bytes) btree"

definition open_segment ::
  "'s env \<Rightarrow> (string \<Rightarrow> bytes result) \<Rightarrow> string \<times> segment_meta \<Rightarrow> (string \<times> segment) result" where
  "open_segment E fetch p = (case p of (segid, meta) \<Rightarrow>
     if segid_of E (me_pk_sha3 meta) (me_idx_sha3 meta) \<noteq> segid then Err Corrupt else
     rbind (fetch (''seg/'' @ segid @ ''.pk'')) (\<lambda>pk.
     rbind (fetch (''seg/'' @ segid @ ''.idx'')) (\<lambda>idx.
     rmap (Pair segid) (segment_open E pk idx (me_pk_sha3 meta) (me_idx_sha3 meta)))))"

text \<open>The first pass: everything with stored bytes; constructs are put aside.\<close>

record first_pass =
  fp_blobs :: "(string, bytes) btree"
  fp_spans :: "(string \<times> string, bytes) btree"
  fp_constructs :: "(string \<times> idx_entry) list"

definition no_blob :: "string \<Rightarrow> bytes result" where "no_blob h = Err Corrupt"
definition no_line :: "string \<Rightarrow> log_line result" where "no_line i = Err Corrupt"

definition first_pass_entry ::
  "'s env \<Rightarrow> string \<Rightarrow> segment \<Rightarrow> idx_entry \<Rightarrow> first_pass \<Rightarrow> first_pass result" where
  "first_pass_entry E segid s e fp = (case ie_enc e of
       Construct _ _ \<Rightarrow> Ok (fp\<lparr>fp_constructs := fp_constructs fp @ [(segid, e)]\<rparr>)
     | Lines fork _ \<Rightarrow> rbind (materialize E no_blob no_line s e) (\<lambda>bs.
         let old = (case bt_get (fp_spans fp) (segid, fork) of None \<Rightarrow> [] | Some b \<Rightarrow> b) in
         Ok (fp\<lparr>fp_spans := bt_insert (segid, fork) (old @ bs) (fp_spans fp)\<rparr>))
     | _ \<Rightarrow> rbind (materialize E no_blob no_line s e) (\<lambda>bs.
         Ok (fp\<lparr>fp_blobs := bt_insert (ie_sha3 e) bs (fp_blobs fp)\<rparr>)))"

definition first_pass_all :: "'s env \<Rightarrow> (string \<times> segment) list \<Rightarrow> first_pass result" where
  "first_pass_all E opened =
     rfold (\<lambda>(segid, s). rfold (first_pass_entry E segid s) (sg_entries s)) opened
       \<lparr>fp_blobs = [], fp_spans = [], fp_constructs = []\<rparr>"

definition from_map :: "(string, 'a) btree \<Rightarrow> string \<Rightarrow> 'a result" where
  "from_map m k = ok_or Corrupt (bt_get m k)"

definition parse_spans :: "'s env \<Rightarrow> first_pass \<Rightarrow> (string, log_line) btree result" where
  "parse_spans E fp =
     rfold (\<lambda>bs acc. rmap (\<lambda>ls. fold (\<lambda>l acc. bt_insert (ll_id l) l acc) ls acc)
         (parse_log_strict E (from_map (fp_blobs fp)) bs))
       (bt_values (fp_spans fp)) []"

text \<open>One round over the pending constructs: those whose base is known are materialised.\<close>

fun construct_base :: "enc \<Rightarrow> string" where
  "construct_base (Construct base _) = base"
| "construct_base _ = []"

definition resolve_one ::
  "'s env \<Rightarrow> (string \<times> segment) list \<Rightarrow> (string, log_line) btree \<Rightarrow> string \<times> idx_entry \<Rightarrow>
   (string, bytes) btree \<times> (string \<times> idx_entry) list \<Rightarrow>
   ((string, bytes) btree \<times> (string \<times> idx_entry) list) result" where
  "resolve_one E opened ls p st = (case (p, st) of ((segid, e), (blobs, deferred)) \<Rightarrow>
     let base = construct_base (ie_enc e) in
     if base \<noteq> EMPTY_BLOB \<and> \<not> bt_has blobs base then Ok (blobs, deferred @ [(segid, e)]) else
     rbind (ok_or Panic (map_of opened segid)) (\<lambda>s.
     rbind (materialize E (from_map blobs) (from_map ls) s e) (\<lambda>bs.
     Ok (bt_insert (ie_sha3 e) bs blobs, deferred))))"

definition resolve_round ::
  "'s env \<Rightarrow> (string \<times> segment) list \<Rightarrow> (string, log_line) btree \<Rightarrow> (string \<times> idx_entry) list \<Rightarrow>
   (string, bytes) btree \<Rightarrow> ((string, bytes) btree \<times> (string \<times> idx_entry) list) result" where
  "resolve_round E opened ls pending blobs = rfold (resolve_one E opened ls) pending (blobs, [])"

lemma resolve_one_length:
  "resolve_one E opened ls p (b, d) = Ok (b', d') \<Longrightarrow> length d' \<le> Suc (length d)"
  by (auto simp: resolve_one_def Let_def split: prod.splits if_splits)

lemma resolve_round_length:
  "resolve_round E opened ls ps b = Ok (b', d') \<Longrightarrow> length d' \<le> length ps"
proof -
  have "rfold (resolve_one E opened ls) ps (b, d) = Ok (b', d') \<Longrightarrow> length d' \<le> length d + length ps" for d
  proof (induction ps arbitrary: b d)
    case (Cons p ps)
    then obtain b1 d1 where "resolve_one E opened ls p (b, d) = Ok (b1, d1)"
      "rfold (resolve_one E opened ls) ps (b1, d1) = Ok (b', d')" by auto
    with Cons.IH [of b1 d1] resolve_one_length show ?case by fastforce
  qed simp
  from this [of "[]"] show "resolve_round E opened ls ps b = Ok (b', d') \<Longrightarrow> length d' \<le> length ps"
    by (simp add: resolve_round_def)
qed

function resolve_constructs ::
  "'s env \<Rightarrow> (string \<times> segment) list \<Rightarrow> (string, log_line) btree \<Rightarrow> (string \<times> idx_entry) list \<Rightarrow>
   (string, bytes) btree \<Rightarrow> (string, bytes) btree result" where
  "resolve_constructs E opened ls pending blobs =
     (if pending = [] then Ok blobs else
      rbind (resolve_round E opened ls pending blobs) (\<lambda>(blobs, deferred).
        if deferred \<noteq> [] \<and> length deferred = length pending then Err Corrupt
        else resolve_constructs E opened ls deferred blobs))"
  by pat_completeness auto
termination
  by (relation "measure (\<lambda>(E, opened, ls, pending, blobs). length pending)")
    (auto dest!: resolve_round_length)

declare resolve_constructs.simps [simp del]

definition check_image ::
  "'s env \<Rightarrow> serve_manifest \<Rightarrow> (string, bytes) btree \<Rightarrow> (string, log_line) btree \<Rightarrow>
   string \<times> segment \<Rightarrow> unit result" where
  "check_image E m blobs ls p = (case p of (segid, s) \<Rightarrow>
     rbind (segment_items E (from_map blobs) (from_map ls) s) (\<lambda>items.
     rbind (ok_or Panic (bt_get (sm_segments m) segid)) (\<lambda>meta.
     if ss_hexdigest E (image_setsum E items) \<noteq> me_image_setsum meta then Err Corrupt else Ok ())))"

definition fork_log :: "(string \<times> string, bytes) btree \<Rightarrow> string \<Rightarrow> fork_head \<Rightarrow> bytes" where
  "fork_log spans fork h = concat (map (\<lambda>segid.
     case bt_get spans (segid, fork) of None \<Rightarrow> [] | Some b \<Rightarrow> b) (fh_log_segments h))"

definition unpack_segments :: "'s env \<Rightarrow> serve_manifest \<Rightarrow> (string \<Rightarrow> bytes result) \<Rightarrow> unpacked result" where
  "unpack_segments E m fetch =
     rbind (rmapM (open_segment E fetch) (sm_segments m)) (\<lambda>opened.
     rbind (first_pass_all E opened) (\<lambda>fp.
     rbind (parse_spans E fp) (\<lambda>ls.
     rbind (resolve_constructs E opened ls (fp_constructs fp) (fp_blobs fp)) (\<lambda>blobs.
     rbind (rmapM (check_image E m blobs ls) opened) (\<lambda>_.
     Ok \<lparr>un_manifest = m, un_blobs = blobs,
         un_logs = fold (\<lambda>(fork, h). bt_insert fork (fork_log (fp_spans fp) fork h)) (sm_forks m) []\<rparr>)))))"

subsection \<open>Manifests read back\<close>

lemma head_roundtrip: "head_of_value (head_to_value h) = Ok h"
  by (simp add: head_of_value_def head_to_value_def reading arr_of_map)

lemma pair_roundtrip: "pair_of_value (pair_to_value p) = Ok p"
  by (simp add: pair_of_value_def pair_to_value_def)

lemma u64_of_nat: "n < 2 ^ 64 \<Longrightarrow> u64_of (JInt (int n)) = Ok n"
  by (simp add: u64_of_def)

definition meta_valid :: "segment_meta \<Rightarrow> bool" where
  "meta_valid m \<longleftrightarrow> me_bytes m < 2 ^ 64 \<and> me_entries m < 2 ^ 64"

lemma meta_roundtrip: "meta_valid m \<Longrightarrow> meta_of_value (meta_to_value m) = Ok m"
  by (cases "me_log_span m")
    (simp_all add: meta_of_value_def meta_to_value_def reading meta_valid_def u64_of_nat
      pair_roundtrip [unfolded pair_to_value_def] pair_to_value_def)

lemma bt_insert_greatest:
  "(\<And>k'. k' \<in> fst ` set m \<Longrightarrow> k' < k) \<Longrightarrow> bt_insert k v m = m @ [(k, v)]"
  by (induction m rule: bt_insert.induct [of _ k v]) (auto simp: not_less_iff_gr_or_eq)

lemma map_roundtrip:
  assumes "bt_ok m" "\<And>k x. (k, x) \<in> set m \<Longrightarrow> rd (w x) = Ok x"
  shows "map_of_value rd (JObj (map (\<lambda>(k, x). (k, w x)) m)) = Ok m"
proof -
  have "rfold (\<lambda>(k, x) acc. rmap (\<lambda>y. bt_insert k y acc) (rd x)) (map (\<lambda>(k, x). (k, w x)) m) acc = Ok (acc @ m)"
    if "bt_ok (acc @ m)" "\<And>k x. (k, x) \<in> set m \<Longrightarrow> rd (w x) = Ok x" for acc
    using that
  proof (induction m arbitrary: acc)
    case (Cons p m)
    obtain k x where p: "p = (k, x)" by force
    have "k' < k" if "k' \<in> fst ` set acc" for k'
      using Cons.prems(1) that by (auto simp: bt_ok_def p sorted_wrt_append)
    then have "bt_insert k x acc = acc @ [(k, x)]" by (rule bt_insert_greatest)
    moreover have "rd (w x) = Ok x" using Cons.prems(2) [of k x] by (simp add: p)
    ultimately show ?case using Cons.IH [of "acc @ [p]"] Cons.prems by (auto simp: p)
  qed simp
  from this [of "[]"] assms show ?thesis by (simp add: map_of_value_def)
qed

definition sm_valid :: "serve_manifest \<Rightarrow> bool" where
  "sm_valid m \<longleftrightarrow> bt_ok (sm_forks m) \<and> bt_ok (sm_segments m) \<and> sm_v m < 2 ^ 64 \<and> sm_seq m < 2 ^ 64 \<and>
     (\<forall>(k, s) \<in> set (sm_segments m). meta_valid s)"

lemma sm_roundtrip:
  assumes "sm_valid m" shows "sm_of_value (sm_to_value m) = Ok m"
proof -
  have f: "map_of_value head_of_value (JObj (map (\<lambda>(k, h). (k, head_to_value h)) (sm_forks m))) = Ok (sm_forks m)"
    using assms by (intro map_roundtrip head_roundtrip) (simp add: sm_valid_def)
  have g: "map_of_value meta_of_value (JObj (map (\<lambda>(k, s). (k, meta_to_value s)) (sm_segments m))) = Ok (sm_segments m)"
    using assms by (intro map_roundtrip meta_roundtrip) (auto simp: sm_valid_def)
  show ?thesis using assms
    by (simp add: sm_of_value_def sm_to_value_def reading u64_of_nat arr_of_map f g sm_valid_def)
qed

interpretation serve_manifest: codec sm_to_value sm_of_value sm_valid
  by unfold_locales (rule sm_roundtrip)

lemma sm_parse_bytes:
  assumes "sm_valid m" "sm_v m = 0" "record_id E (sm_to_value m) = Ok (sm_id m)"
    "sm_to_bytes m = Ok bs" "length bs \<le> MANIFEST_SIZE_BOUND" "json_reads E (sm_to_value m)"
  shows "sm_parse E bs = Ok m"
proof -
  have "json_parse E bs = Some (sm_to_value m)"
    using assms(4,6) by (simp add: sm_to_bytes_def json_reads_def)
  moreover have "verify_record_id E (sm_to_value m) = Ok ()"
    using assms(3) by (simp add: verify_record_id_def json_get_def sm_to_value_def as_str_def)
  ultimately show ?thesis using assms(2,5) sm_roundtrip [OF assms(1)] by (simp add: sm_parse_def)
qed

lemma sm_parse_Ok:
  "sm_parse E bs = Ok m \<Longrightarrow> length bs \<le> MANIFEST_SIZE_BOUND \<and> sm_v m = 0 \<and>
     (\<exists>v. json_parse E bs = Some v \<and> verify_record_id E v = Ok () \<and> sm_of_value v = Ok m)"
  by (auto simp: sm_parse_def split: if_splits)

subsection \<open>Swaps\<close>

text \<open>The image sum of a set of segments, as one addition per segment.\<close>

definition meta_sums :: "'s env \<Rightarrow> segment_meta list \<Rightarrow> 's result" where
  "meta_sums E ms = rfold (\<lambda>meta total. rmap (ss_add E total) (sum_from_hexdigest E (me_image_setsum meta)))
     ms (ss_zero E)"

lemma total_image_meta_sums: "total_image E m = meta_sums E (bt_values (sm_segments m))"
  by (simp add: total_image_def meta_sums_def)

context setsum
begin

lemma meta_sums_shift:
  "rfold (\<lambda>meta total. rmap (ss_add E total) (sum_from_hexdigest E (me_image_setsum meta))) ms t =
   rmap (ss_add E t) (meta_sums E ms)"
proof -
  let ?f = "\<lambda>meta total. rmap (ss_add E total) (sum_from_hexdigest E (me_image_setsum meta))"
  have "rfold ?f ms (ss_add E t u) = rmap (ss_add E t) (rfold ?f ms u)" for u
  proof (induction ms arbitrary: u)
    case (Cons m ms)
    then show ?case
      by (cases "sum_from_hexdigest E (me_image_setsum m)") (simp_all add: add_assoc)
  qed simp
  from this [of "ss_zero E"] show ?thesis by (simp add: meta_sums_def)
qed

lemma meta_sums_Cons:
  "meta_sums E (m # ms) = Ok s \<longleftrightarrow>
     (\<exists>a b. sum_from_hexdigest E (me_image_setsum m) = Ok a \<and> meta_sums E ms = Ok b \<and> s = ss_add E a b)"
proof -
  have "meta_sums E (m # ms) =
      rbind (sum_from_hexdigest E (me_image_setsum m)) (\<lambda>a. rmap (ss_add E a) (meta_sums E ms))"
  proof (cases "sum_from_hexdigest E (me_image_setsum m)")
    case (Inr a)
    then show ?thesis using meta_sums_shift [of ms a]
      by (simp add: meta_sums_def [of _ "m # ms"] group.add.right_neutral)
  qed (simp add: meta_sums_def)
  then show ?thesis by auto
qed

lemma meta_sums_Nil: "meta_sums E [] = Ok s \<longleftrightarrow> s = ss_zero E"
  by (auto simp: meta_sums_def)

lemma meta_sums_append:
  "meta_sums E (ms @ ns) = Ok s \<longleftrightarrow>
     (\<exists>a b. meta_sums E ms = Ok a \<and> meta_sums E ns = Ok b \<and> s = ss_add E a b)"
  by (induction ms arbitrary: s) (auto simp: meta_sums_Nil meta_sums_Cons add_assoc)

lemma meta_sums_insert:
  "bt_ok m \<Longrightarrow> bt_get m k = None \<Longrightarrow>
   meta_sums E (bt_values (bt_insert k x m)) = Ok s \<longleftrightarrow>
     (\<exists>a b. sum_from_hexdigest E (me_image_setsum x) = Ok a \<and> meta_sums E (bt_values m) = Ok b \<and>
        s = ss_add E a b)"
proof (induction m arbitrary: s)
  case (Cons p m)
  obtain k' y where p: "p = (k', y)" by force
  show ?case
  proof (cases "k < k'")
    case True
    then show ?thesis by (simp add: p bt_values_def meta_sums_Cons)
  next
    case False
    with Cons.prems have "k \<noteq> k'" "bt_ok m" "bt_get m k = None"
      by (auto simp: p bt_ok_Cons split: if_splits)
    with False Cons.IH show ?thesis
      by (auto simp: p bt_values_def meta_sums_Cons; metis group.add.left_commute)
  qed
qed (simp add: bt_values_def meta_sums_Cons)

text \<open>Splitting the segments by name: what is kept and what is folded.\<close>

lemma meta_sums_split:
  "meta_sums E (bt_values m) = Ok s \<longleftrightarrow>
     (\<exists>a b. meta_sums E (bt_values (filter (\<lambda>p. P (fst p)) m)) = Ok a \<and>
        meta_sums E (bt_values (filter (\<lambda>p. \<not> P (fst p)) m)) = Ok b \<and> s = ss_add E a b)"
proof (induction m arbitrary: s)
  case (Cons p m)
  then show ?case
    by (auto simp: bt_values_def meta_sums_Cons; metis group.add.left_commute add_assoc)
qed (simp add: bt_values_def meta_sums_Nil)

end

subsection \<open>What unpacks\<close>

definition named :: "'s env \<Rightarrow> (string, bytes) btree \<Rightarrow> bool" where
  "named E b \<longleftrightarrow> bt_ok b \<and> (\<forall>h c. bt_get b h = Some c \<longrightarrow> sha3_hex E c = h)"

definition covers :: "(string, 'a) btree \<Rightarrow> (string, 'b) btree \<Rightarrow> bool" where
  "covers b' b \<longleftrightarrow> (\<forall>h. bt_has b h \<longrightarrow> bt_has b' h)"

lemma covers_refl [simp]: "covers b b"
  and covers_trans: "covers c b \<Longrightarrow> covers b a \<Longrightarrow> covers c a"
  by (auto simp: covers_def)

lemma named_insert: "named E b \<Longrightarrow> sha3_hex E c = h \<Longrightarrow> named E (bt_insert h c b)"
  by (auto simp: named_def bt_ok_insert bt_get_insert)

lemma named_materialized:
  "materialize E fb fl s e = Ok x \<Longrightarrow> named E b \<Longrightarrow> named E (bt_insert (ie_sha3 e) x b)"
  by (rule named_insert) (auto dest: materialize_authentic)

lemma covers_insert: "bt_ok b \<Longrightarrow> covers (bt_insert h c b) b"
  by (auto simp: covers_def bt_has_def bt_get_insert)

definition stores_blob :: "enc \<Rightarrow> bool" where
  "stores_blob enc \<longleftrightarrow> enc = Raw \<or> enc = Zstd \<or> (\<exists>d. enc = Zstdd d)"

text \<open>One entry of the first pass.\<close>

definition pass_inv :: "'s env \<Rightarrow> first_pass \<Rightarrow> bool" where
  "pass_inv E fp \<longleftrightarrow> named E (fp_blobs fp) \<and> bt_ok (fp_spans fp)"

lemma first_pass_entry_step:
  assumes "pass_inv E fp" "first_pass_entry E segid s e fp = Ok fp'"
  shows "pass_inv E fp' \<and> covers (fp_blobs fp') (fp_blobs fp) \<and>
    set (fp_constructs fp) \<subseteq> set (fp_constructs fp') \<and>
    (stores_blob (ie_enc e) \<longrightarrow> bt_has (fp_blobs fp') (ie_sha3 e)) \<and>
    ((\<exists>b l. ie_enc e = Construct b l) \<longrightarrow> (segid, e) \<in> set (fp_constructs fp')) \<and>
    set (fp_constructs fp') \<subseteq> insert (segid, e) (set (fp_constructs fp))"
proof -
  have b: "named E (fp_blobs fp)" "bt_ok (fp_blobs fp)" "bt_ok (fp_spans fp)"
    using assms(1) by (auto simp: pass_inv_def named_def)
  show ?thesis
  proof (cases "ie_enc e")
    case (Lines fork span)
    with assms(2) b show ?thesis
      by (auto simp: first_pass_entry_def pass_inv_def stores_blob_def bt_ok_insert Let_def)
  next
    case (Construct base line)
    with assms(2) b show ?thesis
      by (auto simp: first_pass_entry_def pass_inv_def stores_blob_def)
  qed (use assms(2) b in \<open>auto simp: first_pass_entry_def pass_inv_def stores_blob_def covers_insert
        bt_has_def bt_get_insert intro: named_materialized\<close>)
qed

lemma first_pass_segment:
  assumes "pass_inv E fp" "rfold (first_pass_entry E segid s) es fp = Ok fp'"
  shows "pass_inv E fp' \<and> covers (fp_blobs fp') (fp_blobs fp) \<and>
    set (fp_constructs fp) \<subseteq> set (fp_constructs fp') \<and>
    (\<forall>e \<in> set es. (stores_blob (ie_enc e) \<longrightarrow> bt_has (fp_blobs fp') (ie_sha3 e)) \<and>
       ((\<exists>b l. ie_enc e = Construct b l) \<longrightarrow> (segid, e) \<in> set (fp_constructs fp')))"
  using assms
proof (induction es arbitrary: fp)
  case (Cons e es)
  then obtain fp1 where 1: "first_pass_entry E segid s e fp = Ok fp1"
    and 2: "rfold (first_pass_entry E segid s) es fp1 = Ok fp'" by auto
  note a = first_pass_entry_step [OF Cons.prems(1) 1]
  then have "pass_inv E fp1" by blast
  note b = Cons.IH [OF this 2]
  have c: "covers (fp_blobs fp') (fp_blobs fp1)" using b by blast
  show ?case
    using a b covers_trans [OF c] unfolding covers_def by (simp; blast)
qed simp

lemma first_pass_opened:
  assumes "pass_inv E fp"
    "rfold (\<lambda>(segid, s). rfold (first_pass_entry E segid s) (sg_entries s)) opened fp = Ok fp'"
  shows "pass_inv E fp' \<and> covers (fp_blobs fp') (fp_blobs fp) \<and>
    set (fp_constructs fp) \<subseteq> set (fp_constructs fp') \<and>
    (\<forall>(segid, s) \<in> set opened. \<forall>e \<in> set (sg_entries s).
       (stores_blob (ie_enc e) \<longrightarrow> bt_has (fp_blobs fp') (ie_sha3 e)) \<and>
       ((\<exists>b l. ie_enc e = Construct b l) \<longrightarrow> (segid, e) \<in> set (fp_constructs fp')))"
  using assms
proof (induction opened arbitrary: fp)
  case (Cons p opened)
  obtain segid s where p: "p = (segid, s)" by force
  from Cons.prems(2) obtain fp1 where 1: "rfold (first_pass_entry E segid s) (sg_entries s) fp = Ok fp1"
    and 2: "rfold (\<lambda>(segid, s). rfold (first_pass_entry E segid s) (sg_entries s)) opened fp1 = Ok fp'"
    by (auto simp: p)
  note a = first_pass_segment [OF Cons.prems(1) 1]
  then have "pass_inv E fp1" by blast
  note b = Cons.IH [OF this 2]
  have c: "covers (fp_blobs fp') (fp_blobs fp1)" using b by blast
  show ?case
    using a b covers_trans [OF c] unfolding covers_def p by (simp; blast)
qed simp

lemma first_pass_all_Ok:
  "first_pass_all E opened = Ok fp \<Longrightarrow> pass_inv E fp \<and>
    (\<forall>(segid, s) \<in> set opened. \<forall>e \<in> set (sg_entries s).
       (stores_blob (ie_enc e) \<longrightarrow> bt_has (fp_blobs fp) (ie_sha3 e)) \<and>
       ((\<exists>b l. ie_enc e = Construct b l) \<longrightarrow> (segid, e) \<in> set (fp_constructs fp)))"
  unfolding first_pass_all_def
  by (drule first_pass_opened [rotated]) (auto simp: pass_inv_def named_def)

lemma resolve_one_step:
  assumes "named E b" "resolve_one E opened ls p (b, d) = Ok (b', d')"
  shows "named E b' \<and> covers b' b \<and> set d \<subseteq> set d' \<and> (p \<in> set d' \<or> bt_has b' (ie_sha3 (snd p)))"
  using assms
  by (auto simp: resolve_one_def Let_def covers_insert bt_has_def bt_get_insert named_materialized
      named_def [THEN iffD1, THEN conjunct1] split: prod.splits if_splits)

lemma resolve_run:
  assumes "named E b" "rfold (resolve_one E opened ls) ps (b, d) = Ok (b', d')"
  shows "named E b' \<and> covers b' b \<and> set d \<subseteq> set d' \<and>
    (\<forall>p \<in> set ps. p \<in> set d' \<or> bt_has b' (ie_sha3 (snd p)))"
  using assms
proof (induction ps arbitrary: b d)
  case (Cons p ps)
  then obtain b1 d1 where 1: "resolve_one E opened ls p (b, d) = Ok (b1, d1)"
    and 2: "rfold (resolve_one E opened ls) ps (b1, d1) = Ok (b', d')" by auto
  note a = resolve_one_step [OF Cons.prems(1) 1]
  then have "named E b1" by blast
  note c = Cons.IH [OF this 2]
  show ?case using a c unfolding covers_def by (simp; blast)
qed simp

lemma resolve_constructs_Ok:
  assumes "named E b" "resolve_constructs E opened ls ps b = Ok b'"
  shows "named E b' \<and> covers b' b \<and> (\<forall>p \<in> set ps. bt_has b' (ie_sha3 (snd p)))"
  using assms
proof (induction E opened ls ps b arbitrary: b' rule: resolve_constructs.induct)
  case (1 E opened ls ps b)
  show ?case
  proof (cases "ps = []")
    case False
    with 1(3) obtain b1 d1 where r: "resolve_round E opened ls ps b = Ok (b1, d1)"
      and s: "\<not> (d1 \<noteq> [] \<and> length d1 = length ps)" "resolve_constructs E opened ls d1 b1 = Ok b'"
      by (auto simp: resolve_constructs.simps [of E opened ls ps b] split: if_splits)
    note a = resolve_run [OF 1(2) r [unfolded resolve_round_def]]
    then have "named E b1" by blast
    from 1(1) [OF False r refl s(1) this s(2)] a show ?thesis unfolding covers_def by blast
  qed (use 1 in \<open>simp add: resolve_constructs.simps [of E opened ls "[]" b]\<close>)
qed

text \<open>The fetched segments.\<close>

lemma open_segment_Ok:
  assumes "open_segment E fetch (segid, meta) = Ok p"
  shows "\<exists>s pk idx. p = (segid, s) \<and> segid = segid_of E (sha3_hex E pk) (sha3_hex E idx) \<and>
    fetch (''seg/'' @ segid @ ''.pk'') = Ok pk \<and> fetch (''seg/'' @ segid @ ''.idx'') = Ok idx \<and>
    sha3_hex E pk = me_pk_sha3 meta \<and> sha3_hex E idx = me_idx_sha3 meta \<and>
    parse_idx idx = Ok (sg_entries s)"
  using assms segment_open_Ok by (fastforce simp: open_segment_def split: if_splits)

definition has_entry :: "(string, bytes) btree \<Rightarrow> idx_entry \<Rightarrow> bool" where
  "has_entry blobs e \<longleftrightarrow> ((\<exists>f sp. ie_enc e = Lines f sp) \<or> bt_has blobs (ie_sha3 e))"

lemma stored_or_construct:
  "(stores_blob c \<or> (\<exists>b l. c = Construct b l)) \<longleftrightarrow> \<not> (\<exists>f sp. c = Lines f sp)"
  by (cases c) (auto simp: stores_blob_def)

text \<open>What a served segment amounts to: authentic bytes of the names in the manifest, every
  entry present, and an image whose sum is the one the manifest claims.\<close>

definition segment_served ::
  "'s env \<Rightarrow> serve_manifest \<Rightarrow> (string \<Rightarrow> bytes result) \<Rightarrow> (string, bytes) btree \<Rightarrow>
   (string, log_line) btree \<Rightarrow> string \<times> segment_meta \<Rightarrow> bool" where
  "segment_served E m fetch blobs ls p \<longleftrightarrow> (\<exists>s pk idx items claim.
     fetch (''seg/'' @ fst p @ ''.pk'') = Ok pk \<and> fetch (''seg/'' @ fst p @ ''.idx'') = Ok idx \<and>
     fst p = segid_of E (sha3_hex E pk) (sha3_hex E idx) \<and>
     sha3_hex E pk = me_pk_sha3 (snd p) \<and> sha3_hex E idx = me_idx_sha3 (snd p) \<and>
     parse_idx idx = Ok (sg_entries s) \<and> list_all (has_entry blobs) (sg_entries s) \<and>
     segment_items E (from_map blobs) (from_map ls) s = Ok items \<and>
     bt_get (sm_segments m) (fst p) = Some claim \<and>
     ss_hexdigest E (image_setsum E items) = me_image_setsum claim)"

lemma check_image_Ok:
  "check_image E m blobs ls (segid, s) = Ok un \<Longrightarrow> \<exists>items claim.
     segment_items E (from_map blobs) (from_map ls) s = Ok items \<and>
     bt_get (sm_segments m) segid = Some claim \<and>
     ss_hexdigest E (image_setsum E items) = me_image_setsum claim"
  by (auto simp: check_image_def split: if_splits)

lemma unpack_segments_Ok:
  assumes "unpack_segments E m fetch = Ok u"
  shows "un_manifest u = m \<and> named E (un_blobs u) \<and>
    (\<exists>ls. \<forall>p \<in> set (sm_segments m). segment_served E m fetch (un_blobs u) ls p)"
proof -
  obtain opened fp ls blobs chk where
    o: "rmapM (open_segment E fetch) (sm_segments m) = Ok opened" and
    f: "first_pass_all E opened = Ok fp" and
    r: "resolve_constructs E opened ls (fp_constructs fp) (fp_blobs fp) = Ok blobs" and
    c: "rmapM (check_image E m blobs ls) opened = Ok chk" and
    u: "un_manifest u = m" "un_blobs u = blobs"
    using assms by (auto simp: unpack_segments_def)
  note fp = first_pass_all_Ok [OF f]
  then have "named E (fp_blobs fp)" by (simp add: pass_inv_def)
  note rs = resolve_constructs_Ok [OF this r]
  have all: "has_entry blobs e" if "(segid, s) \<in> set opened" "e \<in> set (sg_entries s)" for segid s e
    using fp rs that stored_or_construct [of "ie_enc e"]
    unfolding has_entry_def covers_def by (auto dest!: bspec; force)
  have "segment_served E m fetch blobs ls p" if m: "p \<in> set (sm_segments m)" for p
  proof -
    obtain segid meta where p: "p = (segid, meta)" by force
    from rmapM_Inr_ex [OF o m] obtain q where
      q: "q \<in> set opened" "open_segment E fetch (segid, meta) = Ok q" by (auto simp: p)
    from open_segment_Ok [OF q(2)] obtain s where s: "q = (segid, s)" by blast
    moreover have "list_all (has_entry blobs) (sg_entries s)"
      using all q(1) s by (simp add: list_all_iff)
    moreover from rmapM_Inr_ex [OF c q(1)] obtain un where "check_image E m blobs ls (segid, s) = Ok un"
      using s by blast
    note check_image_Ok [OF this]
    ultimately show ?thesis
      using open_segment_Ok [OF q(2)] unfolding segment_served_def p fst_conv snd_conv by blast
  qed
  with u rs show ?thesis by blast
qed

subsection \<open>The fixpoint makes progress\<close>

definition avail :: "(string, bytes) btree \<Rightarrow> string \<times> idx_entry \<Rightarrow> bool" where
  "avail b p \<longleftrightarrow> construct_base (ie_enc (snd p)) = EMPTY_BLOB \<or> bt_has b (construct_base (ie_enc (snd p)))"

lemma avail_covers: "covers b' b \<Longrightarrow> avail b p \<Longrightarrow> avail b' p"
  by (auto simp: avail_def covers_def)

text \<open>A construct that materialises whenever its base is known, whatever else is.\<close>

definition ready ::
  "'s env \<Rightarrow> (string \<times> segment) list \<Rightarrow> (string, log_line) btree \<Rightarrow> (string, bytes) btree \<Rightarrow>
   string \<times> idx_entry \<Rightarrow> bool" where
  "ready E opened ls b p \<longleftrightarrow> (\<exists>s. map_of opened (fst p) = Some s \<and>
     (\<forall>b'. named E b' \<longrightarrow> covers b' b \<longrightarrow> avail b' p \<longrightarrow>
        is_ok (materialize E (from_map b') (from_map ls) s (snd p))))"

lemma ready_covers: "covers b' b \<Longrightarrow> ready E opened ls b p \<Longrightarrow> ready E opened ls b' p"
  unfolding ready_def using covers_trans by blast

lemma resolve_one_live:
  assumes "ready E opened ls b p" "named E b"
  shows "\<exists>b' d'. resolve_one E opened ls p (b, d) = Ok (b', d') \<and> d' = (if avail b p then d else d @ [p])"
proof (cases "avail b p")
  case True
  with assms obtain s x where "map_of opened (fst p) = Some s"
    "materialize E (from_map b) (from_map ls) s (snd p) = Ok x"
    unfolding ready_def is_ok_iff using covers_refl by blast
  with True show ?thesis by (cases p) (auto simp: resolve_one_def avail_def)
next
  case False
  then show ?thesis by (cases p) (auto simp: resolve_one_def avail_def)
qed

lemma resolve_run_live:
  assumes "named E b" "\<forall>p \<in> set ps. ready E opened ls b p"
  shows "\<exists>b' d'. rfold (resolve_one E opened ls) ps (b, d) = Ok (b', d') \<and> covers b' b \<and>
    set d' \<subseteq> set d \<union> set ps \<and> length d' \<le> length d + length (filter (\<lambda>p. \<not> avail b p) ps)"
  using assms
proof (induction ps arbitrary: b d)
  case (Cons p ps)
  from Cons.prems obtain b1 d1 where 1: "resolve_one E opened ls p (b, d) = Ok (b1, d1)"
    "d1 = (if avail b p then d else d @ [p])"
    using resolve_one_live [of E opened ls b p d] by auto
  then have n: "named E b1" "covers b1 b"
    using resolve_one_step [OF Cons.prems(1) 1(1)] by simp_all
  then have "\<forall>q \<in> set ps. ready E opened ls b1 q"
    using Cons.prems(2) ready_covers [OF n(2)] by (meson list.set_intros(2))
  from Cons.IH [OF n(1) this, of d1] obtain b' d' where
    2: "rfold (resolve_one E opened ls) ps (b1, d1) = Ok (b', d')" "covers b' b1"
    "set d' \<subseteq> set d1 \<union> set ps" "length d' \<le> length d1 + length (filter (\<lambda>p. \<not> avail b1 p) ps)" by blast
  have "length (filter (\<lambda>p. \<not> avail b1 p) ps) \<le> length (filter (\<lambda>p. \<not> avail b p) ps)"
    using n(2) avail_covers by (induction ps) fastforce+
  with 1 2 n(2) covers_trans show ?case by (auto split: if_splits)
qed auto

text \<open>Constructs whose bases are known, or the product of a construct of smaller rank, resolve.\<close>

definition founded :: "(string \<Rightarrow> nat) \<Rightarrow> (string, bytes) btree \<Rightarrow> (string \<times> idx_entry) list \<Rightarrow> bool" where
  "founded rank b ps \<longleftrightarrow> (\<forall>p \<in> set ps. avail b p \<or> (\<exists>q \<in> set ps.
     ie_sha3 (snd q) = construct_base (ie_enc (snd p)) \<and> rank (ie_sha3 (snd q)) < rank (ie_sha3 (snd p))))"

lemma founded_avail:
  assumes "founded rank b ps" "ps \<noteq> []" shows "\<exists>p \<in> set ps. avail b p"
proof -
  let ?R = "\<lambda>p. rank (ie_sha3 (snd p))"
  from assms(2) obtain p where "p \<in> set ps" by (cases ps) auto
  then obtain p where p: "p \<in> set ps" "\<forall>q \<in> set ps. ?R p \<le> ?R q"
    using arg_min_if_finite [of "set ps" ?R] assms(2) by (metis finite_set not_le set_empty)
  with assms(1) show ?thesis unfolding founded_def by (meson not_le)
qed

lemma resolve_constructs_live:
  assumes "named E b" "\<forall>p \<in> set ps. ready E opened ls b p" "founded rank b ps"
  shows "\<exists>b'. resolve_constructs E opened ls ps b = Ok b'"
  using assms
proof (induction E opened ls ps b rule: resolve_constructs.induct)
  case (1 E opened ls ps b)
  show ?case
  proof (cases "ps = []")
    case False
    from resolve_run_live [OF 1(2,3), of "[]"] obtain b1 d1 where
      r: "resolve_round E opened ls ps b = Ok (b1, d1)" "covers b1 b" "set d1 \<subseteq> set ps"
      "length d1 \<le> length (filter (\<lambda>p. \<not> avail b p) ps)"
      by (auto simp: resolve_round_def)
    from founded_avail [OF 1(4) False] have "length (filter (\<lambda>p. \<not> avail b p) ps) < length ps"
      by (auto intro: length_filter_less)
    with r(4) have less: "\<not> (d1 \<noteq> [] \<and> length d1 = length ps)" by simp
    note run = resolve_run [OF 1(2) r(1) [unfolded resolve_round_def]]
    have "founded rank b1 d1"
      unfolding founded_def
    proof
      fix p assume "p \<in> set d1"
      with r(3) 1(4) have "avail b p \<or> (\<exists>q \<in> set ps. ie_sha3 (snd q) = construct_base (ie_enc (snd p)) \<and>
        rank (ie_sha3 (snd q)) < rank (ie_sha3 (snd p)))" by (auto simp: founded_def)
      then show "avail b1 p \<or> (\<exists>q \<in> set d1. ie_sha3 (snd q) = construct_base (ie_enc (snd p)) \<and>
        rank (ie_sha3 (snd q)) < rank (ie_sha3 (snd p)))"
        using run r(2) by (auto simp: avail_def covers_def)
    qed
    moreover have "\<forall>p \<in> set d1. ready E opened ls b1 p" using r(2,3) 1(3) ready_covers by blast
    ultimately show ?thesis
      using 1(1) [OF False r(1) refl less] run r(1) less
      by (simp add: resolve_constructs.simps [of E opened ls ps b] False del: rbind_eq_Inr)
  qed (simp add: resolve_constructs.simps [of E opened ls "[]" b])
qed

end
