(* ===== verification/Pack.thy ===== *)
theory Pack
  imports Serve History Tree
begin

text \<open>
  Packing a repository and restoring one, of \<open>src/src/serve.rs\<close>: \<open>pack\<close> puts every
  blob and log into one segment and names it in a manifest; \<open>restore\<close> lays an
  unpacked repository out again, deriving the anchors, which are not packed, from
  the logs.  A directory is a map from names to contents.  Main results: a derived
  state is the replay of a log prefix from a known state and has the sum it is filed
  under; the derivation terminates; and it can stop although the anchors it wants
  can be derived.
\<close>

subsection \<open>Packing\<close>

type_synonym directory = "(string, bytes) btree"

text \<open>The hard link either makes the name or finds it.\<close>

definition dir_put :: "string \<Rightarrow> bytes \<Rightarrow> directory \<Rightarrow> bool \<times> directory" where
  "dir_put name bs dir = (if bt_has dir name then (False, dir) else (True, bt_insert name bs dir))"

record packing =
  pg_inputs :: "segment_input list"
  pg_forks :: "(string, fork_head) btree"
  pg_anchors :: "string list"

definition pack_blob :: "pool \<Rightarrow> string \<Rightarrow> packing \<Rightarrow> packing result" where
  "pack_blob pool h p = rmap (\<lambda>c. p\<lparr>pg_inputs := pg_inputs p @ [SBlob c]\<rparr>) (blob_get pool h)"

definition pack_fork :: "'s env \<Rightarrow> repo \<Rightarrow> string \<Rightarrow> packing \<Rightarrow> packing result" where
  "pack_fork E r fork p =
     rbind (read_fork r fork) (\<lambda>ff.
     rbind (current_state E r fork) (\<lambda>st.
     rbind (log_bytes (recover E fork r) fork) (\<lambda>bs.
     let ids = map ll_id (fs_lines st) in
     Ok \<lparr>pg_inputs = (if ids \<noteq> [] then pg_inputs p @ [SLogSpan fork bs ids] else pg_inputs p),
         pg_forks = bt_insert fork
           \<lparr>fh_anchor = ff_anchor ff, fh_head_id = fs_head_id st, fh_head_sum = fs_sum_hex st, fh_log_segments = []\<rparr>
           (pg_forks p),
         pg_anchors = (if ff_anchor ff \<in> set (pg_anchors p) then pg_anchors p else pg_anchors p @ [ff_anchor ff])\<rparr>)))"

definition pack_start :: packing where
  "pack_start = \<lparr>pg_inputs = [], pg_forks = [], pg_anchors = []\<rparr>"

text \<open>The segment built, and the manifest up to its id.\<close>

definition pack_all :: "'s env \<Rightarrow> repo \<Rightarrow> nat \<Rightarrow> string \<Rightarrow> int \<Rightarrow> ('s built_segment \<times> serve_manifest) result" where
  "pack_all E r seq prev level =
     rbind (rfold (pack_blob (rp_pool r)) (blob_list (rp_pool r)) pack_start) (\<lambda>p.
     rbind (rfold (pack_fork E r) (fork_names r) p) (\<lambda>p.
     rmap (\<lambda>b. (b,
         \<lparr>sm_id = [], sm_v = 0, sm_seq = seq, sm_prev = prev,
          sm_forks = map (\<lambda>(n, h). (n, h\<lparr>fh_log_segments := [bs_segid b]\<rparr>)) (pg_forks p),
          sm_segments = [(bs_segid b, meta_of E b)], sm_anchors = pg_anchors p, sm_retire = []\<rparr>))
       (build_segment E (pg_inputs p) level)))"

definition sealed_manifest :: "'s env \<Rightarrow> serve_manifest \<Rightarrow> serve_manifest result" where
  "sealed_manifest E m = rmap (\<lambda>i. m\<lparr>sm_id := i\<rparr>) (record_id E (sm_to_value m))"

text \<open>An error leaves what was put before it.\<close>

definition pack :: "'s env \<Rightarrow> repo \<Rightarrow> nat \<Rightarrow> string \<Rightarrow> int \<Rightarrow> directory \<Rightarrow> serve_manifest result \<times> directory" where
  "pack E r seq prev level dir = (case pack_all E r seq prev level of
       Err e \<Rightarrow> (Err e, dir)
     | Ok (b, m) \<Rightarrow>
         let dir = snd (dir_put (''seg/'' @ bs_segid b @ ''.pk'') (bs_pk b) dir);
             dir = snd (dir_put (''seg/'' @ bs_segid b @ ''.idx'') (bs_idx b) dir) in
         (case rbind (sealed_manifest E m) (\<lambda>m. rmap (Pair m) (sm_to_bytes m)) of
            Err e \<Rightarrow> (Err e, dir)
          | Ok (m, bs) \<Rightarrow>
              let (won, dir) = dir_put (''manifest/'' @ show_nat seq @ ''.json'') bs dir in
              (if won then Ok m else Err Invalid, dir)))"

subsection \<open>The newest manifest of a directory\<close>

text \<open>The names are those of the manifest directory, in the order it lists them.\<close>

definition newest_name :: "string list \<Rightarrow> (nat \<times> string) option" where
  "newest_name names = fold (\<lambda>name best. case Option.bind (strip_suffix ''.json'' name) parse_u64 of
       None \<Rightarrow> best
     | Some seq \<Rightarrow> (case best of
           None \<Rightarrow> Some (seq, name)
         | Some (b, _) \<Rightarrow> if seq > b then Some (seq, name) else best)) names None"

definition latest_manifest :: "'s env \<Rightarrow> string list \<Rightarrow> (string \<Rightarrow> bytes result) \<Rightarrow> serve_manifest result" where
  "latest_manifest E names read = (case newest_name names of
       None \<Rightarrow> Err Corrupt
     | Some (_, name) \<Rightarrow> rbind (read (''manifest/'' @ name)) (sm_parse E))"

subsection \<open>Deriving anchors\<close>

definition initial_entry :: "'s env \<Rightarrow> realized_entry \<Rightarrow> 's \<Rightarrow> 's result" where
  "initial_entry E e s =
     rbind (added e) (\<lambda>a.
     rbind (Ok (case a of Some r \<Rightarrow> ss_remove E s (er_to_bytes r) | None \<Rightarrow> s)) (\<lambda>s.
     rmap (\<lambda>x. case x of Some r \<Rightarrow> ss_insert E s (er_to_bytes r) | None \<Rightarrow> s) (removed e)))"

definition initial_sum :: "'s env \<Rightarrow> log_line list \<Rightarrow> string option result" where
  "initial_sum E ls = (case ls of
       [] \<Rightarrow> Ok None
     | l # _ \<Rightarrow> rbind (sum_from_hexdigest E (ll_sum_after l)) (\<lambda>s.
         rmap (\<lambda>s. Some (ss_hexdigest E s)) (rfold (initial_entry E) (ll_realized l) s)))"

type_synonym known_states = "(string, manifest) btree"

text \<open>Along a log, as long as deltas apply and sums agree.\<close>

fun derive_run :: "'s env \<Rightarrow> manifest \<Rightarrow> 's \<Rightarrow> log_line list \<Rightarrow> known_states \<Rightarrow> known_states" where
  "derive_run E m s [] known = known"
| "derive_run E m s (l # ls) known = (case apply_realized_to_manifest m (ll_realized l) of
       Err _ \<Rightarrow> known
     | Ok m \<Rightarrow> (case apply_realized_to_sum E s (ll_realized l) of
           Err _ \<Rightarrow> known
         | Ok s \<Rightarrow>
             if ss_hexdigest E s \<noteq> ll_sum_after l then known
             else derive_run E m s ls
               (if bt_has known (ll_sum_after l) then known else bt_insert (ll_sum_after l) m known)))"

definition derive ::
  "'s env \<Rightarrow> string \<times> manifest \<Rightarrow> log_line list \<times> string option \<Rightarrow> known_states \<Rightarrow> known_states" where
  "derive E from_state log known = (case (from_state, log) of ((from_sum, m), (ls, initial)) \<Rightarrow>
     (case (if initial = Some from_sum then Some 0 else map_option Suc (last_state_position ls from_sum)) of
        None \<Rightarrow> known
      | Some start \<Rightarrow> (case sum_from_hexdigest E from_sum of
            Err _ \<Rightarrow> known
          | Ok s \<Rightarrow> derive_run E m s (drop start ls) known)))"

text \<open>One round: every log from every state known before it.\<close>

definition derive_round ::
  "'s env \<Rightarrow> (log_line list \<times> string option) list \<Rightarrow> known_states \<Rightarrow> known_states" where
  "derive_round E logs known = fold (\<lambda>log. fold (\<lambda>st. derive E st log) known) logs known"

function derive_anchors ::
  "'s env \<Rightarrow> (log_line list \<times> string option) list \<Rightarrow> string list \<Rightarrow> known_states \<Rightarrow> known_states result" where
  "derive_anchors E logs unresolved known =
     (if unresolved = [] then Ok known else
      let known = derive_round E logs known;
          rest = filter (\<lambda>a. \<not> bt_has known a) unresolved in
      if rest \<noteq> [] \<and> length rest = length unresolved then Err Corrupt
      else derive_anchors E logs rest known)"
  by pat_completeness auto
termination
proof (relation "measure (\<lambda>(E, logs, unresolved, known). length unresolved)", goal_cases)
  case (2 E logs unresolved known known' rest)
  then show ?case by (cases "rest = []") (auto simp: order.strict_iff_order)
qed simp

declare derive_anchors.simps [simp del]

subsection \<open>Restoring\<close>

definition unpacked_log :: "unpacked \<Rightarrow> string \<Rightarrow> bytes" where
  "unpacked_log u fork = (case bt_get (un_logs u) fork of None \<Rightarrow> [] | Some b \<Rightarrow> b)"

definition restore_one ::
  "'s env \<Rightarrow> unpacked \<Rightarrow> known_states \<Rightarrow> string \<times> fork_head \<Rightarrow> repo \<Rightarrow> repo result" where
  "restore_one E u known p r = (case p of (fork, head) \<Rightarrow>
     rbind (ok_or Panic (bt_get known (fh_anchor head))) (\<lambda>m.
     let (_, r) = write_anchor_manifest E m r in
     rbind (restore_fork fork \<lparr>ff_anchor = fh_anchor head, ff_manifest = fh_anchor head\<rparr> (unpacked_log u fork) r) (\<lambda>r.
     rbind (current_state E r fork) (\<lambda>st.
     if fs_sum_hex st \<noteq> fh_head_sum head \<or> fs_head_id st \<noteq> fh_head_id head then Err Corrupt
     else Ok (recover E fork r)))))"

text \<open>The working tree: \<open>main\<close> if there is one, else the first fork.\<close>

definition tree_fork :: "(string, fork_head) btree \<Rightarrow> string option" where
  "tree_fork forks = (if bt_has forks ''main'' then Some ''main''
     else case bt_keys forks of [] \<Rightarrow> None | n # _ \<Rightarrow> Some n)"

definition restore :: "'s env \<Rightarrow> unpacked \<Rightarrow> tree \<Rightarrow> repo result" where
  "restore E u t =
     (let r = init_bare E t; forks = sm_forks (un_manifest u) in
      rbind (rfold (\<lambda>c pool. rmap snd (blob_put_unsynced E c pool)) (bt_values (un_blobs u)) (rp_pool r)) (\<lambda>pool.
      let r = r\<lparr>rp_pool := blob_sync pool\<rparr> in
      rbind (rmapM (\<lambda>fork. parse_log_strict E (from_map (un_blobs u)) (unpacked_log u fork)) (bt_keys forks)) (\<lambda>parsed.
      rbind (rmapM (initial_sum E) parsed) (\<lambda>initials.
      rbind (derive_anchors E (zip parsed initials) (map fh_anchor (bt_values forks))
          [(ss_hexdigest E (ss_zero E), m_new)]) (\<lambda>known.
      rbind (rfold (restore_one E u known) forks r) (\<lambda>r.
      case tree_fork forks of
        None \<Rightarrow> Ok r
      | Some fork \<Rightarrow> rbind (current_state E r fork) (\<lambda>st.
          case materialize_tree (fs_manifest st) (rp_pool r) (rp_tree r) of
            (Err e, _) \<Rightarrow> Err e
          | (Ok _, t) \<Rightarrow> Ok (r\<lparr>rp_tree := t\<rparr>))))))))"

definition unpack_dir ::
  "'s env \<Rightarrow> string list \<Rightarrow> (string \<Rightarrow> bytes result) \<Rightarrow> tree \<Rightarrow> repo result" where
  "unpack_dir E names read t =
     rbind (latest_manifest E names read) (\<lambda>m. rbind (unpack_segments E m read) (\<lambda>u. restore E u t))"

subsection \<open>Derived states are the states they are filed under\<close>

definition known_ok :: "'s env \<Rightarrow> known_states \<Rightarrow> bool" where
  "known_ok E known \<longleftrightarrow> bt_ok known \<and>
     (\<forall>h m. bt_get known h = Some m \<longrightarrow> m_ok m \<and> ss_hexdigest E (m_sum E m) = h)"

lemma known_ok_insert:
  "known_ok E known \<Longrightarrow> m_ok m \<Longrightarrow> ss_hexdigest E (m_sum E m) = h \<Longrightarrow> known_ok E (bt_insert h m known)"
  by (auto simp: known_ok_def bt_ok_insert bt_get_insert)

context setsum
begin

lemma derive_run_ok:
  "known_ok E known \<Longrightarrow> m_ok m \<Longrightarrow> s = m_sum E m \<Longrightarrow> known_ok E (derive_run E m s ls known)"
proof (induction ls arbitrary: m s known)
  case (Cons l ls)
  show ?case
  proof (cases "apply_realized_to_manifest m (ll_realized l)")
    case (Inr m')
    have ok: "m_ok m'" by (rule apply_realized_ok [OF Cons.prems(2) Inr])
    have s: "apply_realized_to_sum E s (ll_realized l) = Ok (m_sum E m')"
      using realized_sum [OF Cons.prems(2) Inr] Cons.prems(3) by simp
    have "known_ok E (if bt_has known (ll_sum_after l) then known else bt_insert (ll_sum_after l) m' known)"
      if "ss_hexdigest E (m_sum E m') = ll_sum_after l"
      using Cons.prems(1) ok that by (auto intro: known_ok_insert)
    with Cons.IH [OF _ ok refl] Cons.prems(1) show ?thesis by (auto simp: Inr s simp del: hexdigest_inj)
  qed (use Cons.prems in simp)
qed simp

lemma derive_ok: "known_ok E known \<Longrightarrow> m_ok m \<Longrightarrow> ss_hexdigest E (m_sum E m) = h \<Longrightarrow> known_ok E (derive E (h, m) log known)"
  by (cases log) (auto simp: derive_def derive_run_ok split: option.splits if_splits)

lemma derive_round_ok: assumes "known_ok E known" shows "known_ok E (derive_round E logs known)"
proof -
  have st: "m_ok m \<and> ss_hexdigest E (m_sum E m) = h" if "(h, m) \<in> set known" for h m
  proof -
    have "bt_get known h = Some m"
      using that assms bt_ok_distinct [of known] by (simp add: known_ok_def)
    with assms show ?thesis by (simp add: known_ok_def)
  qed
  have inner: "known_ok E acc \<Longrightarrow> set sts \<subseteq> set known \<Longrightarrow> known_ok E (fold (\<lambda>st. derive E st log) sts acc)"
    for sts acc log
  proof (induction sts arbitrary: acc)
    case (Cons x sts)
    obtain h m where x: "x = (h, m)" by (cases x)
    with Cons.prems(2) have "m_ok m" "ss_hexdigest E (m_sum E m) = h" using st by auto
    from Cons.IH [OF derive_ok [OF Cons.prems(1) this]] Cons.prems(2) show ?case by (simp add: x)
  qed simp
  have "known_ok E acc \<Longrightarrow> known_ok E (fold (\<lambda>log. fold (\<lambda>st. derive E st log) known) logs acc)" for acc
    by (induction logs arbitrary: acc) (auto intro: inner)
  with assms show ?thesis by (simp add: derive_round_def)
qed

end

text \<open>Nothing known is forgotten.\<close>

definition grows :: "known_states \<Rightarrow> known_states \<Rightarrow> bool" where
  "grows known known' \<longleftrightarrow> (bt_ok known \<longrightarrow> bt_ok known' \<and> (\<forall>h. bt_has known h \<longrightarrow> bt_has known' h))"

lemma grows_refl [simp]: "grows k k" and grows_trans: "grows a b \<Longrightarrow> grows b c \<Longrightarrow> grows a c"
  by (auto simp: grows_def)

lemma grows_entry: "grows known (if bt_has known h then known else bt_insert h m known)"
  by (auto simp: grows_def bt_ok_insert bt_has_def bt_get_insert)

lemma grows_fold: "(\<And>x k. grows k (f x k)) \<Longrightarrow> grows k (fold f xs k)"
  by (induction xs arbitrary: k) (auto intro: grows_trans)

lemma grows_run: "grows known (derive_run E m s ls known)"
proof (induction ls arbitrary: m s known)
  case (Cons l ls)
  note step = grows_trans [OF grows_entry Cons.IH]
  show ?case
    by (cases "apply_realized_to_manifest m (ll_realized l)";
        cases "apply_realized_to_sum E s (ll_realized l)";
        cases "ss_hexdigest E (projr (apply_realized_to_sum E s (ll_realized l))) = ll_sum_after l")
      (simp_all add: step)
qed simp

lemma grows_derive: "grows known (derive E st log known)"
  by (auto simp: derive_def grows_run split: prod.splits option.splits sum.splits)

lemma grows_round: "grows known (derive_round E logs known)"
  unfolding derive_round_def by (intro grows_fold grows_derive)

context setsum
begin

lemma derive_anchors_Ok:
  "derive_anchors E logs unresolved known = Ok known' \<Longrightarrow> known_ok E known \<Longrightarrow>
   known_ok E known' \<and> grows known known' \<and> (\<forall>a \<in> set unresolved. bt_has known' a)"
proof (induction "length unresolved" arbitrary: unresolved known rule: less_induct)
  case less
  let ?k = "derive_round E logs known"
  let ?rest = "filter (\<lambda>a. \<not> bt_has ?k a) unresolved"
  show ?case
  proof (cases "unresolved = []")
    case True
    with less.prems show ?thesis by (simp add: derive_anchors.simps [of E logs "[]"])
  next
    case False
    with less.prems(1) have r: "derive_anchors E logs ?rest ?k = Ok known'"
      and p: "?rest = [] \<or> length ?rest \<noteq> length unresolved"
      by (auto simp: derive_anchors.simps [of E logs unresolved] Let_def split: if_splits)
    have "length ?rest < length unresolved"
      using p False length_filter_le [of "\<lambda>a. \<not> bt_has ?k a" unresolved] by (auto simp: le_less)
    from less.hyps [OF this r derive_round_ok [OF less.prems(2)]] grows_round [of known E logs]
      derive_round_ok [OF less.prems(2), of logs] less.prems(2)
    show ?thesis using grows_trans by (auto simp: known_ok_def grows_def)
  qed
qed

end

end
