(* ===== verification/LineDiff.thy ===== *)
theory LineDiff
  imports Span Utf8 Decimal "HOL-Library.Sublist"
begin

text \<open>
  The line-level half of \<open>src/src/diff.rs\<close>: lines that keep their terminators, the
  edit script read off the table of longest common subsequences, the changed
  lines and byte ranges, and the hunks of a unified diff.  Main results: the
  script is a script between the two texts and is a shortest one; splicing the
  changed ranges reproduces the new text; the hunks cover every change and do
  not overlap.
\<close>

subsection \<open>Lines\<close>

definition split_keep_lines :: "string \<Rightarrow> string list" where
  "split_keep_lines s =
     (if s = [] then [] else filter (\<lambda>l. l \<noteq> []) (split_inclusive (CHR 0x0A) s))"

lemma split_keep_lines_eq: "split_keep_lines s = split_inclusive (CHR 0x0A) s"
  using split_inclusive_nonempty by (auto simp: split_keep_lines_def filter_id_conv)

lemma concat_split_keep_lines [simp]: "concat (split_keep_lines s) = s"
  by (simp add: split_keep_lines_eq)

subsection \<open>The edit script\<close>

datatype edit = Equal nat nat | Delete_line nat | Insert_line nat

text \<open>
  One row of the table, right to left: \<open>next\<close> is the row below.  Then the rows,
  bottom up; the last one is all zeros.
\<close>

fun lcs_row :: "'a \<Rightarrow> 'a list \<Rightarrow> nat list \<Rightarrow> nat list" where
  "lcs_row x (y # ys) (d # ds) =
     (let r = lcs_row x ys ds in (if x = y then hd ds + 1 else max d (hd r)) # r)"
| "lcs_row x _ _ = [0]"

fun lcs_table :: "'a list \<Rightarrow> 'a list \<Rightarrow> nat list list" where
  "lcs_table [] b = [replicate (length b + 1) 0]"
| "lcs_table (x # a) b = (let t = lcs_table a b in lcs_row x b (hd t) # t)"

text \<open>Reading the script off the table; the two tails when one side is exhausted.\<close>

function lcs_walk :: "nat list list \<Rightarrow> 'a list \<Rightarrow> 'a list \<Rightarrow> nat \<Rightarrow> nat \<Rightarrow> edit list" where
  "lcs_walk t a b i j =
     (if i < length a \<and> j < length b then
        if a ! i = b ! j then Equal i j # lcs_walk t a b (i + 1) (j + 1)
        else if t ! (i + 1) ! j \<ge> t ! i ! (j + 1) then Delete_line i # lcs_walk t a b (i + 1) j
        else Insert_line j # lcs_walk t a b i (j + 1)
      else map Delete_line [i..<length a] @ map Insert_line [j..<length b])"
  by pat_completeness auto
termination
  by (relation "measure (\<lambda>(t, a, b, i, j). (length a - i) + (length b - j))") auto

declare lcs_walk.simps [simp del]

definition lcs_edits :: "'a list \<Rightarrow> 'a list \<Rightarrow> edit list" where
  "lcs_edits a b = lcs_walk (lcs_table a b) a b 0 0"

subsection \<open>What changed\<close>

fun is_equal :: "edit \<Rightarrow> bool" where
  "is_equal (Equal _ _) = True"
| "is_equal _ = False"

fun count_edit :: "edit \<Rightarrow> nat \<times> nat \<Rightarrow> nat \<times> nat" where
  "count_edit (Insert_line _) (ins, del) = (ins + 1, del)"
| "count_edit (Delete_line _) (ins, del) = (ins, del + 1)"
| "count_edit (Equal _ _) (ins, del) = (ins, del)"

definition line_stat :: "bytes \<Rightarrow> bytes \<Rightarrow> nat \<times> nat" where
  "line_stat old new =
     (if \<not> (from_utf8 old \<and> from_utf8 new) then (0, 0) else
      fold count_edit (lcs_edits (split_keep_lines old) (split_keep_lines new)) (0, 0))"

text \<open>A \<open>BTreeSet\<close> of indices, filled from the deletes of the script.\<close>

definition changed_old_lines :: "bytes \<Rightarrow> bytes \<Rightarrow> nat set option" where
  "changed_old_lines old new =
     (if \<not> (from_utf8 old \<and> from_utf8 new) then None else
      Some (fold (\<lambda>e s. case e of Delete_line i \<Rightarrow> insert i s | _ \<Rightarrow> s)
        (lcs_edits (split_keep_lines old) (split_keep_lines new)) {}))"

fun offsets_from :: "nat \<Rightarrow> string list \<Rightarrow> nat list" where
  "offsets_from at [] = []"
| "offsets_from at (l # ls) = at # offsets_from (at + length l) ls"

definition offsets :: "string list \<Rightarrow> nat \<Rightarrow> nat list" where
  "offsets ls len = offsets_from 0 ls @ [len]"

type_synonym range = "nat \<times> nat"

record range_walk =
  rw_ranges :: "(range \<times> range) list"
  rw_open :: "(nat \<times> nat) option"
  rw_oi :: nat
  rw_ni :: nat

definition close_range :: "nat list \<Rightarrow> nat list \<Rightarrow> range_walk \<Rightarrow> range_walk" where
  "close_range old_off new_off w = (case rw_open w of
       None \<Rightarrow> w
     | Some (os, ns) \<Rightarrow> w\<lparr>rw_open := None, rw_ranges := rw_ranges w @
         [((old_off ! os, old_off ! rw_oi w), (new_off ! ns, new_off ! rw_ni w))]\<rparr>)"

definition open_range :: "range_walk \<Rightarrow> range_walk" where
  "open_range w = (case rw_open w of
       None \<Rightarrow> w\<lparr>rw_open := Some (rw_oi w, rw_ni w)\<rparr>
     | Some _ \<Rightarrow> w)"

fun range_step :: "nat list \<Rightarrow> nat list \<Rightarrow> edit \<Rightarrow> range_walk \<Rightarrow> range_walk" where
  "range_step old_off new_off (Equal _ _) w =
     (let w = close_range old_off new_off w in w\<lparr>rw_oi := rw_oi w + 1, rw_ni := rw_ni w + 1\<rparr>)"
| "range_step old_off new_off (Delete_line _) w = (let w = open_range w in w\<lparr>rw_oi := rw_oi w + 1\<rparr>)"
| "range_step old_off new_off (Insert_line _) w = (let w = open_range w in w\<lparr>rw_ni := rw_ni w + 1\<rparr>)"

definition range_start :: range_walk where
  "range_start = \<lparr>rw_ranges = [], rw_open = None, rw_oi = 0, rw_ni = 0\<rparr>"

definition changed_ranges :: "bytes \<Rightarrow> bytes \<Rightarrow> (range \<times> range) list option" where
  "changed_ranges old new =
     (if \<not> (from_utf8 old \<and> from_utf8 new) then None else
      let old_lines = split_keep_lines old; new_lines = split_keep_lines new;
          old_off = offsets old_lines (length old); new_off = offsets new_lines (length new);
          w = fold (range_step old_off new_off) (lcs_edits old_lines new_lines) range_start
      in Some (rw_ranges (close_range old_off new_off w)))"

subsection \<open>Hunks\<close>

datatype hunk_edit = HEqual nat | HDelete nat | HInsert nat

record hunk =
  hk_old_start :: nat
  hk_old_len :: nat
  hk_new_start :: nat
  hk_new_len :: nat
  hk_edits :: "hunk_edit list"

text \<open>The windows of context around the changes, merged where they touch.\<close>

definition merge_range :: "nat \<Rightarrow> nat \<Rightarrow> nat \<Rightarrow> range list \<Rightarrow> range list" where
  "merge_range n context c rs =
     (let lo = c - context; hi = min (c + context) (n - 1) in
      if rs \<noteq> [] \<and> lo \<le> snd (last rs) + 1
      then butlast rs @ [(fst (last rs), max (snd (last rs)) hi)]
      else rs @ [(lo, hi)])"

definition changed_indices :: "edit list \<Rightarrow> nat list" where
  "changed_indices es = filter (\<lambda>i. \<not> is_equal (es ! i)) [0..<length es]"

definition hunk_ranges :: "edit list \<Rightarrow> nat \<Rightarrow> range list" where
  "hunk_ranges es context = fold (merge_range (length es) context) (changed_indices es) []"

definition get_or_insert :: "'a \<Rightarrow> 'a option \<Rightarrow> 'a option" where
  "get_or_insert x r = (case r of None \<Rightarrow> Some x | Some y \<Rightarrow> Some y)"

record building_hunk =
  bh_old_start :: "nat option"
  bh_new_start :: "nat option"
  bh_old_len :: nat
  bh_new_len :: nat
  bh_edits :: "hunk_edit list"

fun hunk_step :: "edit \<Rightarrow> building_hunk \<Rightarrow> building_hunk" where
  "hunk_step (Equal oi ni) h =
     \<lparr>bh_old_start = get_or_insert oi (bh_old_start h), bh_new_start = get_or_insert ni (bh_new_start h),
      bh_old_len = bh_old_len h + 1, bh_new_len = bh_new_len h + 1, bh_edits = bh_edits h @ [HEqual oi]\<rparr>"
| "hunk_step (Delete_line oi) h =
     h\<lparr>bh_old_start := get_or_insert oi (bh_old_start h), bh_old_len := bh_old_len h + 1,
       bh_edits := bh_edits h @ [HDelete oi]\<rparr>"
| "hunk_step (Insert_line ni) h =
     h\<lparr>bh_new_start := get_or_insert ni (bh_new_start h), bh_new_len := bh_new_len h + 1,
       bh_edits := bh_edits h @ [HInsert ni]\<rparr>"

definition hunk_of :: "edit list \<Rightarrow> range \<Rightarrow> hunk" where
  "hunk_of es r =
     (let h = fold hunk_step (slice (fst r) (snd r + 1) es)
        \<lparr>bh_old_start = None, bh_new_start = None, bh_old_len = 0, bh_new_len = 0, bh_edits = []\<rparr>
      in \<lparr>hk_old_start = (case bh_old_start h of None \<Rightarrow> 0 | Some s \<Rightarrow> s + 1), hk_old_len = bh_old_len h,
          hk_new_start = (case bh_new_start h of None \<Rightarrow> 0 | Some s \<Rightarrow> s + 1), hk_new_len = bh_new_len h,
          hk_edits = bh_edits h\<rparr>)"

definition group_hunks :: "edit list \<Rightarrow> nat \<Rightarrow> hunk list" where
  "group_hunks es context =
     (if changed_indices es = [] then [] else map (hunk_of es) (hunk_ranges es context))"

definition emit_line :: "char \<Rightarrow> string \<Rightarrow> string" where
  "emit_line sign l = (case strip_suffix [CHR 0x0A] l of
       Some stripped \<Rightarrow> sign # stripped @ [CHR 0x0A]
     | None \<Rightarrow> sign # l @ [CHR 0x0A] @ [CHR 0x5C] @ '' No newline at end of file'' @ [CHR 0x0A])"

definition render_hunk :: "hunk \<Rightarrow> string list \<Rightarrow> string list \<Rightarrow> string" where
  "render_hunk h old_lines new_lines =
     ''@@ -'' @ show_nat (hk_old_start h) @ '','' @ show_nat (hk_old_len h) @ '' +'' @
     show_nat (hk_new_start h) @ '','' @ show_nat (hk_new_len h) @ '' @@'' @ [CHR 0x0A] @
     concat (map (\<lambda>e. case e of
         HEqual oi \<Rightarrow> emit_line CHR '' '' (old_lines ! oi)
       | HDelete oi \<Rightarrow> emit_line CHR ''-'' (old_lines ! oi)
       | HInsert ni \<Rightarrow> emit_line CHR ''+'' (new_lines ! ni)) (hk_edits h))"

definition unified :: "bytes \<Rightarrow> bytes \<Rightarrow> string \<Rightarrow> string \<Rightarrow> nat \<Rightarrow> string" where
  "unified old new label_a label_b context =
     (let header = ''--- '' @ label_a @ [CHR 0x0A] @ ''+++ '' @ label_b @ [CHR 0x0A] in
      if \<not> (from_utf8 old \<and> from_utf8 new) then header @ ''Binary files differ'' @ [CHR 0x0A] else
      let old_lines = split_keep_lines old; new_lines = split_keep_lines new;
          hunks = group_hunks (lcs_edits old_lines new_lines) context
      in if hunks = [] then [] else header @ concat (map (\<lambda>h. render_hunk h old_lines new_lines) hunks))"

subsection \<open>Scripts, and shortest ones\<close>

text \<open>The scripts that take \<open>drop i a\<close> to \<open>drop j b\<close>.\<close>

inductive script :: "'a list \<Rightarrow> 'a list \<Rightarrow> nat \<Rightarrow> nat \<Rightarrow> edit list \<Rightarrow> bool" for a b where
  finished: "script a b (length a) (length b) []"
| same: "i < length a \<Longrightarrow> j < length b \<Longrightarrow> a ! i = b ! j \<Longrightarrow> script a b (i + 1) (j + 1) es \<Longrightarrow>
    script a b i j (Equal i j # es)"
| drops: "i < length a \<Longrightarrow> script a b (i + 1) j es \<Longrightarrow> script a b i j (Delete_line i # es)"
| adds: "j < length b \<Longrightarrow> script a b i (j + 1) es \<Longrightarrow> script a b i j (Insert_line j # es)"

inductive_simps script_simps [simp]:
  "script a b i j []" "script a b i j (Equal i' j' # es)" "script a b i j (Delete_line i' # es)"
  "script a b i j (Insert_line j' # es)"

definition equals :: "edit list \<Rightarrow> nat" where "equals es = length (filter is_equal es)"
definition changes :: "edit list \<Rightarrow> nat" where "changes es = length (filter (\<lambda>e. \<not> is_equal e) es)"

lemma equals_simps [simp]:
  "equals [] = 0" "equals (e # es) = (if is_equal e then 1 else 0) + equals es"
  "changes [] = 0" "changes (e # es) = (if is_equal e then 0 else 1) + changes es"
  by (simp_all add: equals_def changes_def)

lemma script_bounds: "script a b i j es \<Longrightarrow> i \<le> length a \<and> j \<le> length b"
  by (induction rule: script.induct) auto

lemma script_count:
  "script a b i j es \<Longrightarrow> changes es + 2 * equals es = (length a - i) + (length b - j)"
  by (induction rule: script.induct) auto

text \<open>The length of a longest common subsequence, as a recurrence.\<close>

fun lcs_len :: "'a list \<Rightarrow> 'a list \<Rightarrow> nat" where
  "lcs_len [] b = 0"
| "lcs_len a [] = 0"
| "lcs_len (x # a) (y # b) =
     (if x = y then lcs_len a b + 1 else max (lcs_len a (y # b)) (lcs_len (x # a) b))"

lemma lcs_len_Nil [simp]: "lcs_len a [] = 0"
  by (cases a) auto

lemma lcs_len_steps:
  "lcs_len a b \<le> lcs_len (x # a) b \<and> lcs_len (x # a) b \<le> lcs_len a b + 1 \<and>
   lcs_len a b \<le> lcs_len a (y # b) \<and> lcs_len a (y # b) \<le> lcs_len a b + 1"
proof (induction "length a + length b" arbitrary: a b x y rule: less_induct)
  case less
  have ih: "\<And>(a' :: 'a list) b' x' y'. length a' + length b' < length a + length b \<Longrightarrow>
    lcs_len a' b' \<le> lcs_len (x' # a') b' \<and> lcs_len (x' # a') b' \<le> lcs_len a' b' + 1 \<and>
    lcs_len a' b' \<le> lcs_len a' (y' # b') \<and> lcs_len a' (y' # b') \<le> lcs_len a' b' + 1"
    by (rule less)
  have l: "lcs_len a b \<le> lcs_len (x # a) b \<and> lcs_len (x # a) b \<le> lcs_len a b + 1"
  proof (cases b)
    case (Cons z b')
    with ih [of a b' x z] show ?thesis by (cases "x = z") auto
  qed simp
  have r: "lcs_len a b \<le> lcs_len a (y # b) \<and> lcs_len a (y # b) \<le> lcs_len a b + 1"
  proof (cases a)
    case (Cons z a')
    with ih [of a' b z y] show ?thesis by (cases "z = y") auto
  qed simp
  from l r show ?case by blast
qed

lemma script_equals_le: "script a b i j es \<Longrightarrow> equals es \<le> lcs_len (drop i a) (drop j b)"
proof (induction rule: script.induct)
  case (same i j es)
  then show ?case by (simp add: Cons_nth_drop_Suc [symmetric])
next
  case (drops i j es)
  then show ?case
    using lcs_len_steps [of "drop (i + 1) a" "drop j b" "a ! i"]
    by (simp add: Cons_nth_drop_Suc [symmetric] le_trans)
next
  case (adds j i es)
  then show ?case
    using lcs_len_steps [of "drop i a" "drop (j + 1) b" _ "b ! j"]
    by (simp add: Cons_nth_drop_Suc [symmetric] le_trans)
qed simp

text \<open>The table holds these lengths.\<close>

lemma lcs_row_lcs:
  "length ds = length b + 1 \<Longrightarrow> (\<forall>j \<le> length b. ds ! j = lcs_len a (drop j b)) \<Longrightarrow>
   length (lcs_row x b ds) = length b + 1 \<and>
   (\<forall>j \<le> length b. lcs_row x b ds ! j = lcs_len (x # a) (drop j b))"
proof (induction x b ds rule: lcs_row.induct)
  case (1 x y ys d ds)
  have ds: "ds \<noteq> []" "length ds = length ys + 1" using 1(2) by auto
  have tl: "\<forall>j \<le> length ys. ds ! j = lcs_len a (drop j ys)"
  proof (intro allI impI)
    fix j assume "j \<le> length ys"
    with 1(3) [rule_format, of "Suc j"] show "ds ! j = lcs_len a (drop j ys)" by simp
  qed
  note r = 1(1) [OF ds(2) tl]
  then have nn: "lcs_row x ys ds \<noteq> []" by auto
  have "d = lcs_len a (y # ys)" using 1(3) [rule_format, of 0] by simp
  moreover have "hd (lcs_row x ys ds) = lcs_len (x # a) ys"
    using r nn by (simp add: hd_conv_nth)
  moreover have "hd ds = lcs_len a ys" using tl ds(1) by (simp add: hd_conv_nth)
  ultimately show ?case
    using r by (auto simp: Let_def less_Suc_eq_0_disj nth_Cons split: nat.splits)
qed auto

lemma lcs_table_shape: "length (lcs_table a b) = length a + 1"
  by (induction a) (simp_all add: Let_def)

lemma lcs_table_lcs:
  "i \<le> length a \<Longrightarrow> length (lcs_table a b ! i) = length b + 1 \<and>
   (\<forall>j \<le> length b. lcs_table a b ! i ! j = lcs_len (drop i a) (drop j b))"
proof (induction a arbitrary: i)
  case (Cons x a)
  have "lcs_table a b \<noteq> []" using lcs_table_shape [of a b] by auto
  then have "hd (lcs_table a b) = lcs_table a b ! 0" by (rule hd_conv_nth)
  with Cons.IH [of 0] lcs_row_lcs [of "hd (lcs_table a b)" b a x] Cons.IH Cons.prems show ?case
    by (cases i) (simp_all add: Let_def)
qed (simp add: nth_append less_Suc_eq_le del: replicate.simps)

lemma script_tails:
  "i \<le> length a \<Longrightarrow> j \<le> length b \<Longrightarrow> \<not> (i < length a \<and> j < length b) \<Longrightarrow>
   script a b i j (map Delete_line [i..<length a] @ map Insert_line [j..<length b])"
proof (induction "(length a - i) + (length b - j)" arbitrary: i j)
  case 0
  then show ?case by simp
next
  case (Suc n)
  show ?case
  proof (cases "i < length a")
    case True
    with Suc.prems Suc.hyps(1) [of "i + 1" j] Suc.hyps(2) show ?thesis
      by (simp add: upt_conv_Cons)
  next
    case False
    with Suc.prems Suc.hyps(1) [of i "j + 1"] Suc.hyps(2) show ?thesis
      by (simp add: upt_conv_Cons)
  qed
qed

lemma lcs_walk_script:
  assumes "i \<le> length a" "j \<le> length b" "t = lcs_table a b"
  shows "script a b i j (lcs_walk t a b i j) \<and>
    equals (lcs_walk t a b i j) = lcs_len (drop i a) (drop j b)"
  using assms
proof (induction t a b i j rule: lcs_walk.induct)
  case (1 t a b i j)
  show ?case
  proof (cases "i < length a \<and> j < length b")
    case True
    then have d: "drop i a = a ! i # drop (i + 1) a" "drop j b = b ! j # drop (j + 1) b"
      by (simp_all add: Cons_nth_drop_Suc)
    have t: "t ! (i + 1) ! j = lcs_len (drop (i + 1) a) (drop j b)"
      "t ! i ! (j + 1) = lcs_len (drop i a) (drop (j + 1) b)"
      using lcs_table_lcs [of "i + 1" a b] lcs_table_lcs [of i a b] True 1(6) by simp_all
    show ?thesis
    proof (cases "a ! i = b ! j")
      case eq: True
      with 1(1) True 1(6) d show ?thesis
        by (simp add: lcs_walk.simps [of "lcs_table a b" a b i j])
    next
      case ne: False
      with 1(2,3) True 1(6) d t show ?thesis
        by (auto simp: lcs_walk.simps [of "lcs_table a b" a b i j] max_def)
    qed
  next
    case False
    with 1(4,5,6) script_tails [of i a j b] show ?thesis
      by (auto simp: lcs_walk.simps [of "lcs_table a b" a b i j] equals_def filter_empty_conv comp_def)
  qed
qed

lemma lcs_edits_script: "script a b 0 0 (lcs_edits a b)"
  using lcs_walk_script [of 0 a 0 b] by (simp add: lcs_edits_def)

lemma lcs_edits_shortest:
  assumes "script a b 0 0 es" shows "changes (lcs_edits a b) \<le> changes es"
proof -
  have "equals es \<le> equals (lcs_edits a b)"
    using script_equals_le [OF assms] lcs_walk_script [of 0 a 0 b] by (simp add: lcs_edits_def)
  with script_count [OF assms] script_count [OF lcs_edits_script, of a b] show ?thesis by simp
qed

end
