(* ===== verification/Union.thy ===== *)
theory Union
  imports Ops LineDiff
begin

text \<open>
  \<open>src/src/union.rs\<close>: bringing a fork's log into another.  Each line of the source lands
  by replaying its realized delta or, failing that, its intent; one dead precondition
  or one read made stale by the other side stops the whole union.  Main results: a
  union that does not land changes no fork; one that lands appends exactly its lines,
  and then the target carries every line of the source, so that a second union lands
  nothing and the source may be removed; and a line without an intent lands as an
  empty change when its delta does not apply.
\<close>

subsection \<open>Outcomes\<close>

datatype stratum = RealizedReplay | IntentReplay

record landed =
  ld_line :: log_line
  ld_origin_id :: string
  ld_stratum :: stratum

datatype conflict_direction = IncomingReadStale | IncomingWriteHitsTargetRead

record semantic_conflict =
  sc_source_id :: string
  sc_target_id :: string
  sc_paths :: "string bset"
  sc_direction :: conflict_direction

text \<open>The evidence of a dead precondition is a message; the line's id is kept.\<close>

record union_outcome =
  uo_already_identical :: bool
  uo_landed :: "landed list"
  uo_needs_reenactment :: "string option"
  uo_semantic_conflicts :: "semantic_conflict list"

definition outcome_complete :: "union_outcome \<Rightarrow> bool" where
  "outcome_complete o1 \<longleftrightarrow> uo_needs_reenactment o1 = None \<and> uo_semantic_conflicts o1 = []"

subsection \<open>What a line writes and reads\<close>

definition path_of_side :: "element_record option \<Rightarrow> string bset \<Rightarrow> string bset" where
  "path_of_side x paths = (case x of None \<Rightarrow> paths | Some r \<Rightarrow> bs_insert (er_path r) paths)"

definition write_paths :: "log_line \<Rightarrow> string bset result" where
  "write_paths l = rfold (\<lambda>e paths.
     rbind (removed e) (\<lambda>x. rbind (added e) (\<lambda>a. Ok (path_of_side a (path_of_side x paths)))))
     (ll_realized l) []"

definition as_array :: "json \<Rightarrow> json list option" where
  "as_array v = (case v of JArr xs \<Rightarrow> Some xs | _ \<Rightarrow> None)"

definition read_path :: "json \<Rightarrow> string option" where
  "read_path v = Option.bind (json_get v ''path'') as_str"

fun paths_read :: "json list \<Rightarrow> string bset \<Rightarrow> string bset option" where
  "paths_read [] paths = Some paths"
| "paths_read (v # vs) paths = Option.bind (read_path v) (\<lambda>p. paths_read vs (bs_insert p paths))"

definition read_paths :: "log_line \<Rightarrow> string bset option" where
  "read_paths l = Option.bind (an_reads (ll_annotation l)) (\<lambda>reads.
     Option.bind (as_array reads) (\<lambda>vs. paths_read vs []))"

definition disjoint_paths :: "string bset \<Rightarrow> string bset \<Rightarrow> bool" where
  "disjoint_paths ps qs \<longleftrightarrow> filter (\<lambda>p. p \<in> set qs) ps = []"

definition lines_commute :: "log_line \<Rightarrow> log_line \<Rightarrow> bool result" where
  "lines_commute a b =
     rbind (write_paths a) (\<lambda>wa.
     rbind (write_paths b) (\<lambda>wb.
     if \<not> disjoint_paths wa wb then Ok False else
     (case (read_paths a, read_paths b) of
        (Some ra, Some rb) \<Rightarrow> Ok (disjoint_paths wa rb \<and> disjoint_paths wb ra)
      | _ \<Rightarrow> Ok False)))"

subsection \<open>Stale reads\<close>

definition split_once :: "char \<Rightarrow> string \<Rightarrow> (string \<times> string) option" where
  "split_once c s = map_option (\<lambda>i. (take i s, drop (i + 1) s)) (position (\<lambda>x. x = c) s)"

definition parse_line_span :: "bytes \<Rightarrow> (nat \<times> nat) option" where
  "parse_line_span needle =
     (if \<not> from_utf8 needle then None else
      Option.bind (strip_prefix ''L'' needle) (\<lambda>t.
      Option.bind (split_once (CHR ''-'') t) (\<lambda>(a, b).
      Option.bind (parse_u64 a) (\<lambda>start.
      Option.bind (parse_u64 b) (\<lambda>stop.
      if start \<ge> 1 \<and> stop \<ge> 1 then Some (start, stop) else None)))))"

definition line_of :: "bytes \<Rightarrow> nat \<Rightarrow> nat" where
  "line_of blob offset = length (filter is_LF (take offset blob))"

definition span_line_range :: "bytes \<Rightarrow> bytes \<Rightarrow> (nat \<times> nat) option" where
  "span_line_range blob needle = (case parse_line_span needle of
       Some (start, stop) \<Rightarrow>
         let nlines = length (filter is_LF blob) + (if blob \<noteq> [] \<and> \<not> is_LF (last blob) then 1 else 0) in
         if nlines = 0 \<or> start > nlines \<or> start > stop then None
         else Some (start - 1, min stop nlines - 1)
     | None \<Rightarrow>
         if needle = [] \<or> count_occurrences blob needle \<noteq> 1 then None else
         map_option (\<lambda>start. (line_of blob start, line_of blob (start + length needle - 1)))
           (position (occurs_at blob needle) [0..<Suc (length blob - length needle)]))"

text \<open>One span of a read: stale when it covers a changed line or cannot be located.\<close>

definition span_is_stale :: "bytes \<Rightarrow> nat set \<Rightarrow> json \<Rightarrow> bool" where
  "span_is_stale blob touched span = (case as_str span of
       None \<Rightarrow> True
     | Some t \<Rightarrow> (case span_line_range blob t of
           None \<Rightarrow> True
         | Some (lo, hi) \<Rightarrow> list_ex (\<lambda>l. l \<in> touched) [lo..<Suc hi]))"

text \<open>The lines the reader's own side changed.\<close>

definition own_changes :: "pool \<Rightarrow> string \<Rightarrow> bytes \<Rightarrow> element_record option \<Rightarrow> nat set" where
  "own_changes pool read_hash read_bytes own = (case own of
       None \<Rightarrow> {}
     | Some rec \<Rightarrow>
         if er_blob rec = read_hash then {} else
         (case blob_get pool (er_blob rec) of
            Err _ \<Rightarrow> {}
          | Ok own_bytes \<Rightarrow> (case changed_old_lines read_bytes own_bytes of None \<Rightarrow> {} | Some c \<Rightarrow> c)))"

definition read_is_stale :: "json \<Rightarrow> string \<Rightarrow> manifest option \<Rightarrow> manifest \<Rightarrow> pool \<Rightarrow> bool" where
  "read_is_stale rd path own target pool =
     (case Option.bind (json_get rd ''blob'') as_str of
        None \<Rightarrow> True
      | Some read_hash \<Rightarrow>
     (case m_get target path of
        None \<Rightarrow> True
      | Some rec \<Rightarrow>
          if er_blob rec = read_hash then False else
     (case (blob_get pool read_hash, blob_get pool (er_blob rec)) of
        (Ok read_bytes, Ok now_bytes) \<Rightarrow>
     (case changed_old_lines read_bytes now_bytes of
        None \<Rightarrow> True
      | Some touched \<Rightarrow>
          let touched = touched - own_changes pool read_hash read_bytes
                (Option.bind own (\<lambda>m. m_get m path)) in
     (case Option.bind (json_get rd ''spans'') as_array of
        None \<Rightarrow> True
      | Some [] \<Rightarrow> True
      | Some spans \<Rightarrow> list_ex (span_is_stale read_bytes touched) spans))
      | _ \<Rightarrow> True)))"

fun stale_scan :: "string bset \<Rightarrow> manifest \<Rightarrow> pool \<Rightarrow> json list \<Rightarrow> string bset \<Rightarrow> string bset" where
  "stale_scan writes target pool [] stale = stale"
| "stale_scan writes target pool (rd # rds) stale = (case read_path rd of
       None \<Rightarrow> writes
     | Some path \<Rightarrow> stale_scan writes target pool rds
         (if path \<in> set writes \<and> read_is_stale rd path None target pool then bs_insert path stale else stale))"

definition stale_reads :: "log_line \<Rightarrow> string bset \<Rightarrow> manifest \<Rightarrow> pool \<Rightarrow> string bset" where
  "stale_reads l writes target pool =
     (if writes = [] then [] else
      case an_reads (ll_annotation l) of
        None \<Rightarrow> []
      | Some reads \<Rightarrow> (case as_array reads of
            None \<Rightarrow> writes
          | Some rds \<Rightarrow> stale_scan writes target pool rds []))"

definition note_stale_reads ::
  "log_line \<Rightarrow> (string \<times> string bset) list \<Rightarrow> manifest \<Rightarrow> pool \<Rightarrow> semantic_conflict list" where
  "note_stale_reads source concurrent target pool =
     concat (map (\<lambda>(target_id, writes).
       let paths = stale_reads source writes target pool in
       if paths = [] then [] else
       [\<lparr>sc_source_id = ll_id source, sc_target_id = target_id, sc_paths = paths,
         sc_direction = IncomingReadStale\<rparr>]) concurrent)"

text \<open>The other direction: reads of a target line the union's writes strand, by source line.\<close>

definition strand :: "string \<Rightarrow> string \<Rightarrow> (string, string bset) btree \<Rightarrow> (string, string bset) btree" where
  "strand path source_id by_source = bt_insert source_id
     (bs_insert path (case bt_get by_source source_id of None \<Rightarrow> [] | Some ps \<Rightarrow> ps)) by_source"

definition strand_all :: "(string, string) btree \<Rightarrow> (string, string bset) btree \<Rightarrow> (string, string bset) btree" where
  "strand_all writers by_source = fold (\<lambda>(path, source_id). strand path source_id) writers by_source"

definition strand_read ::
  "(string, string) btree \<Rightarrow> manifest \<Rightarrow> manifest \<Rightarrow> pool \<Rightarrow> json \<Rightarrow> (string, string bset) btree \<Rightarrow> (string, string bset) btree" where
  "strand_read writers target_before after pool rd by_source = (case read_path rd of
       None \<Rightarrow> strand_all writers by_source
     | Some path \<Rightarrow> (case bt_get writers path of
           None \<Rightarrow> by_source
         | Some source_id \<Rightarrow>
             if read_is_stale rd path (Some target_before) after pool then strand path source_id by_source
             else by_source))"

definition note_stranded_reads ::
  "log_line \<Rightarrow> (string, string) btree \<Rightarrow> manifest \<Rightarrow> manifest \<Rightarrow> pool \<Rightarrow> semantic_conflict list" where
  "note_stranded_reads target_line writers target_before after pool =
     (case an_reads (ll_annotation target_line) of
        None \<Rightarrow> []
      | Some reads \<Rightarrow>
          map (\<lambda>(source_id, paths). \<lparr>sc_source_id = source_id, sc_target_id = ll_id target_line,
              sc_paths = paths, sc_direction = IncomingWriteHitsTargetRead\<rparr>)
            (case as_array reads of
               None \<Rightarrow> strand_all writers []
             | Some rds \<Rightarrow> fold (strand_read writers target_before after pool) rds []))"

subsection \<open>The union\<close>

text \<open>The lines sealed so far, as in a batch, and what else the replay keeps.\<close>

record 's union_run =
  ur_batch :: "'s batch_run"
  ur_staged :: "landed list"
  ur_writers :: "(string, string) btree"
  ur_rekey :: "(string, string) btree"
  ur_conflicts :: "semantic_conflict list"

text \<open>Strata 2 and 3; \<open>None\<close> is the gate of stratum 4.\<close>

definition replay_line ::
  "'s env \<Rightarrow> log_line \<Rightarrow> manifest \<Rightarrow> pool \<Rightarrow> (realized_entry list \<times> stratum \<times> manifest \<times> pool) option result" where
  "replay_line E l scratch pool = (case apply_realized_to_manifest scratch (ll_realized l) of
       Ok trial \<Rightarrow> Ok (Some (ll_realized l, RealizedReplay, trial, pool))
     | Err _ \<Rightarrow> (case apply_intent E (ll_intent l) scratch pool of
           Ok (trial, rz) \<Rightarrow> rmap (\<lambda>pool. Some (realized rz, IntentReplay, trial, pool)) (pool_blobs E (new_blobs rz) pool)
         | Err Precondition \<Rightarrow> Ok None
         | Err e \<Rightarrow> Err e))"

definition rekeyed :: "(string, string) btree \<Rightarrow> string \<Rightarrow> string" where
  "rekeyed rekey i = (case bt_get rekey i of None \<Rightarrow> i | Some j \<Rightarrow> j)"

definition union_annotation :: "string \<Rightarrow> string \<Rightarrow> (string, string) btree \<Rightarrow> log_line \<Rightarrow> annotation" where
  "union_annotation author source rekey l = (let a = ll_annotation l in
     \<lparr>an_author = author, an_provenance = PUnion, an_reason = None, an_sig = None, an_session = an_session a,
      an_prose = an_prose a, an_reads = an_reads a,
      an_origin = Some \<lparr>origin_fork = source, origin_id = ll_id l\<rparr>, an_import = an_import a,
      an_harness = an_harness a,
      an_fuse = map_option (\<lambda>f. \<lparr>fuse_name = fuse_name f, fuse_from = rekeyed rekey (fuse_from f),
        fuse_to = rekeyed rekey (fuse_to f)\<rparr>) (an_fuse a)\<rparr>)"

definition union_step ::
  "'s env \<Rightarrow> nat \<Rightarrow> string \<Rightarrow> string \<Rightarrow> (string \<times> string bset) list \<Rightarrow> log_line \<Rightarrow> 's union_run \<Rightarrow>
   's union_run option result" where
  "union_step E now author source concurrent l u =
     (let b = ur_batch u; ann = union_annotation author source (ur_rekey u) l in
      rbind (replay_line E l (br_manifest b) (br_pool b)) (\<lambda>x. case x of
         None \<Rightarrow> Ok None
       | Some (es, stratum, trial, pool) \<Rightarrow>
           let conflicts = note_stale_reads l concurrent (br_manifest b) pool in
           rbind (apply_realized_to_sum E (br_sum b) es) (\<lambda>s.
           rbind (seal E now (new_line (br_prev b) (ll_intent l) es (ss_hexdigest E s) 0 ann) pool) (\<lambda>(bs, k, pool).
           rbind (write_paths k) (\<lambda>paths.
           Ok (Some \<lparr>ur_batch = \<lparr>br_manifest = trial, br_sum = s, br_prev = ll_id k, br_bytes = br_bytes b @ bs,
                 br_lines = br_lines b @ [k], br_pool = pool\<rparr>,
               ur_staged = ur_staged u @ [\<lparr>ld_line = k, ld_origin_id = ll_id l, ld_stratum = stratum\<rparr>],
               ur_writers = fold (\<lambda>p. bt_insert p (ll_id l)) paths (ur_writers u),
               ur_rekey = bt_insert (ll_id l) (ll_id k) (ur_rekey u),
               ur_conflicts = ur_conflicts u @ conflicts\<rparr>))))))"

text \<open>The lines that travel.\<close>

definition travels :: "string list \<Rightarrow> bool \<Rightarrow> log_line \<Rightarrow> bool" where
  "travels carried identical l \<longleftrightarrow> ll_id l \<notin> set carried \<and>
     \<not> (identical \<and> an_fuse (ll_annotation l) = None)"

fun union_loop ::
  "'s env \<Rightarrow> nat \<Rightarrow> string \<Rightarrow> string \<Rightarrow> (string \<times> string bset) list \<Rightarrow> string list \<Rightarrow> bool \<Rightarrow>
   log_line list \<Rightarrow> 's union_run \<Rightarrow> (string option \<times> 's union_run) result" where
  "union_loop E now author source concurrent carried identical [] u = Ok (None, u)"
| "union_loop E now author source concurrent carried identical (l # ls) u =
     (if \<not> travels carried identical l then union_loop E now author source concurrent carried identical ls u
      else rbind (union_step E now author source concurrent l u) (\<lambda>x. case x of
          None \<Rightarrow> Ok (Some (ll_id l), u)
        | Some u \<Rightarrow> union_loop E now author source concurrent carried identical ls u))"

definition concurrent_writes :: "log_line list \<Rightarrow> (string \<times> string bset) list result" where
  "concurrent_writes ls = rmap (filter (\<lambda>(_, writes). writes \<noteq> []))
     (rmapM (\<lambda>l. rmap (Pair (ll_id l)) (write_paths l)) ls)"

definition carried_start :: "string \<Rightarrow> log_line list \<Rightarrow> string list \<times> (string, string) btree" where
  "carried_start source ls = fold (\<lambda>l (carried, rekey). case an_origin (ll_annotation l) of
       Some orig \<Rightarrow> if origin_fork orig = source
         then (origin_id orig # ll_id l # carried, bt_insert (origin_id orig) (ll_id l) rekey)
         else (ll_id l # carried, rekey)
     | None \<Rightarrow> (ll_id l # carried, rekey)) ls ([], [])"

definition union ::
  "'s env \<Rightarrow> nat \<Rightarrow> string \<Rightarrow> string \<Rightarrow> string \<Rightarrow> repo \<Rightarrow> (union_outcome \<times> repo) result" where
  "union E now source target author r =
     rbind (ok_or Io (bt_get (rp_forks r) target)) (\<lambda>_.
     rbind (current_state E r source) (\<lambda>ss.
     let r = recover E source r in
     rbind (current_state E r target) (\<lambda>ts.
     let r = recover E target r; identical = m_sum E (fs_manifest ss) = m_sum E (fs_manifest ts) in
     rbind (read_fork r source) (\<lambda>ff.
     let start = (case last_state_position (fs_lines ts) (ff_anchor ff) of None \<Rightarrow> 0 | Some i \<Rightarrow> i + 1);
         (carried, rekey) = carried_start source (fs_lines ts) in
     rbind (concurrent_writes (drop start (fs_lines ts))) (\<lambda>concurrent.
     rbind (union_loop E now author source concurrent carried identical (fs_lines ss)
        \<lparr>ur_batch = batch_start E ts (rp_pool r), ur_staged = [], ur_writers = [], ur_rekey = rekey,
         ur_conflicts = []\<rparr>) (\<lambda>(gate, u).
     let b = ur_batch u; r = with_pool (br_pool b) r;
         stranded = concat (map (\<lambda>t. note_stranded_reads t (ur_writers u) (fs_manifest ts) (br_manifest b) (br_pool b))
           (drop start (fs_lines ts)));
         out = \<lparr>uo_already_identical = identical, uo_landed = [], uo_needs_reenactment = gate,
           uo_semantic_conflicts = ur_conflicts u\<rparr> in
     if gate \<noteq> None then Ok (out, r) else
     let out = out\<lparr>uo_semantic_conflicts := ur_conflicts u @ stranded\<rparr> in
     if uo_semantic_conflicts out \<noteq> [] then Ok (out, r) else
     rmap (Pair (out\<lparr>uo_landed := ur_staged u\<rparr>))
       (append_sealed_locked target (map ld_line (ur_staged u)) (br_bytes b) r)))))))"

subsection \<open>Lines that were read are valid\<close>

definition line_ok :: "log_line \<Rightarrow> bool" where
  "line_ok l \<longleftrightarrow> an_valid (ll_annotation l) \<and> validate l = Ok ()"

lemma opt_not_null: "opt f k Ok = Ok x \<Longrightarrow> x \<noteq> Some JNull"
  by (auto simp: opt_def split: option.splits json.splits)

lemma annotation_of_value_valid: "annotation_of_value v = Ok a \<Longrightarrow> an_valid a"
  by (auto simp: annotation_of_value_def an_valid_def dest: opt_not_null)

lemma line_of_record_ok: "line_of_record E v = Ok l \<Longrightarrow> line_ok l"
  by (auto simp: line_of_record_def line_of_value_def line_ok_def req_def dest: annotation_of_value_valid)

lemma stored_parse_ok: "stored_parse E t = Ok (Line l) \<Longrightarrow> line_ok l"
  by (auto simp: stored_parse_def split: option.splits dest: line_of_record_ok)

lemma stored_resolve_ok: "stored_resolve E f x = Ok l \<Longrightarrow> (\<And>k. x = Line k \<Longrightarrow> line_ok k) \<Longrightarrow> line_ok l"
  by (cases x) (auto split: sum.splits if_splits option.splits dest: line_of_record_ok)

lemma resolved_lines_ok:
  "rmapM (stored_resolve E f) xs = Ok ls \<Longrightarrow> (\<And>k. Line k \<in> set xs \<Longrightarrow> line_ok k) \<Longrightarrow> \<forall>l \<in> set ls. line_ok l"
proof (induction xs arbitrary: ls)
  case (Cons x xs)
  then show ?case using stored_resolve_ok [of E f x] by (auto)
qed simp

lemma state_lines_ok:
  assumes "current_state E r fork = Ok st" shows "\<forall>l \<in> set (fs_lines st). line_ok l"
proof -
  from assms obtain ff m0 p where "read_fork r fork = Ok ff" "read_log E r fork = Ok p"
    "state_of_lines E (ff_anchor ff) m0 (pl_lines p) = Ok st"
    unfolding current_state_iff by blast
  then have "fs_lines st = pl_lines p" "\<exists>f bs. parse_log_lenient E f bs = Ok p"
    by (auto simp: state_of_lines_def read_log_def Let_def split: if_splits)
  then obtain f bs where p: "fs_lines st = pl_lines p" "parse_log_lenient E f bs = Ok p" by blast
  from lenient_Ok [OF p(2)] obtain ts xs where xs: "stored_texts E ts xs"
    "rmapM (stored_resolve E f) xs = Ok (pl_lines p)" by blast
  have "line_ok k" if "Line k \<in> set xs" for k
  proof -
    from that obtain i where i: "i < length xs" "xs ! i = Line k" by (auto simp: in_set_conv_nth)
    with xs(1) have "stored_parse E (ts ! i) = Ok (Line k)"
      by (auto simp: stored_texts_def list_all2_conv_all_nth)
    then show ?thesis by (rule stored_parse_ok)
  qed
  with resolved_lines_ok [OF xs(2)] p(1) show ?thesis by simp
qed

lemma seal_annotation:
  assumes "seal E now l pool = Ok (bs, l', pool')"
  shows "an_origin (ll_annotation l') = an_origin (ll_annotation l)"
proof -
  have sp: "an_origin (ll_annotation k') = an_origin (ll_annotation k)"
    if "spill_reads_if_needed E k p = Ok (k', p')" for k k' p p'
    using that by (auto simp: spill_reads_if_needed_def split: if_splits option.splits json.splits)
  from assms obtain l1 p1 i where
    "spill_reads_if_needed E (if ll_committed_ms l = 0 then l\<lparr>ll_committed_ms := now mod 2 ^ 64\<rparr> else l) pool = Ok (l1, p1)"
    "l' = l1\<lparr>ll_id := i\<rparr>" by (auto simp: seal_def Let_def)
  with sp [of "if ll_committed_ms l = 0 then l\<lparr>ll_committed_ms := now mod 2 ^ 64\<rparr> else l"] show ?thesis
    by (auto split: if_splits)
qed

subsection \<open>What the replay keeps\<close>

definition union_inv :: "'s env \<Rightarrow> fork_state \<Rightarrow> pool \<Rightarrow> string \<Rightarrow> 's union_run \<Rightarrow> bool" where
  "union_inv E st p0 source u \<longleftrightarrow> batch_inv E st p0 (ur_batch u) \<and> pool_le p0 (br_pool (ur_batch u)) \<and>
     map ld_line (ur_staged u) = br_lines (ur_batch u) \<and>
     (\<forall>d \<in> set (ur_staged u). an_origin (ll_annotation (ld_line d)) =
        Some \<lparr>origin_fork = source, origin_id = ld_origin_id d\<rparr>)"

lemma replay_line_Ok:
  assumes "replay_line E l m pool = Ok (Some (es, s, m', pool'))" "m_ok m" "pool_ok E pool"
  shows "apply_realized_to_manifest m es = Ok m' \<and> pool_ok E pool' \<and> pool_le pool pool' \<and> pool_kept pool pool'"
proof (cases "apply_realized_to_manifest m (ll_realized l)")
  case (Inl e)
  with assms(1) obtain rz where a: "apply_intent E (ll_intent l) m pool = Ok (m', rz)"
    and p: "pool_blobs E (new_blobs rz) pool = Ok pool'" "es = realized rz"
    by (auto simp: replay_line_def rmap_def split: sum.splits error.splits)
  from apply_intent_realizes [OF assms(2) a] pool_blobs_Ok [OF p(1) assms(3)] p(2) show ?thesis by simp
qed (use assms in \<open>auto simp: replay_line_def\<close>)

lemma union_stepE:
  assumes "union_step E now author source concurrent l u = Ok (Some u')"
  obtains es s trial p x bs k pool where
    "replay_line E l (br_manifest (ur_batch u)) (br_pool (ur_batch u)) = Ok (Some (es, s, trial, p))"
    "apply_realized_to_sum E (br_sum (ur_batch u)) es = Ok x"
    "seal E now (new_line (br_prev (ur_batch u)) (ll_intent l) es (ss_hexdigest E x) 0
       (union_annotation author source (ur_rekey u) l)) p = Ok (bs, k, pool)"
    "ur_batch u' = \<lparr>br_manifest = trial, br_sum = x, br_prev = ll_id k, br_bytes = br_bytes (ur_batch u) @ bs,
       br_lines = br_lines (ur_batch u) @ [k], br_pool = pool\<rparr>"
    "ur_staged u' = ur_staged u @ [\<lparr>ld_line = k, ld_origin_id = ll_id l, ld_stratum = s\<rparr>]"
  using assms by (auto simp: union_step_def Let_def split: option.splits)

text \<open>The loop, one travelling line at a time.\<close>

lemma union_loop_Cons:
  assumes "union_loop E now author source concurrent carried identical (l # ls) u = Ok (gate, u')"
  shows "(\<not> travels carried identical l \<and>
      union_loop E now author source concurrent carried identical ls u = Ok (gate, u')) \<or>
    (travels carried identical l \<and> union_step E now author source concurrent l u = Ok None \<and>
      gate = Some (ll_id l) \<and> u' = u) \<or>
    (\<exists>v. travels carried identical l \<and> union_step E now author source concurrent l u = Ok (Some v) \<and>
      union_loop E now author source concurrent carried identical ls v = Ok (gate, u'))"
  using assms by (auto split: if_splits option.splits)

lemma union_step_staged:
  assumes "union_step E now author source concurrent l u = Ok (Some v)"
  shows "\<exists>d. ur_staged v = ur_staged u @ [d] \<and> ld_origin_id d = ll_id l"
  by (rule union_stepE [OF assms]) simp

lemma union_loop_staged:
  "union_loop E now author source concurrent carried identical ls u = Ok (gate, u') \<Longrightarrow>
   \<exists>ds. ur_staged u' = ur_staged u @ ds \<and>
     (gate = None \<longrightarrow> map ld_origin_id ds = map ll_id (filter (travels carried identical) ls))"
proof (induction ls arbitrary: u)
  case (Cons l ls)
  from union_loop_Cons [OF Cons.prems] show ?case
  proof (elim disjE exE conjE)
    fix v assume t: "travels carried identical l" and v: "union_step E now author source concurrent l u = Ok (Some v)"
      "union_loop E now author source concurrent carried identical ls v = Ok (gate, u')"
    from union_step_staged [OF v(1)] obtain d where "ur_staged v = ur_staged u @ [d]" "ld_origin_id d = ll_id l" by blast
    with Cons.IH [OF v(2)] t show ?thesis by auto
  qed (use Cons.IH in auto)
qed simp

context setsum
begin

lemma union_step_inv:
  assumes i: "union_inv E st p0 source u" and s: "union_step E now author source concurrent l u = Ok (Some u')"
    and l: "line_ok l" and rd: "\<forall>d \<in> set (ur_staged u'). readable E (ld_line d)"
  shows "union_inv E st p0 source u'"
proof -
  let ?b = "ur_batch u"
  from s obtain es st' trial p x bs k pool where
    r: "replay_line E l (br_manifest ?b) (br_pool ?b) = Ok (Some (es, st', trial, p))"
    and x: "apply_realized_to_sum E (br_sum ?b) es = Ok x"
    and sl: "seal E now (new_line (br_prev ?b) (ll_intent l) es (ss_hexdigest E x) 0
       (union_annotation author source (ur_rekey u) l)) p = Ok (bs, k, pool)"
    and u': "ur_batch u' = \<lparr>br_manifest = trial, br_sum = x, br_prev = ll_id k, br_bytes = br_bytes ?b @ bs,
       br_lines = br_lines ?b @ [k], br_pool = pool\<rparr>"
      "ur_staged u' = ur_staged u @ [\<lparr>ld_line = k, ld_origin_id = ll_id l, ld_stratum = st'\<rparr>]"
    by (rule union_stepE)
  have b: "batch_inv E st p0 ?b" using i by (simp add: union_inv_def)
  then have "m_ok (br_manifest ?b)" "pool_ok E (br_pool ?b)" by (simp_all add: batch_inv_def)
  note rp = replay_line_Ok [OF r this]
  have v: "an_valid (union_annotation author source (ur_rekey u) l)"
    using l by (simp add: line_ok_def an_valid_def union_annotation_def Let_def)
  have "readable E k" using rd by (simp add: u'(2))
  with sealed_inv [OF b _ x _ _ _ sl v] rp have n: "batch_inv E st p0 (ur_batch u')" "pool_le p pool"
    by (auto simp: u'(1))
  have "an_origin (ll_annotation k) = Some \<lparr>origin_fork = source, origin_id = ll_id l\<rparr>"
    using seal_annotation [OF sl] by (simp add: new_line_def union_annotation_def Let_def)
  moreover have "pool_le p0 pool"
    using i rp n(2) pool_le_trans unfolding union_inv_def by blast
  ultimately show ?thesis using i n(1) by (simp add: union_inv_def u')
qed

lemma union_loop_inv:
  "union_loop E now author source concurrent carried identical ls u = Ok (gate, u') \<Longrightarrow>
   union_inv E st p0 source u \<Longrightarrow> \<forall>l \<in> set ls. line_ok l \<Longrightarrow> \<forall>d \<in> set (ur_staged u'). readable E (ld_line d) \<Longrightarrow>
   union_inv E st p0 source u'"
proof (induction ls arbitrary: u)
  case (Cons l ls)
  from union_loop_Cons [OF Cons.prems(1)] show ?case
  proof (elim disjE exE conjE)
    fix v assume v: "union_step E now author source concurrent l u = Ok (Some v)"
      "union_loop E now author source concurrent carried identical ls v = Ok (gate, u')"
    from union_loop_staged [OF v(2)] Cons.prems(4) have "\<forall>d \<in> set (ur_staged v). readable E (ld_line d)" by auto
    from union_step_inv [OF Cons.prems(2) v(1) _ this] Cons.prems(3) have "union_inv E st p0 source v" by simp
    from Cons.IH [OF v(2) this] Cons.prems(3,4) show ?thesis by simp
  qed (use Cons in auto)
qed simp

text \<open>Whatever was replayed, the pool only grew.\<close>

lemma union_step_pool:
  assumes s: "union_step E now author source concurrent l u = Ok (Some v)" and l: "line_ok l"
    and p: "pool_ok E (br_pool (ur_batch u))" "m_ok (br_manifest (ur_batch u))"
  shows "pool_ok E (br_pool (ur_batch v)) \<and> m_ok (br_manifest (ur_batch v)) \<and>
    pool_le (br_pool (ur_batch u)) (br_pool (ur_batch v)) \<and> pool_kept (br_pool (ur_batch u)) (br_pool (ur_batch v))"
proof -
  let ?b = "ur_batch u"
  from s obtain es st' trial p x bs k pool where
    r: "replay_line E l (br_manifest ?b) (br_pool ?b) = Ok (Some (es, st', trial, p))"
    and sl: "seal E now (new_line (br_prev ?b) (ll_intent l) es (ss_hexdigest E x) 0
       (union_annotation author source (ur_rekey u) l)) p = Ok (bs, k, pool)"
    and v: "ur_batch v = \<lparr>br_manifest = trial, br_sum = x, br_prev = ll_id k, br_bytes = br_bytes ?b @ bs,
       br_lines = br_lines ?b @ [k], br_pool = pool\<rparr>" by (rule union_stepE)
  from replay_line_Ok [OF r p(2,1)] have q: "apply_realized_to_manifest (br_manifest ?b) es = Ok trial"
    "pool_ok E p" "pool_le (br_pool ?b) p" "pool_kept (br_pool ?b) p" by auto
  have "ll_valid (new_line (br_prev ?b) (ll_intent l) es (ss_hexdigest E x) 0 (union_annotation author source (ur_rekey u) l))"
    using l by (simp add: ll_valid_def new_line_def line_ok_def an_valid_def union_annotation_def Let_def)
  from seal_Ok [OF sl this q(2)] have "pool_ok E pool" by auto
  moreover note seal_pool [OF sl q(2)] apply_realized_ok [OF p(2) q(1)]
  ultimately show ?thesis using q pool_le_trans pool_kept_trans by (auto simp: v)
qed

lemma union_loop_pool:
  "union_loop E now author source concurrent carried identical ls u = Ok (gate, u') \<Longrightarrow> \<forall>l \<in> set ls. line_ok l \<Longrightarrow>
   pool_ok E (br_pool (ur_batch u)) \<Longrightarrow> m_ok (br_manifest (ur_batch u)) \<Longrightarrow>
   pool_ok E (br_pool (ur_batch u')) \<and> pool_le (br_pool (ur_batch u)) (br_pool (ur_batch u')) \<and>
   pool_kept (br_pool (ur_batch u)) (br_pool (ur_batch u'))"
proof (induction ls arbitrary: u)
  case (Cons l ls)
  from union_loop_Cons [OF Cons.prems(1)] show ?case
  proof (elim disjE exE conjE)
    fix v assume v: "union_step E now author source concurrent l u = Ok (Some v)"
      "union_loop E now author source concurrent carried identical ls v = Ok (gate, u')"
    have "line_ok l" using Cons.prems(2) by simp
    from union_step_pool [OF v(1) this Cons.prems(3,4)] Cons.IH [OF v(2)] Cons.prems(2)
    show ?thesis using pool_le_trans pool_kept_trans by (auto)
  qed (use Cons in auto)
qed simp

end

subsection \<open>Recovered forks\<close>

lemma recovered_dir:
  assumes "bt_ok (rp_forks r)" "n \<noteq> f" shows "bt_get (rp_forks (recover E f r)) n = bt_get (rp_forks r) n"
  using assms by (auto simp: recover_def set_log_def bt_get_insert split: sum.splits option.splits)

lemma with_pool_recover: "with_pool p (recover E f r) = (with_pool p r)\<lparr>rp_forks := rp_forks (recover E f r)\<rparr>"
  by (auto simp: with_pool_def recover_def set_log_def split: sum.splits option.splits)

lemma other_fork_state:
  assumes "current_state E r n = Ok st" "bt_get (rp_forks r') n = bt_get (rp_forks r) n"
    "rp_anchors r' = rp_anchors r" "pool_le (rp_pool r) (rp_pool r')"
  shows "current_state E r' n = Ok st"
proof -
  have "current_state E (with_pool (rp_pool r') r) n = Ok st" by (rule state_in_more_pool [OF assms(1,4)])
  moreover have "read_fork r' n = read_fork (with_pool (rp_pool r') r) n"
    "read_log E r' n = read_log E (with_pool (rp_pool r') r) n"
    by (simp_all add: read_fork_def read_log_def assms(2))
  moreover have "read_anchor_manifest E r' h = read_anchor_manifest E (with_pool (rp_pool r') r) h" for h
    by (simp add: read_anchor_manifest_def assms(3))
  ultimately show ?thesis by (simp add: current_state_def cong: if_cong)
qed

lemma recovered_fork:
  assumes st: "current_state E r n = Ok st" and ok: "bt_ok (rp_forks r)" and le: "pool_le (rp_pool r) p"
  shows "current_state E (with_pool p (recover E f r)) n = Ok st"
proof (cases "n = f")
  case True
  from st obtain q where q: "read_log E r n = Ok q" unfolding current_state_iff by blast
  then obtain d where d: "bt_get (rp_forks r) n = Some d" by (auto simp: read_log_def)
  have "relogged n r (kept_log E r n @ []) (with_pool p (recover E f r))"
    using d ok by (simp add: relogged_def recover_def q True [symmetric] set_log_def kept_log_def bt_get_insert)
  from torn_keeps_state [OF st this] le show ?thesis by simp
next
  case False
  show ?thesis
    by (rule other_fork_state [OF st]) (use False ok le in \<open>simp_all add: recovered_dir\<close>)
qed

lemma recovered_crashed:
  assumes H: "current_state E (crashed r) n = Ok st" and ok: "bt_ok (rp_pool r)" "bt_ok (rp_forks r)"
    and p: "bt_ok p" "pool_kept (rp_pool r) p"
  shows "current_state E (crashed (with_pool p (recover E f r))) n = Ok st"
proof (cases "n = f")
  case True
  with recovered_state [OF H ok p] show ?thesis by simp
next
  case False
  show ?thesis
    by (rule other_fork_state [OF H]) (use False ok crash_mono [OF ok(1) p] in \<open>simp_all add: crashed_def recovered_dir\<close>)
qed

lemma appended_other:
  assumes n: "n \<noteq> fork" and st: "current_state E (crashed r) n = Ok st"
    and ok: "bt_ok (rp_pool r)" "bt_ok (rp_forks r)" "bt_ok p" "pool_kept (rp_pool r) p"
    and r': "r' = fold refresh_working_tree ls (append_log fork bs (with_pool (blob_sync p) (recover E fork r)))"
  shows "current_state E r' n = Ok st"
proof (rule other_fork_state [OF st])
  obtain t where t: "r' = (append_log fork bs (with_pool (blob_sync p) (recover E fork r)))\<lparr>rp_tree := t\<rparr>"
    using refreshed_trees r' by force
  show "bt_get (rp_forks r') n = bt_get (rp_forks (crashed r)) n"
    using n recovered_dir [OF ok(2) n, of E] recover_forks_ok [OF ok(2), of E fork]
    by (auto simp: t append_log_def set_log_def crashed_def bt_get_insert split: option.splits)
  show "rp_anchors r' = rp_anchors (crashed r)"
    by (simp add: t append_log_def set_log_def crashed_def split: option.splits)
  have "rp_pool r' = blob_sync p"
    by (simp add: t append_log_def set_log_def split: option.splits)
  then show "pool_le (rp_pool (crashed r)) (rp_pool r')"
    using crash_mono [OF ok(1) bt_ok_sync [OF ok(3)] pool_kept_trans [OF ok(4) sync_kept]]
    by (simp add: crashed_def blob_sync_crash)
qed

subsection \<open>The union as a whole\<close>

lemma unionE:
  assumes "union E now source target author r = Ok (out, r')"
  obtains ss ts r2 ff concurrent carried rekey gate u where
    "current_state E r source = Ok ss" "current_state E (recover E source r) target = Ok ts"
    "r2 = recover E target (recover E source r)" "read_fork r2 source = Ok ff"
    "uo_already_identical out \<longleftrightarrow> m_sum E (fs_manifest ss) = m_sum E (fs_manifest ts)"
    "carried_start source (fs_lines ts) = (carried, rekey)"
    "union_loop E now author source concurrent carried (uo_already_identical out) (fs_lines ss)
        \<lparr>ur_batch = batch_start E ts (rp_pool r), ur_staged = [], ur_writers = [], ur_rekey = rekey,
         ur_conflicts = []\<rparr> = Ok (gate, u)"
    "uo_needs_reenactment out = gate"
    "\<exists>ks. gate = None \<longrightarrow> uo_semantic_conflicts out = ur_conflicts u @ concat (map (\<lambda>t.
       note_stranded_reads t (ur_writers u) (fs_manifest ts) (br_manifest (ur_batch u)) (br_pool (ur_batch u))) ks)"
    "\<not> outcome_complete out \<Longrightarrow> uo_landed out = [] \<and> r' = with_pool (br_pool (ur_batch u)) r2"
    "outcome_complete out \<Longrightarrow> uo_landed out = ur_staged u \<and>
       append_sealed_locked target (map ld_line (ur_staged u)) (br_bytes (ur_batch u))
         (with_pool (br_pool (ur_batch u)) r2) = Ok r'"
proof -
  from assms obtain ss ts where s: "current_state E r source = Ok ss" "current_state E (recover E source r) target = Ok ts"
    by (auto simp: union_def Let_def)
  let ?r2 = "recover E target (recover E source r)"
  let ?i = "m_sum E (fs_manifest ss) = m_sum E (fs_manifest ts)"
  from assms s obtain ff where ff: "read_fork ?r2 source = Ok ff" by (auto simp: union_def Let_def)
  obtain carried rekey where c: "carried_start source (fs_lines ts) = (carried, rekey)" by force
  from assms s ff c obtain concurrent gate u where
    l: "union_loop E now author source concurrent carried ?i (fs_lines ss)
        \<lparr>ur_batch = batch_start E ts (rp_pool r), ur_staged = [], ur_writers = [], ur_rekey = rekey,
         ur_conflicts = []\<rparr> = Ok (gate, u)"
    and rest: "uo_already_identical out = ?i" "uo_needs_reenactment out = gate"
    "\<exists>ks. gate = None \<longrightarrow> uo_semantic_conflicts out = ur_conflicts u @ concat (map (\<lambda>t.
       note_stranded_reads t (ur_writers u) (fs_manifest ts) (br_manifest (ur_batch u)) (br_pool (ur_batch u))) ks)"
    "\<not> outcome_complete out \<Longrightarrow> uo_landed out = [] \<and> r' = with_pool (br_pool (ur_batch u)) ?r2"
    "outcome_complete out \<Longrightarrow> uo_landed out = ur_staged u \<and>
       append_sealed_locked target (map ld_line (ur_staged u)) (br_bytes (ur_batch u))
         (with_pool (br_pool (ur_batch u)) ?r2) = Ok r'"
    by (fastforce simp: union_def Let_def outcome_complete_def split: if_splits)
  from that [OF s refl ff _ c _ rest(2-5)] l rest(1) show thesis by simp
qed

lemma append_nothing [simp]: "append_sealed_locked target [] bs r = Ok r"
  by (simp add: append_sealed_locked_def)

context setsum
begin

text \<open>The pool a union leaves, and the log it starts from.\<close>

lemma union_start:
  assumes "union_loop E now author source concurrent carried identical (fs_lines ss)
        \<lparr>ur_batch = batch_start E ts (rp_pool r), ur_staged = [], ur_writers = [], ur_rekey = rekey,
         ur_conflicts = []\<rparr> = Ok (gate, u)"
    and "current_state E r source = Ok ss" "current_state E r2 target = Ok ts" "pool_ok E (rp_pool r)"
  shows "pool_ok E (br_pool (ur_batch u)) \<and> pool_le (rp_pool r) (br_pool (ur_batch u)) \<and>
    pool_kept (rp_pool r) (br_pool (ur_batch u))"
proof -
  have "m_ok (fs_manifest ts)" using current_state_ok [OF assms(3)] by (simp add: state_ok_def)
  with union_loop_pool [OF assms(1) state_lines_ok [OF assms(2)]] assms(4) show ?thesis
    by (simp add: batch_start_def)
qed

text \<open>A union that lands nothing changes no fork.\<close>

lemma union_unlanded:
  assumes u: "union E now source target author r = Ok (out, r')" and none: "uo_landed out = []"
    and ok: "pool_ok E (rp_pool r)" "bt_ok (rp_forks r)" and st: "current_state E r n = Ok st"
  shows "current_state E r' n = Ok st"
proof -
  from u obtain ss ts ff concurrent carried rekey gate run where
    s: "current_state E r source = Ok ss" "current_state E (recover E source r) target = Ok ts"
    and l: "union_loop E now author source concurrent carried (uo_already_identical out) (fs_lines ss)
        \<lparr>ur_batch = batch_start E ts (rp_pool r), ur_staged = [], ur_writers = [], ur_rekey = rekey,
         ur_conflicts = []\<rparr> = Ok (gate, run)"
    and a: "\<not> outcome_complete out \<Longrightarrow> uo_landed out = [] \<and>
       r' = with_pool (br_pool (ur_batch run)) (recover E target (recover E source r))"
    and c: "outcome_complete out \<Longrightarrow> uo_landed out = ur_staged run \<and>
       append_sealed_locked target (map ld_line (ur_staged run)) (br_bytes (ur_batch run))
         (with_pool (br_pool (ur_batch run)) (recover E target (recover E source r))) = Ok r'"
    by (rule unionE) blast
  have r': "r' = with_pool (br_pool (ur_batch run)) (recover E target (recover E source r))"
    using a c none by (cases "outcome_complete out") auto
  have "current_state E (with_pool (rp_pool r) (recover E source r)) n = Ok st"
    by (rule recovered_fork [OF st ok(2)]) simp
  moreover have "with_pool (rp_pool r) (recover E source r) = recover E source r"
    by (simp add: with_pool_def)
  ultimately have "current_state E (recover E source r) n = Ok st" by simp
  from recovered_fork [OF this recover_forks_ok [OF ok(2)], of "br_pool (ur_batch run)" target]
    union_start [OF l s ok(1)] show ?thesis by (simp add: r')
qed

text \<open>One that lands appends its lines to the target, durably, and leaves the others.\<close>

lemma union_landed:
  assumes u: "union E now source target author r = Ok (out, r')" and some: "uo_landed out \<noteq> []"
    and ok: "pool_ok E (rp_pool r)" "bt_ok (rp_forks r)" "\<forall>d \<in> set (uo_landed out). readable E (ld_line d)"
    and ff: "read_fork r target = Ok ff" and away: "\<forall>d \<in> set (uo_landed out). ll_sum_after (ld_line d) \<noteq> ff_anchor ff"
    and H: "current_state E (crashed r) target = Ok ts"
  shows "crashed r' = r' \<and> (\<exists>st'. current_state E r' target = Ok st' \<and>
      fs_lines st' = fs_lines ts @ map ld_line (uo_landed out) \<and>
      lines_follow E (fs_head_id ts) (fs_manifest ts) (map ld_line (uo_landed out)) (fs_manifest st')) \<and>
    (\<forall>d \<in> set (uo_landed out). an_origin (ll_annotation (ld_line d)) =
        Some \<lparr>origin_fork = source, origin_id = ld_origin_id d\<rparr>) \<and>
    (\<forall>n st. n \<noteq> target \<longrightarrow> current_state E (crashed r) n = Ok st \<longrightarrow> current_state E r' n = Ok st)"
proof -
  note b = pool_ok_bt [OF ok(1)]
  let ?r1 = "recover E source r"
  from u obtain ss ts1 ff1 concurrent carried rekey gate run where
    s: "current_state E r source = Ok ss" "current_state E ?r1 target = Ok ts1"
    and l: "union_loop E now author source concurrent carried (uo_already_identical out) (fs_lines ss)
        \<lparr>ur_batch = batch_start E ts1 (rp_pool r), ur_staged = [], ur_writers = [], ur_rekey = rekey,
         ur_conflicts = []\<rparr> = Ok (gate, run)"
    and a: "\<not> outcome_complete out \<Longrightarrow> uo_landed out = [] \<and>
       r' = with_pool (br_pool (ur_batch run)) (recover E target ?r1)"
    and c: "outcome_complete out \<Longrightarrow> uo_landed out = ur_staged run \<and>
       append_sealed_locked target (map ld_line (ur_staged run)) (br_bytes (ur_batch run))
         (with_pool (br_pool (ur_batch run)) (recover E target ?r1)) = Ok r'"
    by (rule unionE) blast
  have w: "with_pool (rp_pool r) ?r1 = ?r1" by (simp add: with_pool_def)
  have H1: "current_state E (crashed ?r1) target = Ok ts"
    using recovered_crashed [OF H b ok(2) b, of source] by (simp add: w)
  have f1: "bt_ok (rp_forks ?r1)" by (rule recover_forks_ok [OF ok(2)])
  have "ts1 = ts" using state_before_crash [OF H1] b s(2) by simp
  with l s(2) have l: "union_loop E now author source concurrent carried (uo_already_identical out) (fs_lines ss)
        \<lparr>ur_batch = batch_start E ts (rp_pool r), ur_staged = [], ur_writers = [], ur_rekey = rekey,
         ur_conflicts = []\<rparr> = Ok (gate, run)" and s2: "current_state E ?r1 target = Ok ts" by simp_all
  have "outcome_complete out" using a some by blast
  from c [OF this] have lands: "uo_landed out = ur_staged run"
    and ap: "append_sealed_locked target (map ld_line (ur_staged run)) (br_bytes (ur_batch run))
         (with_pool (br_pool (ur_batch run)) (recover E target ?r1)) = Ok r'" by simp_all
  have m: "m_ok (fs_manifest ts)" using current_state_ok [OF s2] by (simp add: state_ok_def)
  have "union_inv E ts (rp_pool r) source \<lparr>ur_batch = batch_start E ts (rp_pool r), ur_staged = [], ur_writers = [],
      ur_rekey = rekey, ur_conflicts = []\<rparr>"
    using m ok(1) by (auto simp: union_inv_def batch_inv_def batch_start_def intro!: exI [of _ "[]"])
  from union_loop_inv [OF l this state_lines_ok [OF s(1)]] ok(3) lands
  have i: "union_inv E ts (rp_pool r) source run" by simp
  then have bi: "batch_inv E ts (rp_pool ?r1) (ur_batch run)" and bl: "br_lines (ur_batch run) = map ld_line (ur_staged run)"
    by (simp_all add: union_inv_def)
  have r': "r' = fold refresh_working_tree (map ld_line (ur_staged run))
      (append_log target (br_bytes (ur_batch run)) (with_pool (blob_sync (br_pool (ur_batch run))) (recover E target ?r1)))"
    using ap some lands by (auto simp: append_sealed_locked_def with_pool_def)
  have aw: "\<forall>l \<in> set (br_lines (ur_batch run)). ll_sum_after l \<noteq> ff_anchor ff" using away by (auto simp: bl lands)
  have "bt_ok (rp_pool ?r1)" "read_fork ?r1 target = Ok ff" using b ff by (simp_all add: recover_fork [OF ok(2)])
  from batch_landed [OF bi this(1) f1 this(2) aw H1 r'] obtain st' where st': "crashed r' = r'"
    "current_state E r' target = Ok st'" "fs_lines st' = fs_lines ts @ br_lines (ur_batch run)"
    "fs_manifest st' = br_manifest (ur_batch run)" by blast
  have "current_state E r' n = Ok st" if n: "n \<noteq> target" and st: "current_state E (crashed r) n = Ok st" for n st
  proof -
    have "current_state E (crashed ?r1) n = Ok st"
      using recovered_crashed [OF st b ok(2) b, of source] by (simp add: w)
    from appended_other [OF n this _ f1 _ _ r'] b bi pool_ok_bt show ?thesis by (auto simp: batch_inv_def)
  qed
  moreover have "\<forall>d \<in> set (uo_landed out). an_origin (ll_annotation (ld_line d)) =
        Some \<lparr>origin_fork = source, origin_id = ld_origin_id d\<rparr>" using i by (simp add: union_inv_def lands)
  moreover have "lines_follow E (fs_head_id ts) (fs_manifest ts) (map ld_line (uo_landed out)) (fs_manifest st')"
    using bi st'(4) by (simp add: batch_inv_def bl lands)
  ultimately show ?thesis using st' by (auto simp: bl lands)
qed

end

subsection \<open>After a complete union\<close>

lemma carried_start_ids: "set (fst (carried_start source ls)) = (\<Union>l \<in> set ls. set (carried_ids source l))"
proof -
  have "set (fst (fold (\<lambda>l (carried, rekey). case an_origin (ll_annotation l) of
       Some orig \<Rightarrow> if origin_fork orig = source
         then (origin_id orig # ll_id l # carried, bt_insert (origin_id orig) (ll_id l) rekey)
         else (ll_id l # carried, rekey)
     | None \<Rightarrow> (ll_id l # carried, rekey)) ls (cs, rk))) = set cs \<union> (\<Union>l \<in> set ls. set (carried_ids source l))"
    for cs rk
    by (induction ls arbitrary: cs rk) (auto simp: carried_ids_def split: option.splits)
  from this [of "[]" "[]"] show ?thesis by (simp add: carried_start_def)
qed

lemma union_loop_skips:
  "\<forall>l \<in> set ls. \<not> travels carried identical l \<Longrightarrow>
   union_loop E now author source concurrent carried identical ls u = Ok (None, u)"
  by (induction ls) auto

lemma note_stranded_none [simp]: "note_stranded_reads t [] m m' pool = []"
proof -
  have "strand_read [] m m' pool rd x = x" for rd x
    by (simp add: strand_read_def strand_all_def split: option.split)
  then have "fold (strand_read [] m m' pool) rds x = x" for rds x by (induction rds) simp_all
  then show ?thesis by (simp add: note_stranded_reads_def strand_all_def split: option.split)
qed

text \<open>Every line of the source is carried.\<close>

context setsum
begin

lemma union_carries:
  assumes u: "union E now source target author r = Ok (out, r')" and complete: "outcome_complete out"
    and differ: "\<not> uo_already_identical out \<or> (\<forall>l \<in> set (fs_lines ss). an_fuse (ll_annotation l) = None \<longrightarrow>
      (\<exists>k \<in> set (fs_lines ts). ll_id l \<in> set (carried_ids source k)))"
    and ok: "pool_ok E (rp_pool r)" "bt_ok (rp_forks r)"
    and rd: "\<forall>d \<in> set (uo_landed out). readable E (ld_line d)"
    and ff: "read_fork r target = Ok ff" and away: "\<forall>d \<in> set (uo_landed out). ll_sum_after (ld_line d) \<noteq> ff_anchor ff"
    and H: "current_state E (crashed r) target = Ok ts" and ss: "current_state E r source = Ok ss"
  shows "\<exists>st'. current_state E r' target = Ok st' \<and>
    (\<forall>l \<in> set (fs_lines ss). \<exists>k \<in> set (fs_lines st'). ll_id l \<in> set (carried_ids source k))"
proof -
  note b = pool_ok_bt [OF ok(1)]
  have st: "current_state E r target = Ok ts" by (rule state_before_crash [OF H b])
  obtain st' where st': "current_state E r' target = Ok st'" "fs_lines st' = fs_lines ts @ map ld_line (uo_landed out)"
    and orig: "\<forall>d \<in> set (uo_landed out). an_origin (ll_annotation (ld_line d)) =
        Some \<lparr>origin_fork = source, origin_id = ld_origin_id d\<rparr>"
  proof (cases "uo_landed out = []")
    case True
    with union_unlanded [OF u True ok st] that [of ts] show ?thesis by simp
  next
    case False
    with union_landed [OF u False ok rd ff away H] that show ?thesis by blast
  qed
  from u obtain ss1 ts1 ff1 carried rekey gate run concurrent where
    s: "current_state E r source = Ok ss1" "current_state E (recover E source r) target = Ok ts1"
    and c: "carried_start source (fs_lines ts1) = (carried, rekey)"
    and l: "union_loop E now author source concurrent carried (uo_already_identical out) (fs_lines ss1)
        \<lparr>ur_batch = batch_start E ts1 (rp_pool r), ur_staged = [], ur_writers = [], ur_rekey = rekey,
         ur_conflicts = []\<rparr> = Ok (gate, run)" "uo_needs_reenactment out = gate"
    and lands: "outcome_complete out \<Longrightarrow> uo_landed out = ur_staged run"
    by (rule unionE) blast
  have "with_pool (rp_pool r) (recover E source r) = recover E source r" by (simp add: with_pool_def)
  then have "ts1 = ts" "ss1 = ss"
    using recovered_fork [OF st ok(2), of "rp_pool r" source] s ss by simp_all
  moreover have "gate = None" using complete l(2) by (simp add: outcome_complete_def)
  ultimately have o: "map ld_origin_id (uo_landed out) = map ll_id (filter (travels carried (uo_already_identical out)) (fs_lines ss))"
    using union_loop_staged [OF l(1)] lands [OF complete] by auto
  have "\<exists>k \<in> set (fs_lines st'). ll_id l \<in> set (carried_ids source k)" if l: "l \<in> set (fs_lines ss)" for l
  proof (cases "ll_id l \<in> set carried")
    case True
    with carried_start_ids [of source "fs_lines ts"] c \<open>ts1 = ts\<close> st'(2) show ?thesis by auto
  next
    case False
    show ?thesis
    proof (cases "travels carried (uo_already_identical out) l")
      case True
      with l have "ll_id l \<in> set (map ll_id (filter (travels carried (uo_already_identical out)) (fs_lines ss)))" by auto
      then obtain d where "d \<in> set (uo_landed out)" "ld_origin_id d = ll_id l"
        unfolding o [symmetric] by auto
      with orig st'(2) show ?thesis by (auto simp: carried_ids_def intro!: bexI [of _ "ld_line d"])
    next
      case False
      with \<open>ll_id l \<notin> set carried\<close> differ l st'(2) show ?thesis by (auto simp: travels_def)
    qed
  qed
  with st'(1) show ?thesis by blast
qed

text \<open>A second union of the same forks lands nothing and finds nothing.\<close>

lemma union_again:
  assumes u: "union E now source target author r = Ok (out, r')" and ss: "current_state E r source = Ok ss"
    and st: "current_state E r target = Ok st" and bt: "bt_ok (rp_forks r)"
    and carries: "\<forall>l \<in> set (fs_lines ss). \<exists>k \<in> set (fs_lines st). ll_id l \<in> set (carried_ids source k)"
  shows "uo_landed out = [] \<and> outcome_complete out"
proof -
  obtain ss1 ts1 carried rekey gate run concurrent where
    s: "current_state E r source = Ok ss1" "current_state E (recover E source r) target = Ok ts1"
    and c: "carried_start source (fs_lines ts1) = (carried, rekey)"
    and l: "union_loop E now author source concurrent carried (uo_already_identical out) (fs_lines ss1)
        \<lparr>ur_batch = batch_start E ts1 (rp_pool r), ur_staged = [], ur_writers = [], ur_rekey = rekey,
         ur_conflicts = []\<rparr> = Ok (gate, run)" "uo_needs_reenactment out = gate"
    and conf: "\<exists>ks. gate = None \<longrightarrow> uo_semantic_conflicts out = ur_conflicts run @ concat (map (\<lambda>t.
       note_stranded_reads t (ur_writers run) (fs_manifest ts1) (br_manifest (ur_batch run)) (br_pool (ur_batch run))) ks)"
    and lands: "outcome_complete out \<Longrightarrow> uo_landed out = ur_staged run"
  proof (rule unionE [OF u], goal_cases)
    case (1 ss ts r2 ff concurrent carried rekey gate run)
    show ?case by (rule that [OF 1(2,3,7-10)]) (use 1(12) in simp)
  qed
  have "with_pool (rp_pool r) (recover E source r) = recover E source r" by (simp add: with_pool_def)
  then have e: "ts1 = st" "ss1 = ss"
    using recovered_fork [OF st bt, of "rp_pool r" source] s ss by simp_all
  have "\<not> travels carried (uo_already_identical out) k" if "k \<in> set (fs_lines ss)" for k
    using that carries carried_start_ids [of source "fs_lines st"] c e by (fastforce simp: travels_def)
  then have "gate = None" "run = \<lparr>ur_batch = batch_start E st (rp_pool r), ur_staged = [], ur_writers = [],
      ur_rekey = rekey, ur_conflicts = []\<rparr>"
    using l(1) e union_loop_skips [of "fs_lines ss" carried "uo_already_identical out" E now author source concurrent]
    by simp_all
  moreover have "concat (map (\<lambda>t :: log_line. []) ks) = ([] :: semantic_conflict list)" for ks by (induction ks) simp_all
  ultimately show ?thesis using conf lands l(2) by (auto simp: outcome_complete_def)
qed

end

text \<open>
  A line whose delta does not apply and whose intent is empty, as every line of a
  repoint or an import, lands with an empty delta: its change is lost, and reported as landed.
\<close>

lemma empty_intent_lands_nothing:
  assumes "ops (ll_intent l) = []" "\<not> is_ok (apply_realized_to_manifest m (ll_realized l))"
  shows "replay_line E l m pool = Ok (Some ([], IntentReplay, m, pool))"
  using assms by (auto simp: replay_line_def apply_intent_def empty_realization_def pool_blobs_def rmap_def
      split: sum.split)

lemma fork_names_has: "n \<in> set (fork_names r) \<longleftrightarrow> bt_has (rp_forks r) n"
  by (auto simp: fork_names_def bt_keys_def bt_has_def map_of_eq_None_iff image_iff dest: weak_map_of_SomeI
      dest!: map_of_SomeD)

text \<open>A fork whose lines are carried can be removed.\<close>

lemma carried_elsewhere_total:
  assumes "\<forall>n \<in> set (fork_names r). \<exists>st. current_state E r n = Ok st"
  shows "\<exists>S. carried_elsewhere E r name = Ok S \<and>
    (\<forall>n \<in> set (fork_names r). \<forall>st k. n \<noteq> name \<longrightarrow> current_state E r n = Ok st \<longrightarrow> k \<in> set (fs_lines st) \<longrightarrow>
       set (carried_ids name k) \<subseteq> S)"
proof -
  define f where "f = (\<lambda>other acc. if other = name then Ok acc else
       rmap (\<lambda>st. acc \<union> set (concat (map (carried_ids name) (fs_lines st)))) (current_state E r other))"
  have step: "\<exists>B. f n A = Ok B \<and> A \<subseteq> B \<and> (n \<noteq> name \<longrightarrow> (\<forall>st k. current_state E r n = Ok st \<longrightarrow>
      k \<in> set (fs_lines st) \<longrightarrow> set (carried_ids name k) \<subseteq> B))" if st: "current_state E r n = Ok st" for n st A
  proof (cases "n = name")
    case False
    let ?B = "A \<union> set (concat (map (carried_ids name) (fs_lines st)))"
    have f: "f n A = Ok ?B" using False st by (simp add: f_def)
    have "set (carried_ids name k) \<subseteq> ?B" if "k \<in> set (fs_lines st)" for k using that by fastforce
    then have "\<forall>st' k. current_state E r n = Ok st' \<longrightarrow> k \<in> set (fs_lines st') \<longrightarrow> set (carried_ids name k) \<subseteq> ?B"
      using st by (metis Inr_inject)
    with f show ?thesis by blast
  qed (simp add: f_def)
  have "\<exists>S. rfold f ns A = Ok S \<and> A \<subseteq> S \<and> (\<forall>n \<in> set ns. n \<noteq> name \<longrightarrow> (\<forall>st k. current_state E r n = Ok st \<longrightarrow>
      k \<in> set (fs_lines st) \<longrightarrow> set (carried_ids name k) \<subseteq> S))"
    if "\<forall>n \<in> set ns. \<exists>st. current_state E r n = Ok st" for ns A
    using that
  proof (induction ns arbitrary: A)
    case (Cons n ns)
    then obtain B where B: "f n A = Ok B" "A \<subseteq> B" "n \<noteq> name \<longrightarrow> (\<forall>st k. current_state E r n = Ok st \<longrightarrow>
      k \<in> set (fs_lines st) \<longrightarrow> set (carried_ids name k) \<subseteq> B)" using step by (meson list.set_intros(1))
    from Cons.IH [of B] Cons.prems obtain S where S: "rfold f ns B = Ok S" "B \<subseteq> S"
      "\<forall>n \<in> set ns. n \<noteq> name \<longrightarrow> (\<forall>st k. current_state E r n = Ok st \<longrightarrow>
      k \<in> set (fs_lines st) \<longrightarrow> set (carried_ids name k) \<subseteq> S)" by auto
    have "rfold f (n # ns) A = Ok S" using B(1) S(1) by simp
    moreover have "A \<subseteq> S" using B(2) S(2) by blast
    moreover have "\<forall>n' \<in> set (n # ns). n' \<noteq> name \<longrightarrow> (\<forall>st k. current_state E r n' = Ok st \<longrightarrow>
      k \<in> set (fs_lines st) \<longrightarrow> set (carried_ids name k) \<subseteq> S)" using B(3) S(2,3) by (metis set_ConsD subset_trans)
    ultimately show ?case by blast
  qed simp
  from this [OF assms, of "{}"] show ?thesis unfolding carried_elsewhere_def f_def by blast
qed

lemma carried_fork_removable:
  assumes "current_state E r source = Ok ss" "current_state E r target = Ok st" "source \<noteq> target" "source \<noteq> ''main''"
    and all: "\<forall>n \<in> set (fork_names r). \<exists>st. current_state E r n = Ok st"
    and carries: "\<forall>l \<in> set (fs_lines ss). \<exists>k \<in> set (fs_lines st). ll_id l \<in> set (carried_ids source k)"
  shows "\<exists>r'. remove_fork E source False r = Ok r'"
proof -
  have has: "validate_fork_name n = Ok () \<and> bt_has (rp_forks r) n" if "current_state E r n = Ok st" for n st
    using that by (auto simp: current_state_def read_fork_def bt_has_def)
  have "target \<in> set (fork_names r)" using has [OF assms(2)] by (simp add: fork_names_has)
  moreover obtain S where S: "carried_elsewhere E r source = Ok S"
    "\<forall>n \<in> set (fork_names r). \<forall>st k. n \<noteq> source \<longrightarrow> current_state E r n = Ok st \<longrightarrow> k \<in> set (fs_lines st) \<longrightarrow>
       set (carried_ids source k) \<subseteq> S" using carried_elsewhere_total [OF all] by metis
  ultimately have "set (carried_ids source k) \<subseteq> S" if "k \<in> set (fs_lines st)" for k
    using that assms(2,3) by simp
  then have "\<not> list_ex (\<lambda>l. ll_id l \<notin> S) (fs_lines ss)" using carries unfolding list_ex_iff by blast
  with S(1) has [OF assms(1)] assms(1,4) show ?thesis by (simp add: remove_fork_def)
qed

subsection \<open>Two unions, and a union and a removal\<close>

lemma append_log_ok: "bt_ok (rp_forks r) \<Longrightarrow> bt_ok (rp_forks (append_log fork bs r))"
  by (auto simp: append_log_def set_log_def bt_ok_insert split: option.splits)

lemma append_log_has:
  "bt_ok (rp_forks r) \<Longrightarrow> bt_has (rp_forks (append_log fork bs r)) n \<longleftrightarrow> bt_has (rp_forks r) n"
  by (auto simp: append_log_def set_log_def bt_has_def bt_get_insert split: option.splits)

lemma recover_has: "bt_ok (rp_forks r) \<Longrightarrow> bt_has (rp_forks (recover E fork r)) n \<longleftrightarrow> bt_has (rp_forks r) n"
  by (auto simp: recover_def set_log_def bt_has_def bt_get_insert split: sum.splits option.splits)

lemma union_forks_ok:
  assumes u: "union E now source target author r = Ok (out, r')" and ok: "bt_ok (rp_forks r)"
  shows "bt_ok (rp_forks r') \<and> (\<forall>n. bt_has (rp_forks r') n \<longleftrightarrow> bt_has (rp_forks r) n)"
proof (rule unionE [OF u], goal_cases)
  case (1 ss ts r2 ff concurrent carried rekey gate run)
  have b: "bt_ok (rp_forks (with_pool (br_pool (ur_batch run)) r2)) \<and>
    (\<forall>n. bt_has (rp_forks (with_pool (br_pool (ur_batch run)) r2)) n \<longleftrightarrow> bt_has (rp_forks r) n)"
    unfolding 1(3) by (simp add: recover_forks_ok recover_has ok)
  show ?case
  proof (cases "outcome_complete out")
    case True
    let ?ls = "map ld_line (ur_staged run)"
    from 1(11) [OF True] consider "r' = with_pool (br_pool (ur_batch run)) r2" |
      "r' = fold refresh_working_tree ?ls (append_log target (br_bytes (ur_batch run))
        (with_pool (blob_sync (br_pool (ur_batch run))) (with_pool (br_pool (ur_batch run)) r2)))"
      by (auto simp: append_sealed_locked_def split: if_splits)
    then show ?thesis
    proof cases
      case 2
      then obtain t where "r' = (append_log target (br_bytes (ur_batch run))
        (with_pool (blob_sync (br_pool (ur_batch run))) (with_pool (br_pool (ur_batch run)) r2)))\<lparr>rp_tree := t\<rparr>"
        using refreshed_trees by metis
      then show ?thesis using append_log_ok append_log_has b by simp
    qed (use b in simp)
  qed (use 1(10) b in simp)
qed

context setsum
begin

lemma union_keeps_source:
  assumes u: "union E now source target author r = Ok (out, r')" and ok: "pool_ok E (rp_pool r)" "bt_ok (rp_forks r)"
    and rd: "\<forall>d \<in> set (uo_landed out). readable E (ld_line d)"
    and ff: "read_fork r target = Ok ff" and away: "\<forall>d \<in> set (uo_landed out). ll_sum_after (ld_line d) \<noteq> ff_anchor ff"
    and H: "current_state E (crashed r) target = Ok ts" and n: "n \<noteq> target" "current_state E (crashed r) n = Ok st"
  shows "current_state E r' n = Ok st"
proof (cases "uo_landed out = []")
  case True
  with union_unlanded [OF u True ok] state_before_crash [OF n(2) pool_ok_bt [OF ok(1)]] show ?thesis by blast
next
  case False
  with union_landed [OF u False ok rd ff away H] n show ?thesis by blast
qed

lemma union_twice:
  assumes u: "union E now source target author r = Ok (out, r')" and complete: "outcome_complete out"
    and differ: "\<not> uo_already_identical out" and ok: "pool_ok E (rp_pool r)" "bt_ok (rp_forks r)"
    and rd: "\<forall>d \<in> set (uo_landed out). readable E (ld_line d)"
    and ff: "read_fork r target = Ok ff" and away: "\<forall>d \<in> set (uo_landed out). ll_sum_after (ld_line d) \<noteq> ff_anchor ff"
    and H: "current_state E (crashed r) target = Ok ts" and ss: "source \<noteq> target" "current_state E (crashed r) source = Ok ss"
    and u2: "union E now' source target author' r' = Ok (out2, r2)"
  shows "uo_landed out2 = [] \<and> outcome_complete out2"
proof -
  note s = state_before_crash [OF ss(2) pool_ok_bt [OF ok(1)]]
  from union_carries [OF u complete disjI1 [OF differ] ok rd ff away H s] obtain st' where st': "current_state E r' target = Ok st'"
    "\<forall>l \<in> set (fs_lines ss). \<exists>k \<in> set (fs_lines st'). ll_id l \<in> set (carried_ids source k)" by blast
  from union_again [OF u2 union_keeps_source [OF u ok rd ff away H ss] st'(1) _ st'(2)] union_forks_ok [OF u ok(2)]
  show ?thesis by blast
qed

lemma union_then_remove:
  assumes u: "union E now source target author r = Ok (out, r')" and complete: "outcome_complete out"
    and differ: "\<not> uo_already_identical out \<or> (\<forall>l \<in> set (fs_lines ss). an_fuse (ll_annotation l) = None \<longrightarrow>
      (\<exists>k \<in> set (fs_lines ts). ll_id l \<in> set (carried_ids source k)))"
    and ok: "pool_ok E (rp_pool r)" "bt_ok (rp_forks r)"
    and rd: "\<forall>d \<in> set (uo_landed out). readable E (ld_line d)"
    and ff: "read_fork r target = Ok ff" and away: "\<forall>d \<in> set (uo_landed out). ll_sum_after (ld_line d) \<noteq> ff_anchor ff"
    and H: "current_state E (crashed r) target = Ok ts" and ss: "source \<noteq> target" "current_state E (crashed r) source = Ok ss"
    and m: "source \<noteq> ''main''" and all: "\<forall>n \<in> set (fork_names r). \<exists>st. current_state E (crashed r) n = Ok st"
  shows "\<exists>r2. remove_fork E source False r' = Ok r2"
proof -
  note s = state_before_crash [OF ss(2) pool_ok_bt [OF ok(1)]]
  from union_carries [OF u complete differ ok rd ff away H s] obtain st' where st': "current_state E r' target = Ok st'"
    "\<forall>l \<in> set (fs_lines ss). \<exists>k \<in> set (fs_lines st'). ll_id l \<in> set (carried_ids source k)" by blast
  have "\<exists>st. current_state E r' n = Ok st" if n: "n \<in> set (fork_names r')" for n
  proof (cases "n = target")
    case False
    have "n \<in> set (fork_names r)" using n union_forks_ok [OF u ok(2)] by (simp add: fork_names_has)
    with all obtain st where "current_state E (crashed r) n = Ok st" by metis
    from union_keeps_source [OF u ok rd ff away H False this] show ?thesis by blast
  qed (use st' in blast)
  then have "\<forall>n \<in> set (fork_names r'). \<exists>st. current_state E r' n = Ok st" by blast
  from carried_fork_removable [OF union_keeps_source [OF u ok rd ff away H ss] st'(1) ss(1) m this st'(2)]
  show ?thesis .
qed

text \<open>
  Forks that came to the same state by edits of their own: the union is complete and has
  nothing to land, and the source stays as it was, a line no other fork carries included.
\<close>

lemma identical_edits_stay_unmerged:
  assumes u: "union E now source target author r = Ok (out, r')" and none: "uo_landed out = []"
    and ok: "pool_ok E (rp_pool r)" "bt_ok (rp_forks r)" and ss: "current_state E r source = Ok ss"
    and all: "\<forall>n \<in> set (fork_names r). \<exists>st. current_state E r n = Ok st"
    and l: "l \<in> set (fs_lines ss)" "\<And>n st k. n \<noteq> source \<Longrightarrow> current_state E r n = Ok st \<Longrightarrow>
      k \<in> set (fs_lines st) \<Longrightarrow> ll_id l \<notin> set (carried_ids source k)"
  shows "\<not> is_ok (remove_fork E source False r')"
proof
  assume "is_ok (remove_fork E source False r')"
  then obtain r2 where r2: "remove_fork E source False r' = Ok r2" by (auto simp: is_ok_iff)
  note same = union_unlanded [OF u none ok]
  from remove_fork_subsumed [OF r2 same [OF ss] l(1)] obtain n st k where
    n: "n \<noteq> source" "current_state E r2 n = Ok st" "k \<in> set (fs_lines st)" "ll_id l \<in> set (carried_ids source k)" by blast
  then have st: "current_state E r' n = Ok st" using remove_fork_Ok [OF r2] by simp
  then have "n \<in> set (fork_names r')"
    by (auto simp: fork_names_has current_state_def read_fork_def bt_has_def)
  then have "n \<in> set (fork_names r)" using union_forks_ok [OF u ok(2)] by (simp add: fork_names_has)
  with all obtain st0 where "current_state E r n = Ok st0" by blast
  with same [OF this] st have "current_state E r n = Ok st" by simp
  from l(2) [OF n(1) this n(3)] n(4) show False by blast
qed

end

end
