(* ===== verification/Samples.thy ===== *)
theory Samples
  imports Examples Collect Ops Pack Union
begin

text \<open>
  Concrete repositories the witnesses use: an initialised one, and the ones an
  applied intent and a second fork make of it, under an environment whose JSON
  reader knows the committed line.
\<close>

text \<open>
  The environment of the repositories: every item counts one in the sum, every digest
  is zero, and the JSON reader knows the three lines below.
\<close>

definition i3 :: intent where
  "i3 = \<lparr>ops = [Create ''/a'' ''100644'' None (Some ''eA=='')]\<rparr>"

definition r3 :: element_record where
  "r3 = \<lparr>er_mode = ''100644'', er_path = ''/a'', er_blob = z64\<rparr>"

definition o64 :: string where "o64 = CHR ''1'' # replicate 63 (CHR ''0'')"

definition l3 :: log_line where
  "l3 = \<lparr>ll_id = z64, ll_prev = [], ll_intent = i3,
     ll_realized = [\<lparr>re_remove = None, re_add = Some (er_to_line r3)\<rparr>], ll_sum_after = o64,
     ll_committed_ms = 7, ll_annotation = a0\<rparr>"

text \<open>The line as a union lands it.\<close>

definition l4 :: log_line where
  "l4 = l3\<lparr>ll_annotation := a0\<lparr>an_provenance := PUnion,
     an_origin := Some \<lparr>origin_fork = ''f'', origin_id = z64\<rparr>\<rparr>\<rparr>"

text \<open>A line behind the first that changes nothing.\<close>

definition l5 :: log_line where
  "l5 = l3\<lparr>ll_prev := z64, ll_intent := \<lparr>ops = []\<rparr>, ll_realized := []\<rparr>"

definition E3 :: "256 word env" where
  "E3 = E0\<lparr>digest := \<lambda>_. replicate 32 (CHR 0x00), ss_insert := \<lambda>s _. s + 1, ss_remove := \<lambda>s _. s - 1,
     json_parse := \<lambda>t. Some (line_to_value (if Ok t = canonical_json (line_to_value l4) then l4
       else if Ok t = canonical_json (line_to_value l5) then l5 else l3))\<rparr>"

lemma E3_hash [simp]: "sha3_hex E3 x = z64"
proof -
  have "sha3_hex E3 x = hex (replicate 32 (CHR 0x00))" by (simp add: sha3_hex_def E3_def)
  also have "\<dots> = z64" by code_simp
  finally show ?thesis .
qed

lemma digest_law_E3: "digest_law E3"
  by (simp add: digest_law_def E3_def)

lemma E3_simps [simp]: "ss_zero E3 = 0" "ss_insert E3 s x = s + 1" "ss_remove E3 s x = s - 1"
  "ss_add E3 = (+)" "ss_sub E3 = (-)"
  by (simp_all add: E3_def)

lemma E3_digits: "ss_hexdigest E3 = ss_hexdigest E0" "ss_from_hexdigest E3 = ss_from_hexdigest E0"
  by (simp_all add: E3_def)

lemma sum_laws_E3: "sum_laws E3"
  using sum_laws_E0 unfolding sum_laws_def E3_digits by (simp del: E0_simps(6-))

interpretation E3: setsum E3
  by unfold_locales (rule sum_laws_E3)

lemma z64_hex [simp]: "is_hex64 z64" by code_simp

lemma hexdigest_E3 [simp]: "ss_hexdigest E3 0 = z64" "ss_hexdigest E3 1 = o64"
proof -
  show "ss_hexdigest E3 0 = z64" by (simp add: E3_digits digits16_0 z64_def del: digits16.simps)
  have "digits16 (Suc 63) 1 = o64" by (simp add: digits16_0 o64_def) code_simp
  then show "ss_hexdigest E3 1 = o64" by (simp add: E3_digits del: digits16.simps)
qed

lemma o64_z64 [simp]: "o64 \<noteq> z64" "z64 \<noteq> o64"
proof -
  have "hd o64 \<noteq> hd z64" by (simp add: o64_def z64_def)
  then show "o64 \<noteq> z64" "z64 \<noteq> o64" by auto
qed

lemma m_sum_E3 [simp]: "m_sum E3 [] = 0" "m_sum E3 [(p, r)] = 1"
  by (simp_all add: m_sum_def records_def bt_values_def sum_of_records_def)

subsection \<open>The initialised repository\<close>

definition t0 :: tree where
  "t0 = \<lparr>tr_root = Dir [], tr_outside = []\<rparr>"

definition g0 :: repo where
  "g0 = \<lparr>rp_pool = [], rp_anchors = [(z64, m_to_bytes E3 [])],
     rp_forks = [(''main'', \<lparr>fd_file = fork_to_bytes \<lparr>ff_anchor = z64, ff_manifest = z64\<rparr>, fd_log = []\<rparr>)],
     rp_mirror = None, rp_tree = t0\<rparr>"

lemma fork_main [simp]: "validate_fork_name ''main'' = Ok ()" "validate_fork_name ''f'' = Ok ()"
  by code_simp+

lemma g0_init: "init E3 t0 = Ok g0"
  by (simp add: init_def init_bare_def write_anchor_manifest_def m_new_def create_fork_raw_def fork_empty_def
      bt_has_def g0_def fork_at_def)

definition st0 :: fork_state where
  "st0 = \<lparr>fs_manifest = [], fs_sum_hex = z64, fs_head_id = [], fs_lines = []\<rparr>"

lemma g0_fork: "read_fork g0 ''main'' = Ok \<lparr>ff_anchor = z64, ff_manifest = z64\<rparr>"
  by (simp add: read_fork_def g0_def fork_parse_bytes fork_valid_def)

lemma g0_anchor: "read_anchor_manifest E3 g0 z64 = Ok []"
  by (simp add: read_anchor_manifest_def g0_def E3.m_parse_to_bytes m_ok_def bt_ok_def m_utf8_def records_def bt_values_def)

lemma g0_state: "current_state E3 g0 ''main'' = Ok st0"
proof -
  have "scan_log E3 [] = ([], 0)" by (subst scan_log.simps) simp
  then show ?thesis
    by (simp add: current_state_def g0_fork g0_anchor read_log_def)
       (simp add: g0_def parse_log_lenient_def state_of_lines_def Let_def replay_start_def last_state_position_def
         rposition_def replay_lines_def check_first_def st0_def)
qed

lemma g0_ok [simp]: "pool_ok E3 (rp_pool g0)" "bt_ok (rp_forks g0)" "bt_ok (rp_anchors g0)"
  by (simp_all add: g0_def pool_ok_def bt_ok_def)

lemma g0_crashed [simp]: "crashed g0 = g0"
  by (simp add: crashed_def with_pool_def g0_def blob_crash_def)

subsection \<open>An applied intent\<close>

lemma r3_valid [simp]: "er_valid r3"
  by (simp add: r3_def er_valid_iff MODES_def)

lemma m3_ok [simp]: "m_ok [(''/a'', r3)]"
  by (simp add: m_ok_def bt_ok_def) (simp add: r3_def)

definition rz3 :: realization where
  "rz3 = \<lparr>realized = ll_realized l3, new_blobs = [(z64, ''x'')]\<rparr>"

lemma i3_applies: "apply_intent E3 i3 [] [] = Ok ([(''/a'', r3)], rz3)"
proof -
  have "decode ''eA=='' = Ok ''x''" by code_simp
  then show ?thesis
    by (simp add: i3_def apply_intent_def empty_realization_def m_get_def create_content_def
        er_new_def m_insert_def bt_has_def realize_def rz3_def l3_def r3_def)
qed

lemma a0_valid [simp]: "an_valid a0"
  by (simp add: a0_def an_valid_def)

lemma canonical_l3: "\<exists>c. canonical_json (line_to_value l3) = Ok c \<and> length c < 1000"
proof -
  have "case canonical_json (line_to_value l3) of Inl _ \<Rightarrow> False | Inr c \<Rightarrow> length c < 1000"
    by code_simp
  then show ?thesis by (auto split: sum.splits)
qed

lemma canonical_l4: "\<exists>c. canonical_json (line_to_value l4) = Ok c \<and> length c < 1000"
proof -
  have "case canonical_json (line_to_value l4) of Inl _ \<Rightarrow> False | Inr c \<Rightarrow> length c < 1000"
    by code_simp
  then show ?thesis by (auto split: sum.splits)
qed

lemma canonical_l5: "\<exists>c. canonical_json (line_to_value l5) = Ok c \<and> length c < 1000"
proof -
  have "case canonical_json (line_to_value l5) of Inl _ \<Rightarrow> False | Inr c \<Rightarrow> length c < 1000"
    by code_simp
  then show ?thesis by (auto split: sum.splits)
qed

lemma lines_differ: "canonical_json (line_to_value l3) \<noteq> canonical_json (line_to_value l4)"
  "canonical_json (line_to_value l3) \<noteq> canonical_json (line_to_value l5)"
  "canonical_json (line_to_value l4) \<noteq> canonical_json (line_to_value l5)"
  by code_simp+

lemma printable_texts: "utf8 (er_to_line r3)" "list_all printable s \<Longrightarrow> utf8 s"
proof -
  show "utf8 (er_to_line r3)"
    by (rule ascii_utf8) (auto simp: er_to_line_def r3_def z64_def byte_def TAB_def)
  show "list_all printable s \<Longrightarrow> utf8 s" by (rule text_closed_ascii [OF text_closed_utf8])
qed

lemma lines_utf8: "json_all utf8 (line_to_value l3)" "json_all utf8 (line_to_value l4)"
  "json_all utf8 (line_to_value l5)"
  using printable_texts
  by (simp_all add: line_to_value_def annotation_to_value_def l4_def l5_def l3_def i3_def a0_def z64_def o64_def
      intent_to_value_def realized_to_value_def str_or_null_def provenance_name_def origin_to_value_def
      printable_def byte_def list_all_iff)

lemma lines_readable [simp]: "readable E3 l3" "readable E3 l4" "readable E3 l5"
proof -
  show "readable E3 l5"
    using canonical_l5 lines_differ by (auto simp: readable_def json_reads_def lines_utf8 SPILL_THRESHOLD_def E3_def)
  show "readable E3 l4"
    using canonical_l4 by (auto simp: readable_def json_reads_def lines_utf8 SPILL_THRESHOLD_def E3_def)
  show "readable E3 l3"
    using canonical_l3 lines_differ by (auto simp: readable_def json_reads_def lines_utf8 SPILL_THRESHOLD_def E3_def)
qed

lemma seal_shape:
  assumes "canonical_json (line_to_value l) = Ok c" "length c < 1000"
    "case canonical_json (line_to_value (l\<lparr>ll_id := []\<rparr>)) of Inl _ \<Rightarrow> False | Inr c \<Rightarrow> length c < 1000"
    "is_ok (canonical_json (JObj (bt_remove ''id'' (case line_to_value (l\<lparr>ll_id := []\<rparr>) of JObj m \<Rightarrow> m | _ \<Rightarrow> []))))"
    "ll_id l = z64" "ll_committed_ms l = 7" "validate (l\<lparr>ll_id := [], ll_committed_ms := 0\<rparr>) = Ok ()"
  shows "seal E3 7 (l\<lparr>ll_id := [], ll_committed_ms := 0\<rparr>) pool = Ok (c @ [LF], l, pool)"
proof -
  let ?l = "l\<lparr>ll_id := []\<rparr>"
  from assms(3) obtain d where d: "canonical_json (line_to_value ?l) = Ok d" "length d < 1000"
    by (auto split: sum.splits)
  from assms(4) obtain e where e: "canonical_json (JObj (bt_remove ''id''
      (case line_to_value ?l of JObj m \<Rightarrow> m | _ \<Rightarrow> []))) = Ok e"
    by (auto simp: is_ok_iff)
  obtain m where m: "line_to_value ?l = JObj m" by (simp add: line_to_value_def)
  have i: "compute_id E3 ?l = Ok z64" using e by (simp add: compute_id_def record_id_def m)
  have w: "l\<lparr>ll_id := [], ll_committed_ms := 7\<rparr> = ?l" "l\<lparr>ll_id := z64\<rparr> = l"
    using assms(5,6) by simp_all
  have "spill_reads_if_needed E3 ?l pool = Ok (?l, pool)"
    using d by (simp add: spill_reads_if_needed_def SPILL_THRESHOLD_def)
  with assms(1,2,7) i w show ?thesis by (simp add: seal_def SPILL_THRESHOLD_def)
qed

lemma seal_l3: "\<exists>c. canonical_json (line_to_value l3) = Ok c \<and>
  seal E3 7 (new_line [] i3 (ll_realized l3) o64 0 a0) pool = Ok (c @ [LF], l3, pool)"
proof -
  obtain c where c: "canonical_json (line_to_value l3) = Ok c" "length c < 1000" using canonical_l3 by blast
  have 1: "case canonical_json (line_to_value (l3\<lparr>ll_id := []\<rparr>)) of Inl _ \<Rightarrow> False | Inr c \<Rightarrow> length c < 1000"
    by code_simp
  have 2: "is_ok (canonical_json (JObj (bt_remove ''id'' (case line_to_value (l3\<lparr>ll_id := []\<rparr>) of JObj m \<Rightarrow> m | _ \<Rightarrow> []))))"
    by code_simp
  have "new_line [] i3 (ll_realized l3) o64 0 a0 = l3\<lparr>ll_id := [], ll_committed_ms := 0\<rparr>"
    by (simp add: new_line_def l3_def)
  with seal_shape [OF c 1 2] c(1) show ?thesis by (simp add: l3_def validate_def a0_def i3_def)
qed

lemma seal_l4: "\<exists>c. canonical_json (line_to_value l4) = Ok c \<and>
  seal E3 7 (new_line [] i3 (ll_realized l3) o64 0 (ll_annotation l4)) pool = Ok (c @ [LF], l4, pool)"
proof -
  obtain c where c: "canonical_json (line_to_value l4) = Ok c" "length c < 1000" using canonical_l4 by blast
  have 1: "case canonical_json (line_to_value (l4\<lparr>ll_id := []\<rparr>)) of Inl _ \<Rightarrow> False | Inr c \<Rightarrow> length c < 1000"
    by code_simp
  have 2: "is_ok (canonical_json (JObj (bt_remove ''id'' (case line_to_value (l4\<lparr>ll_id := []\<rparr>) of JObj m \<Rightarrow> m | _ \<Rightarrow> []))))"
    by code_simp
  have "new_line [] i3 (ll_realized l3) o64 0 (ll_annotation l4) = l4\<lparr>ll_id := [], ll_committed_ms := 0\<rparr>"
    by (simp add: new_line_def l3_def l4_def)
  with seal_shape [OF c 1 2] c(1) show ?thesis by (simp add: l4_def l3_def validate_def a0_def i3_def)
qed

lemma seal_l5: "\<exists>c. canonical_json (line_to_value l5) = Ok c \<and>
  seal E3 7 (new_line z64 \<lparr>ops = []\<rparr> [] o64 0 a0) pool = Ok (c @ [LF], l5, pool)"
proof -
  obtain c where c: "canonical_json (line_to_value l5) = Ok c" "length c < 1000" using canonical_l5 by blast
  have 1: "case canonical_json (line_to_value (l5\<lparr>ll_id := []\<rparr>)) of Inl _ \<Rightarrow> False | Inr c \<Rightarrow> length c < 1000"
    by code_simp
  have 2: "is_ok (canonical_json (JObj (bt_remove ''id'' (case line_to_value (l5\<lparr>ll_id := []\<rparr>) of JObj m \<Rightarrow> m | _ \<Rightarrow> []))))"
    by code_simp
  have "new_line z64 \<lparr>ops = []\<rparr> [] o64 0 a0 = l5\<lparr>ll_id := [], ll_committed_ms := 0\<rparr>"
    by (simp add: new_line_def l5_def l3_def)
  with seal_shape [OF c 1 2] c(1) show ?thesis by (simp add: l5_def l3_def validate_def a0_def)
qed

text \<open>The two lines as a batch: whole in the pool's reading, each behind the other.\<close>

lemma batch_l3_l5:
  "\<exists>c d. list_all2 (stored_as E3 (rp_pool g0)) [c @ [LF], d @ [LF]] [l3, l5] \<and> d \<noteq> [] \<and> LF \<notin> set d \<and>
    lines_follow E3 (fs_head_id st0) (fs_manifest st0) [l3, l5] [(''/a'', r3)]"
proof -
  obtain c d where c: "seal E3 7 (new_line [] i3 (ll_realized l3) o64 0 a0) [] = Ok (c @ [LF], l3, [])"
    and d: "seal E3 7 (new_line z64 \<lparr>ops = []\<rparr> [] o64 0 a0) [] = Ok (d @ [LF], l5, [])"
      "canonical_json (line_to_value l5) = Ok d"
    using seal_l3 seal_l5 by blast
  have v: "ll_valid (new_line [] i3 (ll_realized l3) o64 0 a0)" "ll_valid (new_line z64 \<lparr>ops = []\<rparr> [] o64 0 a0)"
    by (simp_all add: ll_valid_def new_line_def)
  have s: "stored_as E3 [] (c @ [LF]) l3" "stored_as E3 [] (d @ [LF]) l5"
    using E3.sealed_stored_as [OF c v(1)] E3.sealed_stored_as [OF d(1) v(2)] by simp_all
  have "apply_realized_to_manifest [] (realized rz3) = Ok [(''/a'', r3)]"
    using apply_intent_realizes [OF _ i3_applies] by (simp add: m_ok_def bt_ok_def)
  then have f: "lines_follow E3 (fs_head_id st0) (fs_manifest st0) [l3, l5] [(''/a'', r3)]"
    by (simp add: st0_def rz3_def apply_realized_to_manifest_def l5_def) (simp add: l3_def)
  have "d \<noteq> []" using d(2) by (auto simp: line_to_value_def canonical_json_def)
  moreover have "LF \<notin> set d" by (rule canonical_no_LF [OF d(2)])
  ultimately show ?thesis using s f by (intro exI [of _ c] exI [of _ d]) (simp add: g0_def)
qed

lemma g0_prepare: "\<exists>c. canonical_json (line_to_value l3) = Ok c \<and>
  prepare_apply E3 7 ''main'' i3 a0 g0 = Ok (c @ [LF], l3, [(z64, ''x'', False)])"
proof -
  obtain c where j: "canonical_json (line_to_value l3) = Ok c" and
    c: "seal E3 7 (new_line [] i3 (ll_realized l3) o64 0 a0) [(z64, ''x'', False)] =
      Ok (c @ [LF], l3, [(z64, ''x'', False)])" using seal_l3 by blast
  have pb: "pool_blobs E3 [(z64, ''x'')] [] = Ok [(z64, ''x'', False)]"
    by (simp add: pool_blobs_def blob_put_unsynced_def blob_write_def path_for_def bt_has_def)
  have "apply_realized_to_sum E3 0 (ll_realized l3) = Ok 1"
    by (simp add: l3_def apply_realized_to_sum_def entry_to_sum_def removed_def added_def remove_side_sum_def insert_side_sum_def)
  with c pb have "prepare_apply E3 7 ''main'' i3 a0 g0 = Ok (c @ [LF], l3, [(z64, ''x'', False)])"
    by (simp add: prepare_apply_def g0_state)
       (simp add: g0_def st0_def i3_applies rz3_def)
  with j show ?thesis by blast
qed

text \<open>The repository after it: the one line in the log, the one file in the state.\<close>

definition g3 :: repo where
  "g3 = snd (projr (apply_inner E3 7 ''main'' i3 a0 False g0))"

lemma g3_applied: "apply_inner E3 7 ''main'' i3 a0 False g0 = Ok (l3, g3)"
  using g0_prepare by (auto simp: apply_inner_def g3_def)

definition st3 :: fork_state where
  "st3 = \<lparr>fs_manifest = [(''/a'', r3)], fs_sum_hex = o64, fs_head_id = z64, fs_lines = [l3]\<rparr>"

lemma g3_state: "current_state E3 g3 ''main'' = Ok st3" "current_state E3 (crashed g3) ''main'' = Ok st3"
proof -
  obtain m' rz st' where f: "apply_intent E3 i3 (fs_manifest st0) (rp_pool g0) = Ok (m', rz)"
    "current_state E3 g3 ''main'' = Ok st'" "current_state E3 (crashed g3) ''main'' = Ok st'"
    "follows E3 z64 st0 l3 m' st'"
    using E3.apply_inner_Ok [OF g3_applied _ _ _ _ g0_fork, of st0] g0_state by auto
  then have "m' = [(''/a'', r3)]" by (simp add: st0_def g0_def i3_applies)
  with f(4) have "st' = st3" by (simp add: follows_def st0_def st3_def l3_def)
  with f show "current_state E3 g3 ''main'' = Ok st3" "current_state E3 (crashed g3) ''main'' = Ok st3"
    by simp_all
qed


subsection \<open>A second fork with the same log\<close>

lemma g3_shape: "\<exists>d. rp_forks g3 = [(''main'', d)] \<and> rp_pool g3 = [(z64, ''x'', True)] \<and>
  rp_anchors g3 = rp_anchors g0 \<and> fd_file d = fork_to_bytes \<lparr>ff_anchor = z64, ff_manifest = z64\<rparr> \<and>
  (\<exists>c. canonical_json (line_to_value l3) = Ok c \<and> fd_log d = c @ [LF])"
proof -
  obtain c where j: "canonical_json (line_to_value l3) = Ok c" and
    c: "prepare_apply E3 7 ''main'' i3 a0 g0 = Ok (c @ [LF], l3, [(z64, ''x'', False)])"
    using g0_prepare by blast
  have "set_log ''main'' (take n) g0 = g0" for n by (simp add: set_log_def g0_def)
  then have "recover E3 ''main'' g0 = g0" by (simp add: recover_def split: sum.split)
  then show ?thesis
    by (simp add: g3_def apply_inner_def c append_log_def with_pool_def blob_sync_def)
       (simp add: set_log_def g0_def j)
qed

definition d3 :: fork_dir where
  "d3 = snd (hd (rp_forks g3))"

lemma g3_forks: "rp_forks g3 = [(''main'', d3)]" "fd_file d3 = fork_to_bytes \<lparr>ff_anchor = z64, ff_manifest = z64\<rparr>"
  "rp_pool g3 = [(z64, ''x'', True)]" "rp_anchors g3 = rp_anchors g0"
  "\<exists>c. canonical_json (line_to_value l3) = Ok c \<and> fd_log d3 = c @ [LF]"
  using g3_shape by (auto simp: d3_def)

definition g4 :: repo where
  "g4 = g3\<lparr>rp_forks := [(''f'', d3), (''main'', d3)]\<rparr>"

lemma g3_fork: "read_fork g3 ''main'' = Ok \<lparr>ff_anchor = z64, ff_manifest = z64\<rparr>"
  by (simp add: read_fork_def g3_forks fork_parse_bytes fork_valid_def)

lemma g4_state: "current_state E3 g4 ''f'' = Ok st3" "current_state E3 g4 ''main'' = Ok st3"
proof -
  have "current_state E3 g4 n = current_state E3 g3 ''main''" if "n = ''f'' \<or> n = ''main''" for n
  proof -
    have "read_fork g4 n = read_fork g3 ''main''" "read_log E3 g4 n = read_log E3 g3 ''main''"
      using that by (auto simp: read_fork_def read_log_def g4_def g3_forks)
    moreover have "read_anchor_manifest E3 g4 = read_anchor_manifest E3 g3"
      by (simp add: fun_eq_iff read_anchor_manifest_def g4_def)
    ultimately show ?thesis unfolding current_state_def by (simp only:)
  qed
  then show "current_state E3 g4 ''f'' = Ok st3" "current_state E3 g4 ''main'' = Ok st3"
    by (simp_all add: g3_state)
qed

lemma g3_names: "fork_names g3 = [''main'']"
  by (simp add: fork_names_def g3_forks bt_keys_def)

lemma g4_removable: "remove_fork E3 ''f'' False g4 = Ok (g4\<lparr>rp_forks := [(''main'', d3)]\<rparr>)"
proof -
  have "fork_names g4 = [''f'', ''main'']"
    by (simp add: fork_names_def g4_def bt_keys_def)
  then have "carried_elsewhere E3 g4 ''f'' = Ok {z64}"
    by (simp add: carried_elsewhere_def g4_state) (simp add: st3_def carried_ids_def l3_def a0_def)
  then show ?thesis
    by (simp add: remove_fork_def g4_state) (simp add: st3_def g4_def bt_has_def bt_remove_def l3_def)
qed

lemma g3_segments: "lineage_segments E3 g3 ''main'' None [] = Ok [(''main'', [l3])]"
  by (subst lineage_segments.simps) (simp add: g3_fork g3_state zero_hex_def up_to_def st3_def Let_def)

lemma g3_unsnapshotted: "unsnapshotted E3 g3 ns"
proof -
  have m: "n = ''main''" if "read_fork g3 n = Ok ff" for n ff
    using that by (auto simp: read_fork_def g3_forks split: if_splits)
  have "replay_start (fs_lines st3) z64 = 0"
    by (simp add: st3_def replay_start_def last_state_position_def rposition_def l3_def)
  then show ?thesis
    unfolding unsnapshotted_def using m g3_fork g3_state by fastforce
qed


subsection \<open>A fork ahead of main, and its union\<close>

definition d5 :: fork_dir where
  "d5 = \<lparr>fd_file = fork_to_bytes \<lparr>ff_anchor = z64, ff_manifest = z64\<rparr>, fd_log = []\<rparr>"

definition g5 :: repo where
  "g5 = g3\<lparr>rp_forks := [(''f'', d3), (''main'', d5)]\<rparr>"

lemma g5_state: "current_state E3 g5 ''f'' = Ok st3" "current_state E3 g5 ''main'' = Ok st0"
proof -
  have a: "read_anchor_manifest E3 g5 = read_anchor_manifest E3 g3" "read_anchor_manifest E3 g5 = read_anchor_manifest E3 g0"
    by (simp_all add: fun_eq_iff read_anchor_manifest_def g5_def g3_forks)
  have "read_fork g5 ''f'' = read_fork g3 ''main''" "read_log E3 g5 ''f'' = read_log E3 g3 ''main''"
    by (simp_all add: read_fork_def read_log_def g5_def g3_forks)
  then show "current_state E3 g5 ''f'' = Ok st3"
    using g3_state(1) a(1) unfolding current_state_def by (simp only:)
  have l: "read_log E3 g ''main'' = Ok \<lparr>pl_lines = [], pl_valid_prefix = 0\<rparr>"
    if "bt_get (rp_forks g) ''main'' = Some d5" for g
  proof -
    have "scan_log E3 [] = ([], 0)" by (subst scan_log.simps) simp
    with that show ?thesis by (simp add: read_log_def d5_def parse_log_lenient_def)
  qed
  have "read_fork g5 ''main'' = read_fork g0 ''main''" "read_log E3 g5 ''main'' = read_log E3 g0 ''main''"
    using l [of g5] l [of g0] by (simp_all add: read_fork_def g5_def g0_def d5_def)
  then show "current_state E3 g5 ''main'' = Ok st0"
    using g0_state a(2) unfolding current_state_def by (simp only:)
qed

lemma g5_ok [simp]: "pool_ok E3 (rp_pool g5)" "bt_ok (rp_forks g5)" "crashed g5 = g5"
  by (simp_all add: g5_def g3_forks pool_ok_def bt_ok_def crashed_def with_pool_def blob_crash_def)

lemma g5_fork: "read_fork g5 ''main'' = Ok \<lparr>ff_anchor = z64, ff_manifest = z64\<rparr>"
  "read_fork g5 ''f'' = Ok \<lparr>ff_anchor = z64, ff_manifest = z64\<rparr>"
  by (simp_all add: read_fork_def g5_def g3_forks d5_def fork_parse_bytes fork_valid_def)

lemma l3_applies: "apply_realized_to_manifest [] (ll_realized l3) = Ok [(''/a'', r3)]"
  using apply_intent_realizes [OF _ i3_applies] by (simp add: rz3_def m_ok_def bt_ok_def)

lemma l3_sum: "apply_realized_to_sum E3 0 (ll_realized l3) = Ok 1"
  by (simp add: l3_def apply_realized_to_sum_def entry_to_sum_def removed_def added_def
      remove_side_sum_def insert_side_sum_def)

definition out5 :: union_outcome where
  "out5 = \<lparr>uo_already_identical = False,
     uo_landed = [\<lparr>ld_line = l4, ld_origin_id = z64, ld_stratum = RealizedReplay\<rparr>],
     uo_needs_reenactment = None, uo_semantic_conflicts = []\<rparr>"

lemma g5_union: "\<exists>r'. union E3 7 ''f'' ''main'' ''me'' g5 = Ok (out5, r')"
proof -
  let ?r1 = "recover E3 ''f'' g5" and ?r2 = "recover E3 ''main'' (recover E3 ''f'' g5)"
  have "with_pool (rp_pool g5) ?r1 = ?r1" by (simp add: with_pool_def)
  then have ts: "current_state E3 ?r1 ''main'' = Ok st0"
    using recovered_fork [OF g5_state(2) g5_ok(2), of "rp_pool g5" "''f''"] by simp
  have ff: "read_fork ?r2 ''f'' = Ok \<lparr>ff_anchor = z64, ff_manifest = z64\<rparr>"
    by (simp add: recover_fork recover_forks_ok g5_fork)
  obtain c where c: "seal E3 7 (new_line [] i3 (ll_realized l3) o64 0 (ll_annotation l4)) (rp_pool g5) = Ok (c @ [LF], l4, rp_pool g5)"
    using seal_l4 by blast
  have an: "union_annotation ''me'' ''f'' rk l3 = ll_annotation l4" for rk
    by (simp add: union_annotation_def l4_def l3_def a0_def Let_def)
  have wp: "write_paths l4 = Ok [''/a'']"
    by (simp add: write_paths_def l4_def l3_def removed_def added_def path_of_side_def) (simp add: r3_def bs_insert_def insort_insert_key_def)
  have ids: "ll_id l3 = z64" "ll_id l4 = z64" "ll_intent l3 = i3" by (simp_all add: l3_def l4_def)
  have st: "union_step E3 7 ''me'' ''f'' [] l3 \<lparr>ur_batch = batch_start E3 st0 (rp_pool g5), ur_staged = [],
      ur_writers = [], ur_rekey = [], ur_conflicts = []\<rparr> = Ok (Some \<lparr>ur_batch = \<lparr>br_manifest = [(''/a'', r3)],
        br_sum = 1, br_prev = z64, br_bytes = c @ [LF], br_lines = [l4], br_pool = rp_pool g5\<rparr>,
      ur_staged = [\<lparr>ld_line = l4, ld_origin_id = z64, ld_stratum = RealizedReplay\<rparr>],
      ur_writers = [(''/a'', z64)], ur_rekey = [(z64, z64)], ur_conflicts = []\<rparr>)"
    using c by (simp add: union_step_def Let_def batch_start_def st0_def replay_line_def l3_applies l3_sum an wp
        note_stale_reads_def ids)
  have lines: "fs_lines st3 = [l3]" "fs_lines st0 = []" "fs_manifest st3 = [(''/a'', r3)]" "fs_manifest st0 = []"
    by (simp_all add: st3_def st0_def)
  have f: "bt_get (rp_forks g5) ''main'' \<noteq> None" by (simp add: g5_def)
  have "read_fork ?r2 ''main'' = Ok \<lparr>ff_anchor = z64, ff_manifest = z64\<rparr>"
    by (simp add: recover_fork recover_forks_ok g5_fork)
  then obtain d where d: "bt_get (rp_forks ?r2) ''main'' = Some d" by (auto simp: read_fork_def)
  have "travels [] False l3" by (simp add: travels_def)
  then show ?thesis
    using f d by (auto simp: union_def g5_state ts ff lines st last_state_position_def rposition_def carried_start_def
        concurrent_writes_def append_sealed_locked_def out5_def Let_def)
qed


lemma g5_landed:
  assumes u: "union E3 7 ''f'' ''main'' ''me'' g5 = Ok (out5, r')"
  shows "\<exists>st. current_state E3 r' ''main'' = Ok st \<and> fs_lines st = [l4] \<and> fs_manifest st = [(''/a'', r3)] \<and>
    current_state E3 r' ''f'' = Ok st3"
proof -
  have c: "current_state E3 (crashed g5) ''main'' = Ok st0" "current_state E3 (crashed g5) ''f'' = Ok st3"
    by (simp_all add: g5_state)
  have a: "\<forall>d \<in> set (uo_landed out5). ll_sum_after (ld_line d) \<noteq> z64" by (simp add: out5_def l4_def l3_def)
  have o: "uo_landed out5 \<noteq> []" "\<forall>d \<in> set (uo_landed out5). readable E3 (ld_line d)" by (simp_all add: out5_def)
  from E3.union_landed [OF u o(1) g5_ok(1,2) o(2) g5_fork(1) _ c(1)] a obtain st where
    "current_state E3 r' ''main'' = Ok st" "fs_lines st = fs_lines st0 @ map ld_line (uo_landed out5)"
    "lines_follow E3 (fs_head_id st0) (fs_manifest st0) (map ld_line (uo_landed out5)) (fs_manifest st)"
    "current_state E3 r' ''f'' = Ok st3" using c(2) by auto
  moreover have "ll_realized l4 = ll_realized l3" by (simp add: l4_def)
  ultimately show ?thesis using l3_applies by (auto simp: out5_def st0_def)
qed

lemma g5_union_again:
  assumes u: "union E3 7 ''f'' ''main'' ''me'' g5 = Ok (out5, r')"
  shows "\<exists>out2 r2. union E3 7 ''f'' ''main'' ''me'' r' = Ok (out2, r2)"
proof -
  let ?r1 = "recover E3 ''f'' r'" and ?r2 = "recover E3 ''main'' (recover E3 ''f'' r')"
  from g5_landed [OF u] obtain st where st: "current_state E3 r' ''main'' = Ok st" "fs_lines st = [l4]"
    "fs_manifest st = [(''/a'', r3)]" "current_state E3 r' ''f'' = Ok st3" by blast
  have ok: "bt_ok (rp_forks r')" using union_forks_ok [OF u] by simp
  have "with_pool (rp_pool r') ?r1 = ?r1" by (simp add: with_pool_def)
  then have ts: "current_state E3 ?r1 ''main'' = Ok st"
    using recovered_fork [OF st(1) ok, of "rp_pool r'" "''f''"] by simp
  obtain d ff where d: "bt_get (rp_forks r') ''main'' = Some d" "read_fork r' ''f'' = Ok ff"
    using st(1,4) by (auto simp: current_state_def read_fork_def)
  have ff: "read_fork ?r2 ''f'' = Ok ff" by (simp add: recover_fork recover_forks_ok ok d)
  have wp: "write_paths l4 = Ok [''/a'']"
    by (simp add: write_paths_def l4_def l3_def removed_def added_def path_of_side_def)
       (simp add: r3_def bs_insert_def insort_insert_key_def)
  have "is_ok (concurrent_writes (drop k [l4]))" for k
    by (cases k) (simp_all add: concurrent_writes_def wp)
  moreover have "carried_start ''f'' [l4] = ([z64, z64], [(z64, z64)])"
    by (simp add: carried_start_def l4_def l3_def)
  moreover have "\<not> travels [z64, z64] i l3" for i by (simp add: travels_def l3_def)
  moreover have "fs_lines st3 = [l3]" "fs_manifest st3 = [(''/a'', r3)]" by (simp_all add: st3_def)
  ultimately have "is_ok (union E3 7 ''f'' ''main'' ''me'' r')"
    by (auto simp: union_def st ts ff d Let_def append_sealed_locked_def is_ok_iff split: option.splits)
  then show ?thesis by (cases "union E3 7 ''f'' ''main'' ''me'' r'") auto
qed

end
