(* ===== verification/Objects.thy ===== *)
theory Objects
  imports Serve
begin

text \<open>
  The dumb server of \<open>src/src/wire.rs\<close>: the \<open>ObjectStore\<close> trait as an interface
  (locale \<open>object_store\<close>), the directory-backed \<open>FsStore\<close> as its provider, and the
  listing read \<open>remote_latest\<close>.  The crate \<open>object_store\<close> is not under src/: its
  path parser is the parameter \<open>parse\<close>, and of its local file system the model
  uses what its documentation promises (create mode refuses an existing name, a
  prefix matches whole path segments).
\<close>

subsection \<open>The interface\<close>

text \<open>
  What a client relies on: a put-if-absent succeeds exactly on absent names, what
  was put is what is read, and no name changes or goes away.
\<close>

locale object_store =
  fixes ok :: "'st \<Rightarrow> bool" and get :: "'st \<Rightarrow> string \<Rightarrow> bytes option result"
    and put_if_absent :: "string \<Rightarrow> bytes \<Rightarrow> 'st \<Rightarrow> (bool \<times> 'st) result"
  assumes put_ok: "ok s \<Longrightarrow> put_if_absent n b s = Ok (won, s') \<Longrightarrow> ok s'"
    and put_won: "ok s \<Longrightarrow> put_if_absent n b s = Ok (won, s') \<Longrightarrow> won \<longleftrightarrow> get s n = Ok None"
    and put_get: "ok s \<Longrightarrow> put_if_absent n b s = Ok (won, s') \<Longrightarrow>
      get s' m = (if m = n \<and> won then Ok (Some b) else get s m)"
    and put_total: "ok s \<Longrightarrow> get s n = Ok x \<Longrightarrow> \<exists>r. put_if_absent n b s = Ok r"
begin

text \<open>An object is written once: later puts under any name leave it.\<close>

lemma put_keeps:
  "ok s \<Longrightarrow> put_if_absent n b s = Ok (won, s') \<Longrightarrow> get s m = Ok (Some c) \<Longrightarrow> get s' m = Ok (Some c)"
  using put_won put_get by (metis Inr_inject option.distinct(1))

lemma put_adds: "ok s \<Longrightarrow> put_if_absent n b s = Ok (True, s') \<Longrightarrow> get s' n = Ok (Some b)"
  by (simp add: put_get)

lemma lost_unchanged: "ok s \<Longrightarrow> put_if_absent n b s = Ok (False, s') \<Longrightarrow> get s' m = get s m"
  by (simp add: put_get)

text \<open>Of two puts of one name, the second loses.\<close>

lemma second_loses:
  "ok s \<Longrightarrow> put_if_absent n b s = Ok (won, s') \<Longrightarrow> \<exists>s''. put_if_absent n c s' = Ok (False, s'') \<or>
     (\<exists>e. put_if_absent n c s' = Err e)"
proof -
  assume a: "ok s" "put_if_absent n b s = Ok (won, s')"
  show ?thesis
  proof (cases "put_if_absent n c s'")
    case (Inr p)
    then obtain won2 s2 where p: "put_if_absent n c s' = Ok (won2, s2)" by (cases p) auto
    have "get s' n \<noteq> Ok None" using put_get [OF a, of n] put_won [OF a] by auto
    with put_won [OF put_ok [OF a] p] p show ?thesis by auto
  qed auto
qed

end

subsection \<open>The directory store\<close>

type_synonym objects = "(string, bytes) btree"

definition path_of :: "(string \<Rightarrow> bool) \<Rightarrow> string \<Rightarrow> unit result" where
  "path_of parse name =
     (if starts_with ''/'' name \<or> list_ex (\<lambda>c. c = ''..'' \<or> c = ''.'' \<or> c = []) (split_on CHR ''/'' name)
      then Err Invalid
      else if \<not> parse name then Err Invalid else Ok ())"

definition fs_get :: "(string \<Rightarrow> bool) \<Rightarrow> objects \<Rightarrow> string \<Rightarrow> bytes option result" where
  "fs_get parse s name = rbind (path_of parse name) (\<lambda>_. Ok (bt_get s name))"

definition fs_put_if_absent :: "(string \<Rightarrow> bool) \<Rightarrow> string \<Rightarrow> bytes \<Rightarrow> objects \<Rightarrow> (bool \<times> objects) result" where
  "fs_put_if_absent parse name bs s =
     rbind (path_of parse name) (\<lambda>_.
     if bt_has s name then Ok (False, s) else Ok (True, bt_insert name bs s))"

definition fs_put :: "(string \<Rightarrow> bool) \<Rightarrow> string \<Rightarrow> bytes \<Rightarrow> objects \<Rightarrow> objects result" where
  "fs_put parse name bs s = rmap snd (fs_put_if_absent parse name bs s)"

definition fs_list :: "(string \<Rightarrow> bool) \<Rightarrow> objects \<Rightarrow> string \<Rightarrow> string list result" where
  "fs_list parse s prefix =
     rbind (path_of parse prefix) (\<lambda>_. Ok (sort (filter (starts_with (prefix @ ''/'')) (bt_keys s))))"

definition fs_exists :: "(string \<Rightarrow> bool) \<Rightarrow> objects \<Rightarrow> string \<Rightarrow> bool result" where
  "fs_exists parse s name = rbind (path_of parse name) (\<lambda>_. Ok (bt_has s name))"

interpretation fs: object_store bt_ok "fs_get parse" "fs_put_if_absent parse"
  by unfold_locales
    (auto simp: fs_get_def fs_put_if_absent_def bt_has_def bt_ok_insert bt_get_insert split: if_splits)

subsection \<open>The latest manifest by listing\<close>

definition manifest_seq_of :: "string \<Rightarrow> nat option" where
  "manifest_seq_of name =
     Option.bind (strip_prefix ''manifest/'' name) (\<lambda>n.
     Option.bind (strip_suffix ''.json'' n) parse_u64)"

definition best_manifest :: "string list \<Rightarrow> (nat \<times> string) option" where
  "best_manifest names = fold (\<lambda>name best. case manifest_seq_of name of
       None \<Rightarrow> best
     | Some seq \<Rightarrow> (case best of
           None \<Rightarrow> Some (seq, name)
         | Some (b, _) \<Rightarrow> if seq > b then Some (seq, name) else best)) names None"

definition remote_latest ::
  "'s env \<Rightarrow> (string \<Rightarrow> string list result) \<Rightarrow> (string \<Rightarrow> bytes option result) \<Rightarrow> serve_manifest option result" where
  "remote_latest E ls get =
     rbind (ls ''manifest'') (\<lambda>names.
     case best_manifest names of
       None \<Rightarrow> Ok None
     | Some (_, name) \<Rightarrow>
         rbind (get name) (\<lambda>x. rbind (ok_or Corrupt x) (\<lambda>bs. rmap Some (sm_parse E bs))))"

lemma best_manifest_max:
  "best_manifest names = Some (n, name) \<Longrightarrow>
     name \<in> set names \<and> manifest_seq_of name = Some n \<and>
     (\<forall>m \<in> set names. \<forall>k. manifest_seq_of m = Some k \<longrightarrow> k \<le> n)"
proof (induction names arbitrary: n name rule: rev_induct)
  case (snoc x names)
  show ?case
  proof (cases "best_manifest names")
    case None
    have none: "manifest_seq_of m = None" if "m \<in> set names" for m
      using None that
    proof (induction names rule: rev_induct)
      case (snoc y names)
      then show ?case by (auto simp: best_manifest_def split: option.splits if_splits)
    qed simp
    with None snoc.prems show ?thesis
      by (auto simp: best_manifest_def split: option.splits)
  next
    case (Some p)
    with snoc show ?thesis
      by (cases p) (fastforce simp: best_manifest_def split: option.splits if_splits)
  qed
qed (simp add: best_manifest_def)

definition manifest_name :: "nat \<Rightarrow> string" where
  "manifest_name seq = ''manifest/'' @ show_nat seq @ ''.json''"

lemma manifest_name_inj [simp]: "manifest_name a = manifest_name b \<longleftrightarrow> a = b"
proof
  assume "manifest_name a = manifest_name b"
  then have "show_nat a = show_nat b" by (simp add: manifest_name_def)
  then show "a = b" using show_nat_value by metis
qed simp

lemma manifest_seq_of_name: "n < 2 ^ 64 \<Longrightarrow> manifest_seq_of (manifest_name n) = Some n"
proof -
  assume n: "n < 2 ^ 64"
  have "strip_prefix ''manifest/'' (manifest_name n) = Some (show_nat n @ ''.json'')"
    unfolding manifest_name_def by (rule strip_prefix_append)
  then show ?thesis
    using n strip_suffix_append [of "''.json''" "show_nat n"] by (simp add: manifest_seq_of_def parse_u64_show)
qed

end
