(* ===== verification/Remote.thy ===== *)
theory Remote
  imports Objects
begin

text \<open>
  \<open>src/src/remote.rs\<close>: the client's cache of a store, the discovery of the latest
  manifest by probing forward from the cached one, and the view of what the live
  segments hold.  Main results: discovery always ends (the sequence number is a
  64-bit counter), what it returns is an authenticated extension of where it
  started and the tip of the chain; an accepted view is a set of blobs (no blob
  twice), every construct's base is live, and the depth of a construct is one
  more than its base's, so construct chains are acyclic.
\<close>

subsection \<open>The cache\<close>

text \<open>
  The files of the cache directory: each is written atomically by
  \<open>write_atomic\<close> (a rename), so a reader sees a whole file or none.
\<close>

record remote_cache =
  rc_manifest :: "bytes option"
  rc_synced :: "bytes option"
  rc_idx :: "(string, bytes) btree"
  rc_pk :: "(string, bytes) btree"

definition cache_empty :: remote_cache where
  "cache_empty = \<lparr>rc_manifest = None, rc_synced = None, rc_idx = [], rc_pk = []\<rparr>"

definition result_ok :: "'e + 'a \<Rightarrow> 'a option" where
  "result_ok r = (case r of Err _ \<Rightarrow> None | Ok x \<Rightarrow> Some x)"

definition cache_manifest :: "'s env \<Rightarrow> remote_cache \<Rightarrow> serve_manifest option" where
  "cache_manifest E c = Option.bind (rc_manifest c) (\<lambda>bs. result_ok (sm_parse E bs))"

definition cache_invalidate :: "remote_cache \<Rightarrow> remote_cache" where
  "cache_invalidate c = c\<lparr>rc_manifest := None, rc_synced := None\<rparr>"

definition cache_set_manifest :: "serve_manifest \<Rightarrow> remote_cache \<Rightarrow> remote_cache result" where
  "cache_set_manifest m c = rmap (\<lambda>bs. c\<lparr>rc_manifest := Some bs\<rparr>) (sm_to_bytes m)"

text \<open>A cached object that still has its hash, or the store's, authenticated.\<close>

definition fetch_authentic ::
  "'s env \<Rightarrow> (string \<Rightarrow> bytes option result) \<Rightarrow> string \<Rightarrow> string \<Rightarrow> bytes result" where
  "fetch_authentic E get name h =
     rbind (get name) (\<lambda>x. rbind (ok_or Corrupt x) (\<lambda>bs.
     if sha3_hex E bs \<noteq> h then Err Corrupt else Ok bs))"

definition cached_authentic :: "'s env \<Rightarrow> bytes option \<Rightarrow> string \<Rightarrow> bytes option" where
  "cached_authentic E x h = (case x of
       Some bs \<Rightarrow> if sha3_hex E bs = h then Some bs else None
     | None \<Rightarrow> None)"

definition cache_idx ::
  "'s env \<Rightarrow> (string \<Rightarrow> bytes option result) \<Rightarrow> string \<Rightarrow> segment_meta \<Rightarrow> remote_cache \<Rightarrow>
   (bytes \<times> remote_cache) result" where
  "cache_idx E get segid meta c =
     (case cached_authentic E (bt_get (rc_idx c) (me_idx_sha3 meta)) (me_idx_sha3 meta) of
        Some bs \<Rightarrow> Ok (bs, c)
      | None \<Rightarrow>
          rbind (fetch_authentic E get (''seg/'' @ segid @ ''.idx'') (me_idx_sha3 meta)) (\<lambda>bs.
          Ok (bs, c\<lparr>rc_idx := bt_insert (me_idx_sha3 meta) bs (rc_idx c)\<rparr>)))"

definition cache_pk ::
  "'s env \<Rightarrow> (string \<Rightarrow> bytes option result) \<Rightarrow> string \<Rightarrow> segment_meta \<Rightarrow> remote_cache \<Rightarrow> bytes result" where
  "cache_pk E get segid meta c =
     (case cached_authentic E (bt_get (rc_pk c) segid) (me_pk_sha3 meta) of
        Some bs \<Rightarrow> Ok bs
      | None \<Rightarrow> fetch_authentic E get (''seg/'' @ segid @ ''.pk'') (me_pk_sha3 meta))"

definition cache_keep_idx :: "string \<Rightarrow> bytes \<Rightarrow> remote_cache \<Rightarrow> remote_cache" where
  "cache_keep_idx h bs c = c\<lparr>rc_idx := bt_insert h bs (rc_idx c)\<rparr>"

definition cache_keep_pk :: "string \<Rightarrow> bytes \<Rightarrow> remote_cache \<Rightarrow> remote_cache" where
  "cache_keep_pk segid bs c = c\<lparr>rc_pk := bt_insert segid bs (rc_pk c)\<rparr>"

definition cache_prune_pk :: "serve_manifest \<Rightarrow> remote_cache \<Rightarrow> remote_cache" where
  "cache_prune_pk m c = c\<lparr>rc_pk := filter (\<lambda>(k, _). bt_has (sm_segments m) k) (rc_pk c)\<rparr>"

text \<open>The synced heads: a JSON object of strings; what does not parse is empty.\<close>

definition synced_heads :: "'s env \<Rightarrow> remote_cache \<Rightarrow> (string, string) btree" where
  "synced_heads E c = (case rc_synced c of
       None \<Rightarrow> []
     | Some bs \<Rightarrow> (case Option.bind (json_parse E bs) (\<lambda>v. result_ok (map_of_value str_of v)) of
           None \<Rightarrow> [] | Some m \<Rightarrow> m))"

definition set_synced_heads :: "'s env \<Rightarrow> (string, string) btree \<Rightarrow> remote_cache \<Rightarrow> remote_cache result" where
  "set_synced_heads E heads c =
     (let all = fold (\<lambda>(fork, head). bt_insert fork head) heads (synced_heads E c) in
      rmap (\<lambda>bs. c\<lparr>rc_synced := Some bs\<rparr>)
        (canonical_json (JObj (map (\<lambda>(k, v). (k, JStr v)) all))))"

subsection \<open>Discovery\<close>

text \<open>
  Probing forward: \<open>current.seq + 1\<close> on a 64-bit counter (past the last value the
  addition panics, as in a build with overflow checks).
\<close>

function probe :: "'s env \<Rightarrow> (string \<Rightarrow> bytes option result) \<Rightarrow> serve_manifest \<Rightarrow> serve_manifest result" where
  "probe E get current =
     (if sm_seq current + 1 \<ge> 2 ^ 64 then Err Panic else
      rbind (get (manifest_name (sm_seq current + 1))) (\<lambda>x. case x of
          None \<Rightarrow> Ok current
        | Some bs \<Rightarrow>
            rbind (sm_parse E bs) (\<lambda>next.
            if sm_seq next \<noteq> sm_seq current + 1 \<or> sm_prev next \<noteq> sm_id current then Err Corrupt
            else probe E get next)))"
  by pat_completeness auto
termination
  by (relation "measure (\<lambda>(E, get, m). 2 ^ 64 - sm_seq m)") auto

declare probe.simps [simp del]

text \<open>The cached manifest, if the store still holds it.\<close>

definition confirmed ::
  "'s env \<Rightarrow> (string \<Rightarrow> bytes option result) \<Rightarrow> serve_manifest \<Rightarrow> serve_manifest option result" where
  "confirmed E get cached =
     rmap (\<lambda>x. case x of
         None \<Rightarrow> None
       | Some bs \<Rightarrow> (case sm_parse E bs of
             Ok remote \<Rightarrow> if sm_id remote = sm_id cached then Some remote else None
           | Err _ \<Rightarrow> None))
       (get (manifest_name (sm_seq cached)))"

definition warm_start ::
  "'s env \<Rightarrow> (string \<Rightarrow> bytes option result) \<Rightarrow> remote_cache \<Rightarrow> (serve_manifest option \<times> remote_cache) result" where
  "warm_start E get c = (case cache_manifest E c of
       None \<Rightarrow> Ok (None, c)
     | Some cached \<Rightarrow>
         rmap (\<lambda>w. (w, if w = None then cache_invalidate c else c)) (confirmed E get cached))"

definition discover ::
  "'s env \<Rightarrow> (string \<Rightarrow> string list result) \<Rightarrow> (string \<Rightarrow> bytes option result) \<Rightarrow> remote_cache \<Rightarrow>
   (serve_manifest option \<times> remote_cache) result" where
  "discover E ls get c =
     rbind (warm_start E get c) (\<lambda>(warm, c).
     rbind (case warm of Some m \<Rightarrow> Ok (Some m) | None \<Rightarrow> remote_latest E ls get) (\<lambda>start. case start of
         None \<Rightarrow> Ok (None, c)
       | Some m \<Rightarrow>
           rbind (probe E get m) (\<lambda>current.
           rmap (Pair (Some current)) (cache_set_manifest current c))))"

subsection \<open>The view\<close>

record remote_view =
  rv_manifest :: "serve_manifest option"
  rv_entries :: "(string, idx_entry list) btree"
  rv_blobs :: "(string, string) btree"
  rv_depth :: "(string, nat) btree"

definition view_empty :: remote_view where
  "view_empty = \<lparr>rv_manifest = None, rv_entries = [], rv_blobs = [], rv_depth = []\<rparr>"

type_synonym blob_tables = "(string, string) btree \<times> (string, string) btree"

text \<open>One entry: its blob is new, and a construct's base is noted.\<close>

definition view_entry :: "string \<Rightarrow> idx_entry \<Rightarrow> blob_tables \<Rightarrow> blob_tables result" where
  "view_entry segid e t = (case t of (blobs, bases) \<Rightarrow> (case ie_enc e of
       Lines _ _ \<Rightarrow> Ok (blobs, bases)
     | enc \<Rightarrow>
         if bt_has blobs (ie_sha3 e) then Err Corrupt else
         Ok (bt_insert (ie_sha3 e) segid blobs,
             (case enc of Construct base _ \<Rightarrow> bt_insert (ie_sha3 e) base bases | _ \<Rightarrow> bases))))"

record view_load =
  vl_entries :: "(string, idx_entry list) btree"
  vl_tables :: blob_tables
  vl_cache :: remote_cache

definition view_segment ::
  "'s env \<Rightarrow> (string \<Rightarrow> bytes option result) \<Rightarrow> string \<times> segment_meta \<Rightarrow> view_load \<Rightarrow> view_load result" where
  "view_segment E get p v = (case p of (segid, meta) \<Rightarrow>
     rbind (cache_idx E get segid meta (vl_cache v)) (\<lambda>(idx, c).
     rbind (parse_idx idx) (\<lambda>es.
     rbind (rfold (view_entry segid) es (vl_tables v)) (\<lambda>t.
     Ok \<lparr>vl_entries = bt_insert segid es (vl_entries v), vl_tables = t, vl_cache = c\<rparr>))))"

text \<open>
  Walking one chain down to a known depth or a keyframe.  The result is the chain
  met, newest first, the depth below it, and the depths with a keyframe noted.
\<close>

function walk_chain ::
  "(string, string) btree \<Rightarrow> (string, string) btree \<Rightarrow> (string, nat) btree \<Rightarrow> string list \<Rightarrow> string \<Rightarrow>
   (string list \<times> nat \<times> (string, nat) btree) result" where
  "walk_chain blobs bases depth chain cursor =
     (case bt_get depth cursor of
        Some d \<Rightarrow> Ok (chain, d, depth)
      | None \<Rightarrow> (case bt_get bases cursor of
            None \<Rightarrow> Ok (chain, 0, bt_insert cursor 0 depth)
          | Some base \<Rightarrow>
              if cursor \<in> set chain then Err Corrupt
              else if base = EMPTY_BLOB then Ok (cursor # chain, 0, depth)
              else if \<not> bt_has blobs base then Err Corrupt
              else walk_chain blobs bases depth (cursor # chain) base))"
  by pat_completeness auto
termination
proof (relation "measure (\<lambda>(blobs, bases, depth, chain, cursor). card (fst ` set bases - set chain))", goal_cases)
  case (2 blobs bases depth chain cursor base)
  then have "cursor \<in> fst ` set bases" by (force dest: map_of_SomeD)
  with 2 have "fst ` set bases - set (cursor # chain) \<subset> fst ` set bases - set chain" by auto
  then show ?case by (simp add: psubset_card_mono)
qed simp

declare walk_chain.simps [simp del]

definition unwind :: "string list \<Rightarrow> nat \<Rightarrow> (string, nat) btree \<Rightarrow> (string, nat) btree" where
  "unwind chain bottom depth =
     snd (fold (\<lambda>h (d, t). (d + 1, bt_insert h (d + 1) t)) chain (bottom, depth))"

definition chain_depth ::
  "(string, string) btree \<Rightarrow> (string, string) btree \<Rightarrow> string \<Rightarrow> (string, nat) btree \<Rightarrow> (string, nat) btree result" where
  "chain_depth blobs bases start depth =
     rmap (\<lambda>(chain, bottom, depth). unwind chain bottom depth) (walk_chain blobs bases depth [] start)"

definition view_load ::
  "'s env \<Rightarrow> (string \<Rightarrow> bytes option result) \<Rightarrow> remote_cache \<Rightarrow> serve_manifest option \<Rightarrow>
   (remote_view \<times> remote_cache) result" where
  "view_load E get c manifest = (case manifest of
       None \<Rightarrow> Ok (view_empty, c)
     | Some m \<Rightarrow>
         rbind (rfold (view_segment E get) (sm_segments m)
           \<lparr>vl_entries = [], vl_tables = ([], []), vl_cache = c\<rparr>) (\<lambda>v.
         case vl_tables v of (blobs, bases) \<Rightarrow>
         rbind (rfold (chain_depth blobs bases) (bt_keys blobs) []) (\<lambda>depth.
         Ok (\<lparr>rv_manifest = Some m, rv_entries = vl_entries v, rv_blobs = blobs, rv_depth = depth\<rparr>,
             vl_cache v))))"

definition view_has :: "remote_view \<Rightarrow> string \<Rightarrow> bool" where
  "view_has v h = bt_has (rv_blobs v) h"

definition view_depth :: "remote_view \<Rightarrow> string \<Rightarrow> nat option" where
  "view_depth v h = (if h = EMPTY_BLOB then Some 0 else bt_get (rv_depth v) h)"

subsection \<open>What discovery returns\<close>

text \<open>An authenticated extension: each step is the parse of the next name and chains.\<close>

inductive extends ::
  "'s env \<Rightarrow> (string \<Rightarrow> bytes option result) \<Rightarrow> serve_manifest \<Rightarrow> serve_manifest \<Rightarrow> bool" for E get where
  refl: "extends E get m m"
| step: "get (manifest_name (sm_seq m + 1)) = Ok (Some bs) \<Longrightarrow> sm_parse E bs = Ok n \<Longrightarrow>
    sm_seq n = sm_seq m + 1 \<Longrightarrow> sm_prev n = sm_id m \<Longrightarrow> extends E get n m' \<Longrightarrow> extends E get m m'"

lemma extends_seq: "extends E get m m' \<Longrightarrow> sm_seq m \<le> sm_seq m'"
  by (induction rule: extends.induct) auto

definition tip :: "(string \<Rightarrow> bytes option result) \<Rightarrow> serve_manifest \<Rightarrow> bool" where
  "tip get m \<longleftrightarrow> get (manifest_name (sm_seq m + 1)) = Ok None \<and> sm_seq m + 1 < 2 ^ 64"

lemma probe_Ok: "probe E get m = Ok m' \<Longrightarrow> extends E get m m' \<and> tip get m'"
proof (induction E get m rule: probe.induct)
  case (1 E get m)
  show ?case
  proof (cases "sm_seq m + 1 \<ge> 2 ^ 64")
    case False
    with 1(2) obtain x where x: "get (manifest_name (sm_seq m + 1)) = Ok x"
      by (auto simp: probe.simps [of E get m])
    show ?thesis
    proof (cases x)
      case None
      with x False 1(2) show ?thesis
        by (auto simp: probe.simps [of E get m] tip_def intro: extends.refl)
    next
      case (Some bs)
      with x False 1(2) obtain n where n: "sm_parse E bs = Ok n" "sm_seq n = sm_seq m + 1" "sm_prev n = sm_id m"
        "probe E get n = Ok m'"
        by (auto simp: probe.simps [of E get m] split: if_splits)
      from 1(1) [OF False x Some n(1) _ n(4)] n(2,3) have "extends E get n m' \<and> tip get m'" by simp
      with extends.step [of get m bs E n m'] x Some n show ?thesis by simp
    qed
  qed (use 1(2) in \<open>simp add: probe.simps [of E get m]\<close>)
qed

lemma probe_live: "extends E get m m' \<Longrightarrow> tip get m' \<Longrightarrow> probe E get m = Ok m'"
proof (induction rule: extends.induct)
  case (refl m)
  then show ?case by (simp add: probe.simps [of E get m] tip_def)
next
  case (step m bs n m')
  have "sm_seq m + 1 < 2 ^ 64"
    using extends_seq [OF step.hyps(5)] step.hyps(3) step.prems by (simp add: tip_def)
  with step show ?case by (simp add: probe.simps [of E get m])
qed

lemma probe_iff: "probe E get m = Ok m' \<longleftrightarrow> extends E get m m' \<and> tip get m'"
  using probe_Ok probe_live by blast

lemma confirmed_Some:
  "confirmed E get cached = Ok (Some m) \<Longrightarrow>
     sm_id m = sm_id cached \<and> (\<exists>bs. get (manifest_name (sm_seq cached)) = Ok (Some bs) \<and> sm_parse E bs = Ok m)"
proof -
  assume "confirmed E get cached = Ok (Some m)"
  then obtain x where x: "get (manifest_name (sm_seq cached)) = Ok x"
    "(case x of None \<Rightarrow> None | Some bs \<Rightarrow> (case sm_parse E bs of
        Ok remote \<Rightarrow> if sm_id remote = sm_id cached then Some remote else None | Err _ \<Rightarrow> None)) = Some m"
    by (auto simp: confirmed_def)
  then show ?thesis
    by (cases x; cases "sm_parse E (the x)") (auto split: if_splits)
qed

lemma discover_Ok:
  assumes "discover E ls get c = Ok (Some m, c')"
  shows "tip get m \<and> (\<exists>start. extends E get start m \<and>
    ((\<exists>cached. cache_manifest E c = Some cached \<and> sm_id start = sm_id cached) \<or>
     remote_latest E ls get = Ok (Some start)))"
proof -
  from assms obtain warm c1 start where w: "warm_start E get c = Ok (warm, c1)"
    and st: "(case warm of Some m \<Rightarrow> Ok (Some m) | None \<Rightarrow> remote_latest E ls get) = Ok (Some start)"
    and p: "probe E get start = Ok m"
    by (force simp: discover_def split: option.splits)
  have "(\<exists>cached. cache_manifest E c = Some cached \<and> sm_id start = sm_id cached) \<or>
     remote_latest E ls get = Ok (Some start)"
  proof (cases warm)
    case (Some x)
    with w st confirmed_Some show ?thesis by (fastforce simp: warm_start_def split: option.splits)
  qed (use st in simp)
  with probe_Ok [OF p] show ?thesis by blast
qed

subsection \<open>Views are sets with well-founded chains\<close>

definition base_depth :: "(string, string) btree \<Rightarrow> (string, nat) btree \<Rightarrow> string \<Rightarrow> nat \<Rightarrow> bool" where
  "base_depth blobs depth b n \<longleftrightarrow>
     (if b = EMPTY_BLOB then n = 0 else bt_has blobs b \<and> bt_get depth b = Some n)"

definition depth_ok :: "(string, string) btree \<Rightarrow> (string, string) btree \<Rightarrow> (string, nat) btree \<Rightarrow> bool" where
  "depth_ok blobs bases depth \<longleftrightarrow> bt_ok depth \<and> (\<forall>h d. bt_get depth h = Some d \<longrightarrow>
     (case bt_get bases h of None \<Rightarrow> d = 0 | Some b \<Rightarrow> \<exists>n. base_depth blobs depth b n \<and> d = n + 1))"

text \<open>A chain, newest first, whose newest blob is built on \<open>ground\<close> and that has no depths yet.\<close>

fun linked ::
  "(string, string) btree \<Rightarrow> (string, string) btree \<Rightarrow> (string, nat) btree \<Rightarrow> string list \<Rightarrow> string \<Rightarrow> bool" where
  "linked blobs bases depth [] ground \<longleftrightarrow> True"
| "linked blobs bases depth (x # xs) ground \<longleftrightarrow>
     bt_get bases x = Some ground \<and> bt_get depth x = None \<and> x \<notin> set xs \<and>
     (xs \<noteq> [] \<longrightarrow> x \<noteq> EMPTY_BLOB \<and> bt_has blobs x) \<and> linked blobs bases depth xs x"

lemma linked_insert:
  "bt_ok depth \<Longrightarrow> linked blobs bases depth xs ground \<Longrightarrow> x \<notin> set xs \<Longrightarrow> linked blobs bases (bt_insert x d depth) xs ground"
  by (induction xs arbitrary: ground) (auto simp: bt_get_insert)

lemma linked_bases: "linked blobs bases depth xs ground \<Longrightarrow> x \<in> set xs \<Longrightarrow> bt_get bases x \<noteq> None"
  by (induction xs arbitrary: ground) auto

lemma base_depth_insert:
  "bt_ok depth \<Longrightarrow> bt_get depth x = None \<Longrightarrow> base_depth blobs depth b n \<Longrightarrow>
   base_depth blobs (bt_insert x d depth) b n"
  by (auto simp: base_depth_def bt_get_insert)

lemma depth_ok_insert:
  assumes "depth_ok blobs bases depth" "bt_get depth x = None"
    "case bt_get bases x of None \<Rightarrow> d = 0 | Some b \<Rightarrow> \<exists>n. base_depth blobs depth b n \<and> d = n + 1"
  shows "depth_ok blobs bases (bt_insert x d depth)"
proof -
  have ok: "bt_ok depth" using assms(1) by (simp add: depth_ok_def)
  have "case bt_get bases h of None \<Rightarrow> e = 0 | Some b \<Rightarrow> \<exists>n. base_depth blobs (bt_insert x d depth) b n \<and> e = n + 1"
    if "bt_get (bt_insert x d depth) h = Some e" for h e
  proof -
    have "case bt_get bases h of None \<Rightarrow> e = 0 | Some b \<Rightarrow> \<exists>n. base_depth blobs depth b n \<and> e = n + 1"
      using that assms(1,3) by (auto simp: bt_get_insert [OF ok] depth_ok_def split: if_splits)
    then show ?thesis using base_depth_insert [OF ok assms(2)] by (fastforce split: option.splits)
  qed
  with ok show ?thesis unfolding depth_ok_def by (simp add: bt_ok_insert)
qed

lemma unwind_Cons: "unwind (x # xs) n depth = unwind xs (n + 1) (bt_insert x (n + 1) depth)"
  by (simp add: unwind_def)

lemma unwind_ok:
  assumes "depth_ok blobs bases depth" "linked blobs bases depth chain ground"
    "chain \<noteq> [] \<Longrightarrow> base_depth blobs depth ground n"
  shows "depth_ok blobs bases (unwind chain n depth) \<and>
    (\<forall>h. bt_has (unwind chain n depth) h \<longleftrightarrow> h \<in> set chain \<or> bt_has depth h)"
  using assms
proof (induction chain arbitrary: depth ground n)
  case Nil
  then show ?case by (simp add: unwind_def)
next
  case (Cons x xs)
  have ok: "bt_ok depth" using Cons.prems(1) by (simp add: depth_ok_def)
  have n: "bt_get depth x = None" and b: "base_depth blobs depth ground n" using Cons.prems(2,3) by auto
  let ?t = "bt_insert x (n + 1) depth"
  have "depth_ok blobs bases ?t"
    using Cons.prems(1,2) n b by (intro depth_ok_insert) auto
  moreover have "linked blobs bases ?t xs x"
    using Cons.prems(2) by (intro linked_insert [OF ok]) auto
  moreover have "base_depth blobs ?t x (n + 1)" if "xs \<noteq> []"
    using that Cons.prems(2) by (simp add: base_depth_def bt_get_insert ok)
  ultimately have "depth_ok blobs bases (unwind xs (n + 1) ?t) \<and>
    (\<forall>h. bt_has (unwind xs (n + 1) ?t) h \<longleftrightarrow> h \<in> set xs \<or> bt_has ?t h)"
    by (rule Cons.IH)
  then show ?case by (auto simp: unwind_Cons bt_has_def bt_get_insert [OF ok])
qed

lemma walk_chain_Ok:
  assumes "walk_chain blobs bases depth chain cursor = Ok (chain', n, depth')"
    "depth_ok blobs bases depth" "linked blobs bases depth chain cursor"
    "chain \<noteq> [] \<Longrightarrow> cursor \<noteq> EMPTY_BLOB \<and> bt_has blobs cursor"
  shows "depth_ok blobs bases depth' \<and> set chain \<subseteq> set chain' \<and>
    (\<exists>ground. linked blobs bases depth' chain' ground \<and> (chain' \<noteq> [] \<longrightarrow> base_depth blobs depth' ground n)) \<and>
    (\<forall>h. bt_has depth h \<longrightarrow> bt_has depth' h) \<and> (cursor \<in> set chain' \<or> bt_has depth' cursor)"
  using assms
proof (induction blobs bases depth chain cursor rule: walk_chain.induct)
  case (1 blobs bases depth chain cursor)
  have ok: "bt_ok depth" using 1(3) by (simp add: depth_ok_def)
  note simps = walk_chain.simps [of blobs bases depth chain cursor]
  show ?case
  proof (cases "bt_get depth cursor")
    case (Some d)
    with 1(2) have "chain' = chain" "n = d" "depth' = depth" by (simp_all add: simps)
    with 1(3-5) Some show ?thesis
      by (intro conjI exI [of _ cursor]) (auto simp: bt_has_def base_depth_def)
  next
    case None
    show ?thesis
    proof (cases "bt_get bases cursor")
      case k: None
      with 1(2) None have r: "chain' = chain" "n = 0" "depth' = bt_insert cursor 0 depth" by (simp_all add: simps)
      have "cursor \<notin> set chain" using linked_bases [OF 1(4)] k by blast
      with linked_insert [OF ok 1(4)] have "linked blobs bases depth' chain' cursor" by (simp add: r)
      moreover have "depth_ok blobs bases depth'" unfolding r
        by (rule depth_ok_insert [OF 1(3) None]) (simp add: k)
      ultimately show ?thesis using r 1(5)
        by (intro conjI exI [of _ cursor]) (auto simp: bt_has_def base_depth_def bt_get_insert [OF ok])
    next
      case b: (Some base)
      with 1(2) None have c: "cursor \<notin> set chain" by (auto simp: simps split: if_splits)
      show ?thesis
      proof (cases "base = EMPTY_BLOB")
        case True
        with 1(2) None b c have "chain' = cursor # chain" "n = 0" "depth' = depth" by (simp_all add: simps)
        with 1(3-5) None b c True show ?thesis by (auto simp: base_depth_def)
      next
        case ne: False
        with 1(2) None b c have h: "bt_has blobs base"
          and w: "walk_chain blobs bases depth (cursor # chain) base = Ok (chain', n, depth')"
          by (auto simp: simps split: if_splits)
        have "linked blobs bases depth (cursor # chain) base" using 1(4,5) None b c by simp
        from 1(1) [OF None b c ne _ w 1(3) this] h ne show ?thesis by auto
      qed
    qed
  qed
qed

lemma chain_depth_Ok:
  assumes "chain_depth blobs bases start depth = Ok depth'" "depth_ok blobs bases depth"
  shows "depth_ok blobs bases depth' \<and> bt_has depth' start \<and> (\<forall>h. bt_has depth h \<longrightarrow> bt_has depth' h)"
proof -
  from assms(1) obtain chain n t where w: "walk_chain blobs bases depth [] start = Ok (chain, n, t)"
    and d: "depth' = unwind chain n t" by (auto simp: chain_depth_def)
  from walk_chain_Ok [OF w assms(2)] obtain ground where
    t: "depth_ok blobs bases t" "linked blobs bases t chain ground" "chain \<noteq> [] \<longrightarrow> base_depth blobs t ground n"
    "\<forall>h. bt_has depth h \<longrightarrow> bt_has t h" "start \<in> set chain \<or> bt_has t start" by auto
  with unwind_ok [OF t(1,2)] show ?thesis by (auto simp: d)
qed

lemma chain_depths_Ok:
  assumes "rfold (chain_depth blobs bases) keys depth = Ok depth'" "depth_ok blobs bases depth"
  shows "depth_ok blobs bases depth' \<and> (\<forall>h. h \<in> set keys \<or> bt_has depth h \<longrightarrow> bt_has depth' h)"
  using assms
proof (induction keys arbitrary: depth)
  case (Cons k keys)
  then obtain d where d: "chain_depth blobs bases k depth = Ok d" "rfold (chain_depth blobs bases) keys d = Ok depth'"
    by auto
  from chain_depth_Ok [OF d(1) Cons.prems(2)] Cons.IH [OF d(2)] show ?case by auto
qed simp

text \<open>The tables of a list of blob items: a set, with the base of each construct.\<close>

definition blob_item :: "idx_entry \<Rightarrow> bool" where
  "blob_item e \<longleftrightarrow> \<not> (\<exists>f sp. ie_enc e = Lines f sp)"

definition base_of :: "idx_entry \<Rightarrow> string option" where
  "base_of e = (case ie_enc e of Construct b _ \<Rightarrow> Some b | _ \<Rightarrow> None)"

definition tables_ok :: "idx_entry list \<Rightarrow> blob_tables \<Rightarrow> bool" where
  "tables_ok items t \<longleftrightarrow> bt_ok (fst t) \<and> bt_ok (snd t) \<and> distinct (map ie_sha3 items) \<and>
     (\<forall>h. bt_has (fst t) h \<longleftrightarrow> h \<in> ie_sha3 ` set items) \<and>
     (\<forall>h. bt_has (snd t) h \<longrightarrow> bt_has (fst t) h) \<and>
     (\<forall>e \<in> set items. bt_get (snd t) (ie_sha3 e) = base_of e)"

lemma view_entry_eq:
  "view_entry segid e (blobs, bases) =
     (if \<not> blob_item e then Ok (blobs, bases)
      else if bt_has blobs (ie_sha3 e) then Err Corrupt
      else Ok (bt_insert (ie_sha3 e) segid blobs,
               case base_of e of None \<Rightarrow> bases | Some b \<Rightarrow> bt_insert (ie_sha3 e) b bases))"
  by (cases "ie_enc e") (simp_all add: view_entry_def blob_item_def base_of_def)

lemma view_entry_Ok:
  assumes t: "tables_ok items t" and v: "view_entry segid e t = Ok t'"
  shows "tables_ok (items @ filter blob_item [e]) t'"
proof (cases "blob_item e")
  case False
  with assms show ?thesis by (cases t) (simp add: view_entry_eq)
next
  case True
  obtain blobs bases where tt: "t = (blobs, bases)" by force
  from v True have h: "\<not> bt_has blobs (ie_sha3 e)" and
    t': "t' = (bt_insert (ie_sha3 e) segid blobs,
      case base_of e of None \<Rightarrow> bases | Some b \<Rightarrow> bt_insert (ie_sha3 e) b bases)"
    by (auto simp: tt view_entry_eq split: if_splits)
  have ok: "bt_ok blobs" "bt_ok bases" and "\<not> bt_has bases (ie_sha3 e)"
    using t h by (auto simp: tables_ok_def tt)
  then have n: "bt_get bases (ie_sha3 e) = None" by (simp add: bt_has_def)
  have new: "ie_sha3 e \<notin> ie_sha3 ` set items" using t h by (simp add: tables_ok_def tt)
  have get: "bt_get (snd t') k = (if k = ie_sha3 e then base_of e else bt_get bases k)" for k
    using n by (cases "base_of e") (auto simp: t' bt_get_insert [OF ok(2)])
  have has: "bt_has (fst t') k \<longleftrightarrow> k = ie_sha3 e \<or> bt_has blobs k" for k
    by (auto simp: t' bt_has_def bt_get_insert [OF ok(1)])
  have "bt_ok (fst t')" "bt_ok (snd t')"
    using ok by (auto simp: t' bt_ok_insert split: option.splits)
  moreover have "distinct (map ie_sha3 (items @ filter blob_item [e]))"
    using t True new by (simp add: tables_ok_def)
  moreover have "bt_has (fst t') k \<longleftrightarrow> k \<in> ie_sha3 ` set (items @ filter blob_item [e])" for k
    using t True by (auto simp: has tables_ok_def tt)
  moreover have "bt_has (fst t') k" if "bt_has (snd t') k" for k
    using that t unfolding has by (auto simp: bt_has_def get tables_ok_def tt split: if_splits)
  moreover have "bt_get (snd t') (ie_sha3 f) = base_of f" if "f \<in> set (items @ filter blob_item [e])" for f
    using that t True new by (auto simp: get tables_ok_def tt image_iff)
  ultimately show ?thesis unfolding tables_ok_def by blast
qed

lemma view_entries_Ok:
  "tables_ok items t \<Longrightarrow> rfold (view_entry segid) es t = Ok t' \<Longrightarrow> tables_ok (items @ filter blob_item es) t'"
proof (induction es arbitrary: items t)
  case (Cons e es)
  then obtain t1 where t1: "view_entry segid e t = Ok t1" "rfold (view_entry segid) es t1 = Ok t'" by auto
  from Cons.IH [OF view_entry_Ok [OF Cons.prems(1) t1(1)] t1(2)] show ?case by (simp split: if_splits)
qed simp

definition view_items :: "(string, idx_entry list) btree \<Rightarrow> idx_entry list" where
  "view_items es = concat (map (\<lambda>p. filter blob_item (snd p)) es)"

lemma view_segment_Ok:
  "view_segment E get (segid, meta) v = Ok v1 \<Longrightarrow> \<exists>es t c. rfold (view_entry segid) es (vl_tables v) = Ok t \<and>
     v1 = \<lparr>vl_entries = bt_insert segid es (vl_entries v), vl_tables = t, vl_cache = c\<rparr>"
  by (auto simp: view_segment_def)

lemma view_segments_Ok:
  assumes "rfold (view_segment E get) segs v = Ok v'" "tables_ok (view_items (vl_entries v)) (vl_tables v)"
    "bt_ok segs" "\<forall>k \<in> fst ` set (vl_entries v). \<forall>k' \<in> fst ` set segs. k < k'"
  shows "tables_ok (view_items (vl_entries v')) (vl_tables v') \<and>
    map fst (vl_entries v') = map fst (vl_entries v) @ map fst segs"
  using assms
proof (induction segs arbitrary: v)
  case (Cons p segs)
  obtain segid meta where p: "p = (segid, meta)" by force
  from Cons.prems(1) obtain v1 where v1: "view_segment E get (segid, meta) v = Ok v1"
    "rfold (view_segment E get) segs v1 = Ok v'" by (auto simp: p)
  from view_segment_Ok [OF v1(1)] obtain c es t where
    es: "rfold (view_entry segid) es (vl_tables v) = Ok t" and
    e: "v1 = \<lparr>vl_entries = bt_insert segid es (vl_entries v), vl_tables = t, vl_cache = c\<rparr>" by blast
  note r = v1(2) [unfolded e]
  have i: "bt_insert segid es (vl_entries v) = vl_entries v @ [(segid, es)]"
    using Cons.prems(4) by (intro bt_insert_greatest) (auto simp: p)
  have "tables_ok (view_items (vl_entries v @ [(segid, es)])) t"
    using view_entries_Ok [OF Cons.prems(2) es] by (simp add: view_items_def)
  with Cons.IH [OF r] Cons.prems(3,4) show ?case by (auto simp: i p bt_ok_Cons)
qed simp

text \<open>An accepted view.\<close>

definition view_ok :: "remote_view \<Rightarrow> bool" where
  "view_ok v \<longleftrightarrow> distinct (map ie_sha3 (view_items (rv_entries v))) \<and>
     (\<forall>h. view_has v h \<longleftrightarrow> h \<in> ie_sha3 ` set (view_items (rv_entries v))) \<and>
     (\<forall>e \<in> set (view_items (rv_entries v)). case base_of e of
          None \<Rightarrow> bt_get (rv_depth v) (ie_sha3 e) = Some 0
        | Some b \<Rightarrow> (b = EMPTY_BLOB \<or> view_has v b) \<and>
            (\<exists>d. view_depth v b = Some d \<and> bt_get (rv_depth v) (ie_sha3 e) = Some (d + 1)))"

lemma view_load_Ok:
  assumes "view_load E get c (Some m) = Ok (v, c')" "bt_ok (sm_segments m)"
  shows "view_ok v \<and> map fst (rv_entries v) = bt_keys (sm_segments m)"
proof -
  let ?s = "\<lparr>vl_entries = [], vl_tables = ([], []), vl_cache = c\<rparr>"
  from assms(1) obtain l where l1: "rfold (view_segment E get) (sm_segments m) ?s = Ok l"
    and rest: "(case vl_tables l of (blobs, bases) \<Rightarrow>
       rbind (rfold (chain_depth blobs bases) (bt_keys blobs) []) (\<lambda>depth.
         Ok (\<lparr>rv_manifest = Some m, rv_entries = vl_entries l, rv_blobs = blobs, rv_depth = depth\<rparr>,
             vl_cache l))) = Ok (v, c')"
    by (auto simp: view_load_def simp del: rfold.simps)
  obtain blobs bases where l: "rfold (view_segment E get) (sm_segments m) ?s = Ok l" "vl_tables l = (blobs, bases)"
    using l1 by (cases "vl_tables l") auto
  from rest l(2) obtain depth where
    d: "rfold (chain_depth blobs bases) (bt_keys blobs) [] = Ok depth" and
    ve: "v = \<lparr>rv_manifest = Some m, rv_entries = vl_entries l, rv_blobs = blobs, rv_depth = depth\<rparr>"
    by auto
  have v: "rv_entries v = vl_entries l" "rv_blobs v = blobs" "rv_depth v = depth"
    by (simp_all add: ve)
  have "tables_ok [] ([], [])" by (simp add: tables_ok_def bt_has_def)
  with view_segments_Ok [OF l(1) _ assms(2)] l(2)
  have t: "tables_ok (view_items (vl_entries l)) (blobs, bases)"
    and k: "map fst (vl_entries l) = map fst (sm_segments m)"
    by (simp_all add: view_items_def)
  have "depth_ok blobs bases []" by (simp add: depth_ok_def)
  from chain_depths_Ok [OF d this] have
    dep: "depth_ok blobs bases depth" "\<And>h. bt_has blobs h \<Longrightarrow> bt_has depth h"
    by (auto simp: bt_keys_def bt_has_iff)
  have "case base_of e of
          None \<Rightarrow> bt_get depth (ie_sha3 e) = Some 0
        | Some b \<Rightarrow> (b = EMPTY_BLOB \<or> view_has v b) \<and>
            (\<exists>d. view_depth v b = Some d \<and> bt_get depth (ie_sha3 e) = Some (d + 1))"
    if e: "e \<in> set (view_items (vl_entries l))" for e
  proof -
    from t e have b: "bt_has blobs (ie_sha3 e)" "bt_get bases (ie_sha3 e) = base_of e"
      by (auto simp: tables_ok_def)
    from dep(2) [OF b(1)] obtain n where "bt_get depth (ie_sha3 e) = Some n" by (auto simp: bt_has_def)
    with dep(1) b(2) show ?thesis
      by (fastforce simp: depth_ok_def base_depth_def view_has_def view_depth_def v split: option.splits if_splits)
  qed
  then have items: "\<forall>e \<in> set (view_items (rv_entries v)). case base_of e of
          None \<Rightarrow> bt_get (rv_depth v) (ie_sha3 e) = Some 0
        | Some b \<Rightarrow> (b = EMPTY_BLOB \<or> view_has v b) \<and>
            (\<exists>d. view_depth v b = Some d \<and> bt_get (rv_depth v) (ie_sha3 e) = Some (d + 1))"
    unfolding v by blast
  have "view_has v h \<longleftrightarrow> h \<in> ie_sha3 ` set (view_items (rv_entries v))" for h
    using t by (simp add: tables_ok_def view_has_def v)
  moreover have "distinct (map ie_sha3 (view_items (rv_entries v)))"
    using t by (simp add: tables_ok_def v)
  ultimately show ?thesis using items k unfolding view_ok_def by (simp add: v bt_keys_def)
qed

text \<open>In an accepted view the constructs are founded: the fixpoint that unpacks them cannot stick.\<close>

lemma view_founded:
  assumes "view_ok v" "\<forall>p \<in> set ps. snd p \<in> set (view_items (rv_entries v)) \<and> base_of (snd p) \<noteq> None"
    "\<forall>e \<in> set (view_items (rv_entries v)). base_of e = None \<longrightarrow> bt_has b (ie_sha3 e)"
    "\<forall>e \<in> set (view_items (rv_entries v)). base_of e \<noteq> None \<longrightarrow> e \<in> snd ` set ps"
  shows "founded (\<lambda>h. case bt_get (rv_depth v) h of None \<Rightarrow> 0 | Some d \<Rightarrow> d) b ps"
  unfolding founded_def
proof
  fix p assume p: "p \<in> set ps"
  with assms(2) obtain base where e: "snd p \<in> set (view_items (rv_entries v))" "base_of (snd p) = Some base" by blast
  then have cb: "construct_base (ie_enc (snd p)) = base" by (auto simp: base_of_def split: enc.splits)
  from assms(1) e obtain d where d: "base = EMPTY_BLOB \<or> view_has v base" "view_depth v base = Some d"
    "bt_get (rv_depth v) (ie_sha3 (snd p)) = Some (d + 1)"
    unfolding view_ok_def by (fastforce dest!: bspec)
  show "avail b p \<or> (\<exists>q \<in> set ps. ie_sha3 (snd q) = construct_base (ie_enc (snd p)) \<and>
      (case bt_get (rv_depth v) (ie_sha3 (snd q)) of None \<Rightarrow> 0 | Some d \<Rightarrow> d) <
      (case bt_get (rv_depth v) (ie_sha3 (snd p)) of None \<Rightarrow> 0 | Some d \<Rightarrow> d))"
  proof (cases "base = EMPTY_BLOB")
    case False
    with d(1) assms(1) obtain f where f: "f \<in> set (view_items (rv_entries v))" "ie_sha3 f = base"
      by (auto simp: view_ok_def)
    show ?thesis
    proof (cases "base_of f")
      case None
      with assms(3) f cb show ?thesis by (auto simp: avail_def)
    next
      case (Some x)
      with assms(4) f(1) obtain q where "q \<in> set ps" "snd q = f" by auto
      with f d(2,3) False cb show ?thesis by (auto simp: view_depth_def intro!: bexI [of _ q])
    qed
  qed (use cb in \<open>simp add: avail_def\<close>)
qed

end
