(* ===== verification/Delta.thy ===== *)
theory Delta
  imports Remote Pack Ops "HOL-Library.Option_ord"
begin

text \<open>
  \<open>src/src/delta.rs\<close>: what a push carries.  \<open>plan\<close> decides, for every fork, which of
  its lines travel, and for every blob the store lacks whether it travels whole or as
  a construct; \<open>assemble\<close> folds small segments, builds the new ones and names them in
  the next manifest.  Main results: the segments that may be folded are the greatest
  set of small segments that ends every fork's list; a plan fast-forwards or refuses;
  its blobs are exactly those the store lacks, its constructs replay and are founded;
  and the next manifest's image is the old one's plus what is pushed.
\<close>

subsection \<open>The policy and the plan\<close>

record policy =
  po_level :: int
  po_segment_target :: nat
  po_keyframe_interval :: nat
  po_compact_trigger :: nat
  po_small_segment :: nat

definition default_policy :: policy where
  "default_policy = \<lparr>po_level = 3, po_segment_target = 64 * 2 ^ 20, po_keyframe_interval = 32,
     po_compact_trigger = 8, po_small_segment = 4 * 2 ^ 20\<rparr>"

record plan =
  pn_inputs :: "segment_input list"
  pn_heads :: "(string, fork_head) btree"
  pn_synced :: "(string, string) btree"
  pn_constructs :: nat
  pn_keyframes :: nat

definition plan_start :: plan where
  "plan_start = \<lparr>pn_inputs = [], pn_heads = [], pn_synced = [], pn_constructs = 0, pn_keyframes = 0\<rparr>"

text \<open>One fork's log: its lines and the bytes of each.\<close>

definition read_fork_log :: "'s env \<Rightarrow> repo \<Rightarrow> string \<Rightarrow> (log_line list \<times> bytes list) result" where
  "read_fork_log E r fork =
     rbind (log_bytes r fork) (\<lambda>bs.
     rbind (parse_log_strict E (blob_get (rp_pool r)) bs) (\<lambda>ls.
     let chunks = split_inclusive LF bs in
     if length chunks \<noteq> length ls then Err Corrupt else Ok (ls, chunks)))"

subsection \<open>The forks\<close>

text \<open>How a fork stands to its remote head: in sync with it, behind it, or ahead from a line on.\<close>

datatype standing = In_sync fork_head | Behind | Ahead nat

definition fork_standing ::
  "(string, fork_head) btree \<Rightarrow> (string, string) btree \<Rightarrow> string \<Rightarrow> string \<Rightarrow> log_line list \<Rightarrow> standing result" where
  "fork_standing remotes synced fork head_id ls = (case bt_get remotes fork of
       None \<Rightarrow> Ok (Ahead 0)
     | Some remote \<Rightarrow>
         if fh_head_id remote = head_id then Ok (In_sync remote)
         else if fh_head_id remote = [] then Ok (Ahead 0)
         else (case position (\<lambda>l. ll_id l = fh_head_id remote) ls of
             Some p \<Rightarrow> Ok (Ahead (p + 1))
           | None \<Rightarrow> if bt_get synced fork = Some head_id then Ok Behind else Err Invalid))"

type_synonym fork_span = "string \<times> log_line list \<times> bytes"

definition plan_fork ::
  "'s env \<Rightarrow> repo \<Rightarrow> (string, fork_head) btree \<Rightarrow> (string, string) btree \<Rightarrow> string \<Rightarrow>
   plan \<times> fork_span list \<Rightarrow> (plan \<times> fork_span list) result" where
  "plan_fork E r remotes synced fork st = (case st of (p, spans) \<Rightarrow>
     rbind (read_fork r fork) (\<lambda>ff.
     rbind (current_state E r fork) (\<lambda>state.
     rbind (read_fork_log E (recover E fork r) fork) (\<lambda>(ls, chunks).
     let head = \<lparr>fh_anchor = ff_anchor ff, fh_head_id = fs_head_id state, fh_head_sum = fs_sum_hex state,
                 fh_log_segments = []\<rparr> in
     rbind (fork_standing remotes synced fork (fs_head_id state) ls) (\<lambda>s. case s of
         In_sync remote \<Rightarrow>
           let p = p\<lparr>pn_synced := bt_insert fork (fs_head_id state) (pn_synced p)\<rparr> in
           Ok (if fh_anchor remote \<noteq> fh_anchor head \<or> fh_head_sum remote \<noteq> fh_head_sum head
               then p\<lparr>pn_heads := bt_insert fork (head\<lparr>fh_log_segments := fh_log_segments remote\<rparr>) (pn_heads p)\<rparr>
               else p, spans)
       | Behind \<Rightarrow> Ok (p, spans)
       | Ahead new_from \<Rightarrow>
           let segs = (case bt_get remotes fork of None \<Rightarrow> [] | Some remote \<Rightarrow> fh_log_segments remote);
               p = p\<lparr>pn_heads := bt_insert fork (head\<lparr>fh_log_segments := segs\<rparr>) (pn_heads p),
                     pn_synced := bt_insert fork (fs_head_id state) (pn_synced p)\<rparr> in
           Ok (p, if new_from < length ls
                  then spans @ [(fork, drop new_from ls, concat (drop new_from chunks))] else spans))))))"

subsection \<open>Construct candidates\<close>

text \<open>The blob a path is replayed from: what the line removes there first, unless it adds there first.\<close>

fun candidate_base :: "string \<Rightarrow> realized_entry list \<Rightarrow> string result" where
  "candidate_base path [] = Ok EMPTY_BLOB"
| "candidate_base path (e # es) =
     rbind (removed e) (\<lambda>rm. case rm of
         Some r \<Rightarrow> if er_path r = path then Ok (er_blob r) else
           rbind (added e) (\<lambda>ad. case ad of
               Some a \<Rightarrow> if er_path a = path then Ok EMPTY_BLOB else candidate_base path es
             | None \<Rightarrow> candidate_base path es)
       | None \<Rightarrow>
           rbind (added e) (\<lambda>ad. case ad of
               Some a \<Rightarrow> if er_path a = path then Ok EMPTY_BLOB else candidate_base path es
             | None \<Rightarrow> candidate_base path es))"

text \<open>A candidate: the blob, its base and the line that produces it.\<close>

type_synonym candidate = "string \<times> string \<times> string"

definition candidate_entry ::
  "string bset \<Rightarrow> log_line \<Rightarrow> realized_entry \<Rightarrow> candidate list \<times> string bset \<Rightarrow>
   (candidate list \<times> string bset) result" where
  "candidate_entry to_send l e st = (case st of (cands, seen) \<Rightarrow>
     rbind (added e) (\<lambda>ad. case ad of
         None \<Rightarrow> Ok (cands, seen)
       | Some a \<Rightarrow>
           if er_blob a \<notin> set to_send \<or> er_blob a \<in> set seen then Ok (cands, seen) else
           rmap (\<lambda>base. (cands @ [(er_blob a, base, ll_id l)], bs_insert (er_blob a) seen))
             (candidate_base (er_path a) (ll_realized l))))"

definition candidate_line ::
  "string bset \<Rightarrow> log_line \<Rightarrow> candidate list \<times> string bset \<Rightarrow> (candidate list \<times> string bset) result" where
  "candidate_line to_send l = rfold (candidate_entry to_send l) (ll_realized l)"

definition span_lines :: "fork_span list \<Rightarrow> log_line list" where
  "span_lines spans = concat (map (\<lambda>(fork, ls, bs). ls) spans)"

definition lines_by_id :: "fork_span list \<Rightarrow> (string, log_line) btree" where
  "lines_by_id spans = fold (\<lambda>l. bt_insert (ll_id l) l) (span_lines spans) []"

definition overflow_refs :: "'s env \<Rightarrow> fork_span list \<Rightarrow> string bset" where
  "overflow_refs E spans = fold (\<lambda>(fork, ls, bs). bs_extend (line_blob_refs E bs)) spans []"

definition candidates :: "'s env \<Rightarrow> string bset \<Rightarrow> fork_span list \<Rightarrow> candidate list result" where
  "candidates E to_send spans =
     rmap fst (rfold (candidate_line to_send) (span_lines spans) ([], overflow_refs E spans))"

subsection \<open>Classification\<close>

datatype blob_class = Keyframe | Construct_from string string nat

fun class_depth :: "blob_class \<Rightarrow> nat" where
  "class_depth Keyframe = 0"
| "class_depth (Construct_from base line_id depth) = depth"

definition depth_of :: "remote_view \<Rightarrow> string \<Rightarrow> (string, blob_class) btree \<Rightarrow> nat option" where
  "depth_of view h classes = (case view_depth view h of
       Some d \<Rightarrow> Some d
     | None \<Rightarrow> map_option class_depth (bt_get classes h))"

text \<open>Whether a line rebuilds a blob from its base, the base being in the pool.\<close>

definition candidate_replays ::
  "'s env \<Rightarrow> pool \<Rightarrow> (string, log_line) btree \<Rightarrow> candidate \<Rightarrow> bool result" where
  "candidate_replays E pool by_id c = (case c of (target, base, line_id) \<Rightarrow>
     rbind (if base = EMPTY_BLOB then Ok [] else blob_get pool base) (\<lambda>base_bytes.
     rbind (ok_or Panic (bt_get by_id line_id)) (\<lambda>l.
     Ok (is_ok (construct_blob E base_bytes l target)))))"

definition classify_one ::
  "'s env \<Rightarrow> remote_view \<Rightarrow> nat \<Rightarrow> pool \<Rightarrow> string bset \<Rightarrow> (string, log_line) btree \<Rightarrow> candidate \<Rightarrow>
   (string, blob_class) btree \<times> candidate list \<Rightarrow>
   ((string, blob_class) btree \<times> candidate list) result" where
  "classify_one E view interval pool to_send by_id c st = (case (c, st) of
     ((target, base, line_id), (classes, deferred)) \<Rightarrow>
     (case depth_of view base classes of
        None \<Rightarrow>
          if base \<in> set to_send then Ok (classes, deferred @ [c])
          else Ok (bt_insert target Keyframe classes, deferred)
      | Some depth \<Rightarrow>
          rbind (if depth < interval then candidate_replays E pool by_id c else Ok False) (\<lambda>replays.
          Ok (bt_insert target (if replays then Construct_from base line_id (depth + 1) else Keyframe) classes,
              deferred))))"

definition classify_round ::
  "'s env \<Rightarrow> remote_view \<Rightarrow> nat \<Rightarrow> pool \<Rightarrow> string bset \<Rightarrow> (string, log_line) btree \<Rightarrow> candidate list \<Rightarrow>
   (string, blob_class) btree \<Rightarrow> ((string, blob_class) btree \<times> candidate list) result" where
  "classify_round E view interval pool to_send by_id pending classes =
     rfold (classify_one E view interval pool to_send by_id) pending (classes, [])"

lemma classify_one_length:
  "classify_one E v k pool ts ids c (cl, d) = Ok (cl', d') \<Longrightarrow> length d' \<le> Suc (length d)"
  by (auto simp: classify_one_def split: prod.splits option.splits if_splits)

lemma classify_round_length:
  "classify_round E v k pool ts ids cs cl = Ok (cl', d') \<Longrightarrow> length d' \<le> length cs"
proof -
  have "rfold (classify_one E v k pool ts ids) cs (cl, d) = Ok (cl', d') \<Longrightarrow> length d' \<le> length d + length cs" for d
  proof (induction cs arbitrary: cl d)
    case (Cons c cs)
    then obtain cl1 d1 where "classify_one E v k pool ts ids c (cl, d) = Ok (cl1, d1)"
      "rfold (classify_one E v k pool ts ids) cs (cl1, d1) = Ok (cl', d')" by auto
    with Cons.IH [of cl1 d1] classify_one_length show ?case by fastforce
  qed simp
  from this [of "[]"]
  show "classify_round E v k pool ts ids cs cl = Ok (cl', d') \<Longrightarrow> length d' \<le> length cs"
    by (simp add: classify_round_def)
qed

function classify ::
  "'s env \<Rightarrow> remote_view \<Rightarrow> nat \<Rightarrow> pool \<Rightarrow> string bset \<Rightarrow> (string, log_line) btree \<Rightarrow> candidate list \<Rightarrow>
   (string, blob_class) btree \<Rightarrow> (string, blob_class) btree result" where
  "classify E view interval pool to_send by_id pending classes =
     (if pending = [] then Ok classes else
      rbind (classify_round E view interval pool to_send by_id pending classes) (\<lambda>(classes, deferred).
        if length deferred = length pending
        then Ok (fold (\<lambda>(target, _, _). bt_insert target Keyframe) deferred classes)
        else classify E view interval pool to_send by_id deferred classes))"
  by pat_completeness auto
termination
  by (relation "measure (\<lambda>(E, view, k, pool, ts, ids, pending, classes). length pending)")
    (auto dest!: classify_round_length)

declare classify.simps [simp del]

subsection \<open>The plan\<close>

definition plan_blob ::
  "pool \<Rightarrow> (string, blob_class) btree \<Rightarrow> string \<Rightarrow> plan \<Rightarrow> plan result" where
  "plan_blob pool classes h p = (case (case bt_get classes h of None \<Rightarrow> Keyframe | Some c \<Rightarrow> c) of
       Keyframe \<Rightarrow>
         rmap (\<lambda>bs. p\<lparr>pn_keyframes := pn_keyframes p + 1, pn_inputs := pn_inputs p @ [SBlob bs]\<rparr>) (blob_get pool h)
     | Construct_from base line_id depth \<Rightarrow>
         Ok (p\<lparr>pn_constructs := pn_constructs p + 1, pn_inputs := pn_inputs p @ [SConstruct h base line_id]\<rparr>))"

definition remote_forks :: "remote_view \<Rightarrow> (string, fork_head) btree" where
  "remote_forks view = (case rv_manifest view of None \<Rightarrow> [] | Some m \<Rightarrow> sm_forks m)"

definition blobs_to_send :: "pool \<Rightarrow> remote_view \<Rightarrow> string bset" where
  "blobs_to_send pool view = bs_extend (filter (\<lambda>h. \<not> view_has view h) (blob_list pool)) []"

definition span_input :: "fork_span \<Rightarrow> segment_input" where
  "span_input s = (case s of (fork, ls, bs) \<Rightarrow> SLogSpan fork bs (map ll_id ls))"

definition push_plan ::
  "'s env \<Rightarrow> repo \<Rightarrow> remote_view \<Rightarrow> (string, string) btree \<Rightarrow> policy \<Rightarrow> plan result" where
  "push_plan E r view synced pol =
     rbind (rfold (plan_fork E r (remote_forks view) synced) (fork_names r) (plan_start, [])) (\<lambda>(p, spans).
     let to_send = blobs_to_send (rp_pool r) view in
     rbind (candidates E to_send spans) (\<lambda>cands.
     rbind (classify E view (po_keyframe_interval pol) (rp_pool r) to_send (lines_by_id spans) cands []) (\<lambda>classes.
     rbind (rfold (plan_blob (rp_pool r) classes) to_send p) (\<lambda>p.
     Ok (p\<lparr>pn_inputs := pn_inputs p @ map span_input spans\<rparr>)))))"

subsection \<open>The segments that may be folded\<close>

text \<open>One fork: everything before its last segment that stays is not a candidate.\<close>

definition keep_prefix :: "fork_head \<Rightarrow> bool \<times> string bset \<Rightarrow> bool \<times> string bset" where
  "keep_prefix h st =
     (case rposition (\<lambda>s. s \<notin> set (snd st)) (fh_log_segments h) of
        None \<Rightarrow> st
      | Some i \<Rightarrow>
          fold (\<lambda>segid (any, cands). (any \<or> segid \<in> set cands, bs_remove segid cands))
            (take i (fh_log_segments h)) st)"

text \<open>A step of the pruning: whether anything was removed, and what is left.\<close>

definition shrinks :: "bool \<times> string bset \<Rightarrow> bool \<times> string bset \<Rightarrow> bool" where
  "shrinks st st' \<longleftrightarrow> (fst st \<longrightarrow> fst st') \<and> set (snd st') \<subseteq> set (snd st) \<and> length (snd st') \<le> length (snd st) \<and>
     (fst st' \<longrightarrow> fst st \<or> length (snd st') < length (snd st)) \<and> (\<not> fst st' \<longrightarrow> snd st' = snd st)"

lemma shrinks_trans: "shrinks a b \<Longrightarrow> shrinks b c \<Longrightarrow> shrinks a c"
  by (auto simp: shrinks_def)

lemma shrinks_fold: "(\<And>x st. shrinks st (f x st)) \<Longrightarrow> shrinks st (fold f xs st)"
proof (induction xs arbitrary: st)
  case (Cons x xs)
  then have "shrinks st (f x st)" "shrinks (f x st) (fold f xs (f x st))" by blast+
  then show ?case by (simp add: shrinks_trans)
qed (simp add: shrinks_def)

lemma removal_shrinks: "shrinks st (case st of (any, cands) \<Rightarrow> (any \<or> s \<in> set cands, bs_remove s cands))"
  by (cases st) (auto simp: shrinks_def bs_remove_def length_removeAll_less_eq length_removeAll_less removeAll_id)

lemma keep_prefix_shrinks: "shrinks st (keep_prefix h st)"
proof (cases "rposition (\<lambda>s. s \<notin> set (snd st)) (fh_log_segments h)")
  case (Some i)
  then show ?thesis unfolding keep_prefix_def by (simp add: shrinks_fold removal_shrinks)
qed (simp add: keep_prefix_def shrinks_def)

definition compaction_round :: "fork_head list \<Rightarrow> string bset \<Rightarrow> bool \<times> string bset" where
  "compaction_round heads cands = fold keep_prefix heads (False, cands)"

lemma compaction_round_shrinks: "compaction_round hs cs = (True, cs') \<Longrightarrow> length cs' < length cs"
  using shrinks_fold [of keep_prefix "(False, cs)" hs, OF keep_prefix_shrinks]
  by (simp add: compaction_round_def shrinks_def)

function compaction_loop :: "fork_head list \<Rightarrow> string bset \<Rightarrow> string bset" where
  "compaction_loop heads cands =
     (case compaction_round heads cands of (any, cands') \<Rightarrow>
        if \<not> any then cands' else compaction_loop heads cands')"
  by pat_completeness auto
termination
  by (relation "measure (\<lambda>(heads, cands). length cands)") (auto dest!: sym compaction_round_shrinks)

declare compaction_loop.simps [simp del]

definition compaction_candidates :: "serve_manifest \<Rightarrow> policy \<Rightarrow> string bset" where
  "compaction_candidates base pol =
     compaction_loop (bt_values (sm_forks base))
       (map fst (filter (\<lambda>(segid, meta). me_bytes meta < po_small_segment pol) (sm_segments base)))"

subsection \<open>Folding\<close>

text \<open>
  One stored blob from the live segment that holds it.  The entry tables of the live
  segments were cached when the view was loaded, so the cache does not change here.
\<close>

definition fetch_live ::
  "'s env \<Rightarrow> (string \<Rightarrow> bytes option result) \<Rightarrow> remote_cache \<Rightarrow> remote_view \<Rightarrow> serve_manifest \<Rightarrow> string \<Rightarrow> bytes result" where
  "fetch_live E get c view base h =
     rbind (ok_or Corrupt (bt_get (rv_blobs view) h)) (\<lambda>segid.
     rbind (ok_or Panic (bt_get (sm_segments base) segid)) (\<lambda>meta.
     rbind (cache_pk E get segid meta c) (\<lambda>pk.
     rbind (cache_idx E get segid meta c) (\<lambda>(idx, c).
     rbind (segment_open E pk idx (me_pk_sha3 meta) (me_idx_sha3 meta)) (\<lambda>s.
     rbind (ok_or Corrupt (find (\<lambda>e. ie_sha3 e = h) (sg_entries s))) (\<lambda>e.
     materialize E no_blob no_line s e))))))"

record folding =
  fo_items :: "segment_input list"
  fo_stored :: "(string, bytes) btree"
  fo_spans :: "(string \<times> string, bytes) btree"
  fo_cache :: remote_cache

definition fold_entry :: "'s env \<Rightarrow> string \<Rightarrow> segment \<Rightarrow> idx_entry \<Rightarrow> folding \<Rightarrow> folding result" where
  "fold_entry E segid s e f = (case ie_enc e of
       Construct base line_id \<Rightarrow> Ok (f\<lparr>fo_items := fo_items f @ [SConstruct (ie_sha3 e) base line_id]\<rparr>)
     | Lines fork span \<Rightarrow>
         rbind (materialize E (\<lambda>h. Err Invalid) no_line s e) (\<lambda>bs.
         if bt_has (fo_spans f) (segid, fork) then Err Corrupt
         else Ok (f\<lparr>fo_spans := bt_insert (segid, fork) bs (fo_spans f)\<rparr>))
     | _ \<Rightarrow>
         rbind (materialize E (\<lambda>h. Err Invalid) no_line s e) (\<lambda>bs.
         Ok (f\<lparr>fo_stored := bt_insert (ie_sha3 e) bs (fo_stored f), fo_items := fo_items f @ [SBlob bs]\<rparr>)))"

definition fold_segment ::
  "'s env \<Rightarrow> (string \<Rightarrow> bytes option result) \<Rightarrow> serve_manifest \<Rightarrow> string \<Rightarrow> folding \<Rightarrow> folding result" where
  "fold_segment E get base segid f =
     rbind (ok_or Panic (bt_get (sm_segments base) segid)) (\<lambda>meta.
     rbind (cache_pk E get segid meta (fo_cache f)) (\<lambda>pk.
     rbind (cache_idx E get segid meta (fo_cache f)) (\<lambda>(idx, c).
     rbind (segment_open E pk idx (me_pk_sha3 meta) (me_idx_sha3 meta)) (\<lambda>s.
     rfold (fold_entry E segid s) (sg_entries s) (f\<lparr>fo_cache := c\<rparr>)))))"

text \<open>A folded line's overflow: among the folded blobs, in the pool, or live.\<close>

definition fold_fetch ::
  "'s env \<Rightarrow> (string \<Rightarrow> bytes option result) \<Rightarrow> pool \<Rightarrow> remote_view \<Rightarrow> serve_manifest \<Rightarrow> folding \<Rightarrow> string \<Rightarrow> bytes result" where
  "fold_fetch E get pool view base f h = (case bt_get (fo_stored f) h of
       Some bs \<Rightarrow> Ok bs
     | None \<Rightarrow> (case blob_get pool h of
           Ok bs \<Rightarrow> Ok bs
         | Err _ \<Rightarrow> fetch_live E get (fo_cache f) view base h))"

definition fold_span ::
  "'s env \<Rightarrow> (string \<Rightarrow> bytes result) \<Rightarrow> (string \<times> string) \<times> bytes \<Rightarrow>
   ((string \<times> string) \<times> segment_input) result" where
  "fold_span E fetch p = (case p of ((segid, fork), bs) \<Rightarrow>
     rmap (\<lambda>ls. ((segid, fork), SLogSpan fork bs (map ll_id ls))) (parse_log_strict E fetch bs))"

type_synonym fork_spans = "(string, segment_input list) btree"

definition push_span :: "string \<Rightarrow> segment_input \<Rightarrow> fork_spans \<Rightarrow> fork_spans" where
  "push_span fork span by_fork =
     bt_insert fork ((case bt_get by_fork fork of None \<Rightarrow> [] | Some xs \<Rightarrow> xs) @ [span]) by_fork"

definition take_span ::
  "string \<Rightarrow> string \<Rightarrow> (string \<times> string, segment_input) btree \<times> fork_spans \<Rightarrow>
   (string \<times> string, segment_input) btree \<times> fork_spans" where
  "take_span fork segid st = (case st of (spans, by_fork) \<Rightarrow>
     (case bt_get spans (segid, fork) of
        None \<Rightarrow> (spans, by_fork)
      | Some span \<Rightarrow> (bt_remove (segid, fork) spans, push_span fork span by_fork)))"

definition fold_inputs ::
  "'s env \<Rightarrow> (string \<Rightarrow> bytes option result) \<Rightarrow> remote_cache \<Rightarrow> pool \<Rightarrow> remote_view \<Rightarrow> serve_manifest \<Rightarrow>
   string bset \<Rightarrow> (segment_input list \<times> fork_spans \<times> remote_cache) result" where
  "fold_inputs E get c pool view base folded =
     rbind (rfold (fold_segment E get base) folded
       \<lparr>fo_items = [], fo_stored = [], fo_spans = [], fo_cache = c\<rparr>) (\<lambda>f.
     rbind (rmapM (fold_span E (fold_fetch E get pool view base f)) (fo_spans f)) (\<lambda>spans.
     case fold (\<lambda>(fork, h). fold (take_span fork) (fh_log_segments h)) (sm_forks base) (spans, []) of
       (spans, by_fork) \<Rightarrow>
         if spans \<noteq> [] then Err Corrupt else Ok (fo_items f, by_fork, fo_cache f)))"

definition span_bytes :: "segment_input \<Rightarrow> bytes" where
  "span_bytes x = (case x of SLogSpan _ bs _ \<Rightarrow> bs | _ \<Rightarrow> [])"

definition span_ids :: "segment_input \<Rightarrow> string list" where
  "span_ids x = (case x of SLogSpan _ _ ids \<Rightarrow> ids | _ \<Rightarrow> [])"

definition coalesce :: "string \<Rightarrow> segment_input list \<Rightarrow> segment_input" where
  "coalesce fork spans = SLogSpan fork (concat (map span_bytes spans)) (concat (map span_ids spans))"

definition input_hash :: "'s env \<Rightarrow> segment_input \<Rightarrow> string option" where
  "input_hash E x = (case x of
       SLogSpan _ _ _ \<Rightarrow> None
     | _ \<Rightarrow> (case input_items E x of
           [] \<Rightarrow> None
         | IBlob h # _ \<Rightarrow> Some h
         | IDict h # _ \<Rightarrow> Some h
         | ILine fork i # _ \<Rightarrow> Some i))"

fun adjacent_equal :: "'a list \<Rightarrow> bool" where
  "adjacent_equal (x # y # xs) \<longleftrightarrow> x = y \<or> adjacent_equal (y # xs)"
| "adjacent_equal _ \<longleftrightarrow> False"

text \<open>The pushed inputs among the folded ones: spans behind their fork's, the rest by hash.\<close>

definition add_pushed :: "segment_input \<Rightarrow> segment_input list \<times> fork_spans \<Rightarrow> segment_input list \<times> fork_spans" where
  "add_pushed x st = (case st of (items, by_fork) \<Rightarrow> (case x of
       SLogSpan fork _ _ \<Rightarrow> (items, push_span fork x by_fork)
     | _ \<Rightarrow> (items @ [x], by_fork)))"

definition merged_inputs ::
  "'s env \<Rightarrow> (string \<Rightarrow> bytes option result) \<Rightarrow> remote_cache \<Rightarrow> pool \<Rightarrow> remote_view \<Rightarrow> serve_manifest \<Rightarrow>
   string bset \<Rightarrow> segment_input list \<Rightarrow> (segment_input list \<times> remote_cache) result" where
  "merged_inputs E get c pool view base folded inputs =
     (if folded = [] then Ok (inputs, c) else
      rbind (fold_inputs E get c pool view base folded) (\<lambda>(items, by_fork, c).
      let (items, by_fork) = fold add_pushed inputs (items, by_fork);
          items = sort_key (input_hash E) items in
      if adjacent_equal (map (input_hash E) items) then Err Corrupt
      else Ok (items @ map (\<lambda>(fork, spans). coalesce fork spans) by_fork, c)))"

subsection \<open>Assembly\<close>

record 's assembled =
  as_segments :: "'s built_segment list"
  as_manifest :: serve_manifest
  as_compacted :: nat

definition empty_base :: serve_manifest where
  "empty_base = \<lparr>sm_id = [], sm_v = 0, sm_seq = 0, sm_prev = [], sm_forks = [], sm_segments = [],
     sm_anchors = [], sm_retire = []\<rparr>"

definition view_base :: "remote_view \<Rightarrow> serve_manifest" where
  "view_base view = (case rv_manifest view of None \<Rightarrow> empty_base | Some m \<Rightarrow> m)"

definition folded_segments :: "serve_manifest \<Rightarrow> policy \<Rightarrow> string bset" where
  "folded_segments base pol =
     (let cands = compaction_candidates base pol in
      if length cands \<ge> po_compact_trigger pol then cands else [])"

text \<open>The image the folded segments claim; a name the manifest lacks panics.\<close>

definition folded_image :: "'s env \<Rightarrow> serve_manifest \<Rightarrow> string bset \<Rightarrow> 's result" where
  "folded_image E base folded = rfold (\<lambda>segid total.
     rbind (ok_or Panic (bt_get (sm_segments base) segid)) (\<lambda>meta.
     rmap (ss_add E total) (sum_from_hexdigest E (me_image_setsum meta)))) folded (ss_zero E)"

definition next_forks ::
  "serve_manifest \<Rightarrow> (string, fork_head) btree \<Rightarrow> string bset \<Rightarrow> 's built_segment list \<Rightarrow> (string, fork_head) btree" where
  "next_forks base heads folded segs =
     map (\<lambda>(fork, h). (fork, h\<lparr>fh_log_segments := filter (\<lambda>s. s \<notin> set folded) (fh_log_segments h) @
         map bs_segid (filter (\<lambda>b. fork \<in> set (bs_forks b)) segs)\<rparr>))
       (fold (\<lambda>(fork, h). bt_insert fork h) heads (sm_forks base))"

definition next_segments ::
  "'s env \<Rightarrow> serve_manifest \<Rightarrow> string bset \<Rightarrow> 's built_segment list \<Rightarrow> (string, segment_meta) btree" where
  "next_segments E base folded segs =
     fold (\<lambda>b. bt_insert (bs_segid b) (meta_of E b)) segs
       (filter (\<lambda>(segid, _). segid \<notin> set folded) (sm_segments base))"

definition next_anchors :: "(string, fork_head) btree \<Rightarrow> string list" where
  "next_anchors forks = fold (\<lambda>h as. if fh_anchor h \<in> set as then as else as @ [fh_anchor h]) (bt_values forks) []"

text \<open>The sequence number of the next manifest; a checked addition on 64 bits.\<close>

definition next_seq :: "remote_view \<Rightarrow> nat result" where
  "next_seq view = (case rv_manifest view of
       None \<Rightarrow> Ok 1
     | Some m \<Rightarrow> if sm_seq m + 1 \<ge> 2 ^ 64 then Err Panic else Ok (sm_seq m + 1))"

definition assemble ::
  "'s env \<Rightarrow> (string \<Rightarrow> bytes option result) \<Rightarrow> remote_cache \<Rightarrow> pool \<Rightarrow> remote_view \<Rightarrow> plan \<Rightarrow> policy \<Rightarrow>
   ('s assembled option \<times> remote_cache) result" where
  "assemble E get c pool view p pol =
     (if pn_inputs p = [] \<and> pn_heads p = [] then Ok (None, c) else
      let base = view_base view;
          added = image_setsum E (concat (map (input_items E) (pn_inputs p)));
          folded = folded_segments base pol in
      rbind (merged_inputs E get c pool view base folded (pn_inputs p)) (\<lambda>(inputs, c).
      rbind (build_segments E inputs (po_segment_target pol) (po_level pol)) (\<lambda>segs.
      rbind (folded_image E base folded) (\<lambda>old.
      if fold (\<lambda>b total. ss_add E total (bs_image_setsum b)) segs (ss_zero E) \<noteq> ss_add E old added then Err Corrupt else
      rbind (next_seq view) (\<lambda>seq.
      let forks = next_forks base (pn_heads p) folded segs in
      rbind (sealed_manifest E
        \<lparr>sm_id = [], sm_v = 0, sm_seq = seq,
         sm_prev = (case rv_manifest view of None \<Rightarrow> [] | Some m \<Rightarrow> sm_id m),
         sm_forks = forks, sm_segments = next_segments E base folded segs,
         sm_anchors = next_anchors forks, sm_retire = folded\<rparr>) (\<lambda>m.
      Ok (Some \<lparr>as_segments = segs, as_manifest = m, as_compacted = length folded\<rparr>, c)))))))"

subsection \<open>The greatest foldable set\<close>

text \<open>A set of segments ends a list when it holds exactly a tail of it.\<close>

definition ends_list :: "string set \<Rightarrow> string list \<Rightarrow> bool" where
  "ends_list C segs \<longleftrightarrow> (\<exists>pre suf. segs = pre @ suf \<and> set pre \<inter> C = {} \<and> set suf \<subseteq> C)"

lemma rposition_split:
  assumes "rposition P xs = Some i"
  shows "xs = take i xs @ xs ! i # drop (Suc i) xs \<and> P (xs ! i) \<and> (\<forall>x \<in> set (drop (Suc i) xs). \<not> P x)"
  using rposition_SomeD [OF assms] by (auto simp: id_take_nth_drop [symmetric] in_set_conv_nth)

lemma keep_prefix_set:
  "set (snd (keep_prefix h st)) = set (snd st) -
     (case rposition (\<lambda>s. s \<notin> set (snd st)) (fh_log_segments h) of
        None \<Rightarrow> {} | Some i \<Rightarrow> set (take i (fh_log_segments h)))"
proof -
  have "set (snd (fold (\<lambda>segid (any, cands). (any \<or> segid \<in> set cands, bs_remove segid cands)) xs st)) =
      set (snd st) - set xs" for xs st
    by (induction xs arbitrary: st) (auto split: prod.splits)
  note f = this
  show ?thesis by (cases "rposition (\<lambda>s. s \<notin> set (snd st)) (fh_log_segments h)") (simp_all only: keep_prefix_def option.case f Diff_empty)
qed

text \<open>No foldable set loses anything to the pruning.\<close>

lemma keep_prefix_keeps:
  assumes "D \<subseteq> set (snd st)" "ends_list D (fh_log_segments h)"
  shows "D \<subseteq> set (snd (keep_prefix h st))"
proof (cases "rposition (\<lambda>s. s \<notin> set (snd st)) (fh_log_segments h)")
  case (Some i)
  let ?l = "fh_log_segments h"
  from assms(2) obtain pre suf where d: "?l = pre @ suf" "set pre \<inter> D = {}" "set suf \<subseteq> D"
    by (auto simp: ends_list_def)
  from rposition_SomeD [OF Some] assms(1) have i: "i < length ?l" "?l ! i \<notin> D" by auto
  have "i < length pre"
  proof (rule ccontr)
    assume "\<not> i < length pre"
    with d(1) i(1) have "?l ! i \<in> set suf" by (simp add: nth_append)
    with d(3) i(2) show False by blast
  qed
  with d(1) have "set (take i ?l) \<subseteq> set pre" by (auto dest: in_set_takeD)
  with d(2) assms(1) Some show ?thesis by (auto simp: keep_prefix_set)
qed (use assms in \<open>simp add: keep_prefix_set\<close>)

lemma keep_prefix_fixed:
  assumes "snd (keep_prefix h st) = snd st" shows "ends_list (set (snd st)) (fh_log_segments h)"
proof (cases "rposition (\<lambda>s. s \<notin> set (snd st)) (fh_log_segments h)")
  case None
  then show ?thesis unfolding ends_list_def
    by (intro exI [of _ "[]"] exI [of _ "fh_log_segments h"]) (auto simp: rposition_None_iff)
next
  case (Some i)
  let ?l = "fh_log_segments h"
  from rposition_split [OF Some] have s: "?l = (take i ?l @ [?l ! i]) @ drop (Suc i) ?l" "?l ! i \<notin> set (snd st)"
    "set (drop (Suc i) ?l) \<subseteq> set (snd st)" by auto
  have "set (take i ?l) \<inter> set (snd st) = {}"
    using keep_prefix_set [of h st] assms Some by auto
  with s show ?thesis unfolding ends_list_def
    by (intro exI [of _ "take i ?l @ [?l ! i]"] exI [of _ "drop (Suc i) ?l"]) auto
qed

lemma compaction_round_keeps:
  "D \<subseteq> set cs \<Longrightarrow> \<forall>h \<in> set hs. ends_list D (fh_log_segments h) \<Longrightarrow> D \<subseteq> set (snd (compaction_round hs cs))"
proof -
  have "D \<subseteq> set (snd st) \<Longrightarrow> \<forall>h \<in> set hs. ends_list D (fh_log_segments h) \<Longrightarrow>
      D \<subseteq> set (snd (fold keep_prefix hs st))" for st
    by (induction hs arbitrary: st) (simp_all add: keep_prefix_keeps)
  then show "D \<subseteq> set cs \<Longrightarrow> \<forall>h \<in> set hs. ends_list D (fh_log_segments h) \<Longrightarrow> ?thesis"
    by (simp add: compaction_round_def)
qed

lemma compaction_round_fixed:
  assumes "\<not> fst (compaction_round hs cs)"
  shows "snd (compaction_round hs cs) = cs \<and> (\<forall>h \<in> set hs. ends_list (set cs) (fh_log_segments h))"
proof -
  have "\<not> fst (fold keep_prefix hs st) \<Longrightarrow> snd (fold keep_prefix hs st) = snd st \<and>
      (\<forall>h \<in> set hs. ends_list (set (snd st)) (fh_log_segments h))" for st
  proof (induction hs arbitrary: st)
    case (Cons h hs)
    let ?st = "keep_prefix h st"
    from Cons.prems have f: "\<not> fst (fold keep_prefix hs ?st)" by simp
    with shrinks_fold [of keep_prefix ?st hs, OF keep_prefix_shrinks] have "\<not> fst ?st" by (simp add: shrinks_def)
    with keep_prefix_shrinks [of st h] have "snd ?st = snd st" by (simp add: shrinks_def)
    with Cons.IH [OF f] keep_prefix_fixed [of h st] show ?case by simp
  qed simp
  from this [of "(False, cs)"] assms show ?thesis by (simp add: compaction_round_def)
qed

lemma compaction_loop_greatest:
  "set (compaction_loop hs cs) \<subseteq> set cs \<and> (\<forall>h \<in> set hs. ends_list (set (compaction_loop hs cs)) (fh_log_segments h)) \<and>
   (\<forall>D \<subseteq> set cs. (\<forall>h \<in> set hs. ends_list D (fh_log_segments h)) \<longrightarrow> D \<subseteq> set (compaction_loop hs cs))"
proof (induction hs cs rule: compaction_loop.induct)
  case (1 hs cs)
  obtain b cs' where r: "compaction_round hs cs = (b, cs')" by force
  have e: "compaction_loop hs cs = (if \<not> b then cs' else compaction_loop hs cs')"
    by (subst compaction_loop.simps) (simp add: r)
  have sub: "set cs' \<subseteq> set cs"
    using shrinks_fold [of keep_prefix "(False, cs)" hs, OF keep_prefix_shrinks] r
    by (simp add: compaction_round_def shrinks_def)
  have keep: "D \<subseteq> set cs'" if "D \<subseteq> set cs" "\<forall>h \<in> set hs. ends_list D (fh_log_segments h)" for D
    using compaction_round_keeps [OF that] r by simp
  show ?case
  proof (cases b)
    case False
    with compaction_round_fixed [of hs cs] r have "cs' = cs" "\<forall>h \<in> set hs. ends_list (set cs) (fh_log_segments h)"
      by auto
    with False e show ?thesis by simp
  next
    case True
    with 1 [OF r [symmetric]] have i: "set (compaction_loop hs cs') \<subseteq> set cs'"
      "\<forall>h \<in> set hs. ends_list (set (compaction_loop hs cs')) (fh_log_segments h)"
      "\<forall>D \<subseteq> set cs'. (\<forall>h \<in> set hs. ends_list D (fh_log_segments h)) \<longrightarrow> D \<subseteq> set (compaction_loop hs cs')"
      by auto
    with True e sub keep show ?thesis by auto
  qed
qed

definition small_segments :: "serve_manifest \<Rightarrow> policy \<Rightarrow> string set" where
  "small_segments base pol = {s. \<exists>meta. (s, meta) \<in> set (sm_segments base) \<and> me_bytes meta < po_small_segment pol}"

lemma candidates_greatest:
  "set (compaction_candidates base pol) \<subseteq> small_segments base pol \<and>
   (\<forall>(fork, h) \<in> set (sm_forks base). ends_list (set (compaction_candidates base pol)) (fh_log_segments h)) \<and>
   (\<forall>D \<subseteq> small_segments base pol. (\<forall>(fork, h) \<in> set (sm_forks base). ends_list D (fh_log_segments h)) \<longrightarrow>
      D \<subseteq> set (compaction_candidates base pol))"
proof -
  have "set (map fst (filter (\<lambda>(segid, meta). me_bytes meta < po_small_segment pol) (sm_segments base))) =
      small_segments base pol"
    by (force simp: small_segments_def)
  with compaction_loop_greatest [of "bt_values (sm_forks base)"
      "map fst (filter (\<lambda>(segid, meta). me_bytes meta < po_small_segment pol) (sm_segments base))"]
  show ?thesis unfolding compaction_candidates_def
    by (simp only:) (simp add: bt_values_def split_beta)
qed

subsection \<open>Depths are of live blobs\<close>

lemma has_insert: "bt_ok b \<Longrightarrow> bt_has (bt_insert k v b) h \<longleftrightarrow> h = k \<or> bt_has b h"
  by (simp add: bt_has_def bt_get_insert)

lemma walk_chain_live:
  assumes "walk_chain blobs bases depth chain cursor = Ok (chain', n, depth')"
    "bt_ok depth" "set (cursor # chain) \<union> {h. bt_has depth h} \<subseteq> L" "{h. bt_has blobs h} \<subseteq> L"
  shows "bt_ok depth' \<and> set chain' \<union> {h. bt_has depth' h} \<subseteq> L"
  using assms
proof (induction blobs bases depth chain cursor rule: walk_chain.induct)
  case (1 blobs bases depth chain cursor)
  note simps = walk_chain.simps [of blobs bases depth chain cursor]
  show ?case
  proof (cases "bt_get depth cursor")
    case None
    show ?thesis
    proof (cases "bt_get bases cursor")
      case k: None
      with 1(2-) None show ?thesis by (auto simp: simps bt_ok_insert has_insert)
    next
      case b: (Some base)
      with 1(2) None have c: "cursor \<notin> set chain" by (auto simp: simps split: if_splits)
      show ?thesis
      proof (cases "base = EMPTY_BLOB")
        case False
        with 1(2) None b c have h: "bt_has blobs base"
          and w: "walk_chain blobs bases depth (cursor # chain) base = Ok (chain', n, depth')"
          by (auto simp: simps split: if_splits)
        from 1(1) [OF None b c False _ w 1(3)] h 1(4,5) show ?thesis by auto
      qed (use 1(2-) None b c in \<open>auto simp: simps\<close>)
    qed
  qed (use 1(2-) in \<open>auto simp: simps\<close>)
qed

lemma unwind_keys:
  "bt_ok depth \<Longrightarrow> bt_ok (unwind chain n depth) \<and> {h. bt_has (unwind chain n depth) h} = set chain \<union> {h. bt_has depth h}"
  by (induction chain arbitrary: n depth)
    (auto simp: unwind_Cons bt_ok_insert bt_has_def bt_get_insert simp del: bt_insert.simps split: if_splits,
     simp_all add: unwind_def)

lemma chain_depths_live:
  assumes "rfold (chain_depth blobs bases) ks depth = Ok depth'" "bt_ok depth" "{h. bt_has depth h} \<subseteq> L"
    "set ks \<subseteq> L" "{h. bt_has blobs h} \<subseteq> L"
  shows "{h. bt_has depth' h} \<subseteq> L"
  using assms
proof (induction ks arbitrary: depth)
  case (Cons k ks)
  from Cons.prems(1) obtain chain n t where w: "walk_chain blobs bases depth [] k = Ok (chain, n, t)"
    and r: "rfold (chain_depth blobs bases) ks (unwind chain n t) = Ok depth'"
    by (auto simp: chain_depth_def [of blobs bases k])
  from walk_chain_live [OF w Cons.prems(2), of L] Cons.prems have "bt_ok t" "set chain \<union> {h. bt_has t h} \<subseteq> L" by auto
  with unwind_keys [of t chain n] Cons.IH [OF r] Cons.prems show ?case by simp
qed simp

definition depths_live :: "remote_view \<Rightarrow> bool" where
  "depths_live v \<longleftrightarrow> (\<forall>h. bt_has (rv_depth v) h \<longrightarrow> view_has v h)"

lemma view_load_live: "view_load E get c m = Ok (v, c') \<Longrightarrow> depths_live v"
proof (cases m)
  case (Some x)
  assume "view_load E get c m = Ok (v, c')"
  with Some obtain l where "rfold (view_segment E get) (sm_segments x)
      \<lparr>vl_entries = [], vl_tables = ([], []), vl_cache = c\<rparr> = Ok l" and l: "(case vl_tables l of (blobs, bases) \<Rightarrow>
       rbind (rfold (chain_depth blobs bases) (bt_keys blobs) []) (\<lambda>depth.
         Ok (\<lparr>rv_manifest = Some x, rv_entries = vl_entries l, rv_blobs = blobs, rv_depth = depth\<rparr>,
             vl_cache l))) = Ok (v, c')"
    by (auto simp: view_load_def simp del: rfold.simps)
  obtain blobs bases where "vl_tables l = (blobs, bases)" by force
  with l obtain depth where
    "rfold (chain_depth blobs bases) (bt_keys blobs) [] = Ok depth"
    "v = \<lparr>rv_manifest = Some x, rv_entries = vl_entries l, rv_blobs = blobs, rv_depth = depth\<rparr>"
    by auto
  with chain_depths_live [of blobs bases "bt_keys blobs" "[]" depth "{h. bt_has blobs h}"] show ?thesis
    by (auto simp: depths_live_def view_has_def bt_has_def bt_keys_def map_of_eq_None_iff)
qed (auto simp: view_load_def depths_live_def view_empty_def bt_has_def)

subsection \<open>Candidates\<close>

text \<open>Candidates are distinct blobs to send that no pushed line overflows into.\<close>

definition cands_ok :: "string bset \<Rightarrow> string set \<Rightarrow> candidate list \<times> string bset \<Rightarrow> bool" where
  "cands_ok to_send refs st \<longleftrightarrow> distinct (map fst (fst st)) \<and> fst ` set (fst st) \<subseteq> set to_send - refs \<and>
     fst ` set (fst st) \<union> refs \<subseteq> set (snd st)"

lemma candidate_entry_ok:
  "cands_ok to_send refs st \<Longrightarrow> candidate_entry to_send l e st = Ok st' \<Longrightarrow> cands_ok to_send refs st'" (is "_ \<Longrightarrow> _ \<Longrightarrow> ?thesis")
proof -
  assume ok: "cands_ok to_send refs st" and e: "candidate_entry to_send l e st = Ok st'"
  obtain cands seen where st: "st = (cands, seen)" by force
  from e consider "st' = st" | b base where "st' = (cands @ [(b, base, ll_id l)], bs_insert b seen)"
      "b \<in> set to_send" "b \<notin> set seen"
    by (auto simp: candidate_entry_def st split: option.splits if_splits)
  then show ?thesis
  proof cases
    case 2
    with ok show ?thesis unfolding cands_ok_def st by (simp add: subset_iff) blast
  qed (use ok in simp)
qed

lemma candidates_Ok:
  assumes "candidates E to_send spans = Ok cs"
  shows "distinct (map fst cs) \<and> fst ` set cs \<subseteq> set to_send - set (overflow_refs E spans)"
proof -
  let ?R = "set (overflow_refs E spans)"
  from assms obtain st where r: "rfold (candidate_line to_send) (span_lines spans) ([], overflow_refs E spans) = Ok st"
    "cs = fst st" by (auto simp: candidates_def)
  have "cands_ok to_send ?R st"
  proof (rule rfold_invariant [OF r(1)])
    show "cands_ok to_send ?R ([], overflow_refs E spans)" by (simp add: cands_ok_def)
    fix l s s' assume s: "cands_ok to_send ?R s" and f: "candidate_line to_send l s = Ok s'"
    show "cands_ok to_send ?R s'"
      by (rule rfold_invariant [of _ _ _ _ "cands_ok to_send ?R", OF f [unfolded candidate_line_def] s])
        (rule candidate_entry_ok)
  qed
  then show ?thesis by (simp add: r(2) cands_ok_def)
qed

subsection \<open>Classes\<close>

text \<open>What a construct's class promises: its base's depth is known, and its line rebuilds it.\<close>

definition class_ok ::
  "'s env \<Rightarrow> remote_view \<Rightarrow> nat \<Rightarrow> pool \<Rightarrow> (string, log_line) btree \<Rightarrow> (string, blob_class) btree \<Rightarrow>
   string \<Rightarrow> blob_class \<Rightarrow> bool" where
  "class_ok E view k pool by_id classes h c = (case c of
       Keyframe \<Rightarrow> True
     | Construct_from base line_id d \<Rightarrow> d \<le> k \<and> (\<exists>d'. depth_of view base classes = Some d' \<and> d = d' + 1) \<and>
         (\<exists>bs l. (if base = EMPTY_BLOB then bs = [] else blob_get pool base = Ok bs) \<and>
            bt_get by_id line_id = Some l \<and> is_ok (construct_blob E bs l h)))"

definition classes_ok ::
  "'s env \<Rightarrow> remote_view \<Rightarrow> nat \<Rightarrow> pool \<Rightarrow> (string, log_line) btree \<Rightarrow> (string, blob_class) btree \<Rightarrow> bool" where
  "classes_ok E view k pool by_id classes \<longleftrightarrow> bt_ok classes \<and>
     (\<forall>h c. bt_get classes h = Some c \<longrightarrow> class_ok E view k pool by_id classes h c)"

lemma classes_ok_insert:
  assumes "classes_ok E view k pool by_id classes" "bt_get classes t = None" "class_ok E view k pool by_id classes t c"
  shows "classes_ok E view k pool by_id (bt_insert t c classes)"
proof -
  have ok: "bt_ok classes" using assms(1) by (simp add: classes_ok_def)
  have d: "depth_of view b (bt_insert t c classes) = Some n" if "depth_of view b classes = Some n" for b n
    using that assms(2) by (auto simp: depth_of_def bt_get_insert [OF ok] split: option.splits)
  have "class_ok E view k pool by_id (bt_insert t c classes) h x" if "class_ok E view k pool by_id classes h x" for h x
    using that d by (fastforce simp: class_ok_def split: blob_class.splits)
  with assms ok show ?thesis by (auto simp: classes_ok_def bt_ok_insert bt_get_insert split: if_splits)
qed

text \<open>The targets of the pending candidates are distinct and not classified yet.\<close>

definition pending_ok :: "string set \<Rightarrow> (string, blob_class) btree \<Rightarrow> candidate list \<Rightarrow> bool" where
  "pending_ok T classes cs \<longleftrightarrow> distinct (map fst cs) \<and> fst ` set cs \<subseteq> T \<and> {h. bt_has classes h} \<subseteq> T \<and>
     (\<forall>c \<in> set cs. bt_get classes (fst c) = None)"

lemma classify_one_ok:
  assumes "classes_ok E view k pool by_id cl" "pending_ok T cl (d @ c # cs)"
    "classify_one E view k pool to_send by_id c (cl, d) = Ok (cl', d')"
  shows "classes_ok E view k pool by_id cl' \<and> pending_ok T cl' (d' @ cs)"
proof -
  obtain target base line_id where c: "c = (target, base, line_id)" by (cases c)
  have ok: "bt_ok cl" using assms(1) by (simp add: classes_ok_def)
  have n: "bt_get cl target = None" and t: "target \<in> T" using assms(2) c by (auto simp: pending_ok_def)
  have p: "pending_ok T (bt_insert target x cl) (d @ cs)" for x
    using assms(2) t by (auto simp: pending_ok_def c bt_get_insert [OF ok] bt_has_def split: if_splits)
  have k: "class_ok E view k pool by_id cl target Keyframe" by (simp add: class_ok_def)
  show ?thesis
  proof (cases "depth_of view base cl")
    case None
    with assms(3) consider "cl' = cl" "d' = d @ [c]" | "cl' = bt_insert target Keyframe cl" "d' = d"
      by (auto simp: classify_one_def c split: if_splits)
    then show ?thesis by cases (use assms(1,2) p classes_ok_insert [OF assms(1) n k] in simp_all)
  next
    case (Some depth)
    with assms(3) have "rbind (if depth < k then candidate_replays E pool by_id c else Ok False) (\<lambda>replays.
        Ok (bt_insert target (if replays then Construct_from base line_id (depth + 1) else Keyframe) cl, d)) = Ok (cl', d')"
      unfolding classify_one_def c by (simp only: prod.case option.case)
    then obtain replays where
      r: "(if depth < k then candidate_replays E pool by_id c else Ok False) = Ok replays"
      and o: "cl' = bt_insert target (if replays then Construct_from base line_id (depth + 1) else Keyframe) cl" "d' = d"
      by (auto simp only: rbind_eq_Inr Inr_inject prod.inject)
    have "class_ok E view k pool by_id cl target (if replays then Construct_from base line_id (depth + 1) else Keyframe)"
      using r Some by (auto simp: class_ok_def candidate_replays_def c split: if_splits)
    with classes_ok_insert [OF assms(1) n] p o show ?thesis by simp
  qed
qed

lemma classify_round_ok:
  assumes "rfold (classify_one E view k pool to_send by_id) cs (cl, d) = Ok (cl', d')"
    "classes_ok E view k pool by_id cl" "pending_ok T cl (d @ cs)"
  shows "classes_ok E view k pool by_id cl' \<and> pending_ok T cl' d'"
  using assms
proof (induction cs arbitrary: cl d)
  case (Cons c cs)
  then obtain cl1 d1 where 1: "classify_one E view k pool to_send by_id c (cl, d) = Ok (cl1, d1)"
    "rfold (classify_one E view k pool to_send by_id) cs (cl1, d1) = Ok (cl', d')" by auto
  from classify_one_ok [OF Cons.prems(2,3) 1(1)] Cons.IH [OF 1(2)] show ?case by blast
qed simp

lemma keyframes_ok:
  "classes_ok E view k pool by_id cl \<Longrightarrow> pending_ok T cl cs \<Longrightarrow>
   classes_ok E view k pool by_id (fold (\<lambda>(t, _, _). bt_insert t Keyframe) cs cl) \<and>
   {h. bt_has (fold (\<lambda>(t, _, _). bt_insert t Keyframe) cs cl) h} \<subseteq> T"
proof (induction cs arbitrary: cl)
  case (Cons c cs)
  obtain t b i where c: "c = (t, b, i)" by (cases c)
  have ok: "bt_ok cl" using Cons.prems(1) by (simp add: classes_ok_def)
  have "classes_ok E view k pool by_id (bt_insert t Keyframe cl)"
    using Cons.prems by (intro classes_ok_insert) (auto simp: pending_ok_def c class_ok_def)
  moreover have "pending_ok T (bt_insert t Keyframe cl) cs"
    using Cons.prems(2) by (auto simp: pending_ok_def c bt_get_insert [OF ok] bt_has_def split: if_splits)
  ultimately show ?case using Cons.IH by (simp add: c)
qed (simp add: pending_ok_def)

lemma classify_Ok:
  assumes "classify E view k pool to_send by_id cs cl = Ok classes" "classes_ok E view k pool by_id cl" "pending_ok T cl cs"
  shows "classes_ok E view k pool by_id classes \<and> {h. bt_has classes h} \<subseteq> T"
  using assms
proof (induction E view k pool to_send by_id cs cl rule: classify.induct)
  case (1 E view k pool to_send by_id cs cl)
  show ?case
  proof (cases "cs = []")
    case True
    with 1(2) have "classes = cl" by (simp add: True classify.simps [of E view k pool to_send by_id "[]" cl])
    with 1(3,4) show ?thesis by (simp add: pending_ok_def)
  next
    case False
    with 1(2) obtain cl' d where r: "classify_round E view k pool to_send by_id cs cl = Ok (cl', d)"
      and n: "(if length d = length cs then Ok (fold (\<lambda>(t, _, _). bt_insert t Keyframe) d cl')
        else classify E view k pool to_send by_id d cl') = Ok classes"
      by (auto simp: classify.simps [of E view k pool to_send by_id cs cl])
    from classify_round_ok [OF r [unfolded classify_round_def] 1(3)] 1(4)
    have o: "classes_ok E view k pool by_id cl'" "pending_ok T cl' d" by simp_all
    show ?thesis
    proof (cases "length d = length cs")
      case True
      with n keyframes_ok [OF o] show ?thesis by auto
    next
      case ne: False
      with n have "classify E view k pool to_send by_id d cl' = Ok classes" by simp
      from 1(1) [OF False r HOL.refl ne this o] show ?thesis .
    qed
  qed
qed

subsection \<open>What a plan carries\<close>

lemma distinct_bs_extend: "distinct s \<Longrightarrow> distinct (bs_extend xs s)"
  unfolding bs_extend_def
  by (induction xs arbitrary: s) (simp_all add: bs_insert_def distinct_insort_insert)

lemma blobs_to_send_set:
  "set (blobs_to_send pool view) = {h. h \<in> set (blob_list pool) \<and> \<not> view_has view h} \<and> distinct (blobs_to_send pool view)"
  by (auto simp: blobs_to_send_def distinct_bs_extend)

lemma lines_by_id_get:
  assumes "bt_get (lines_by_id spans) i = Some l" shows "l \<in> set (span_lines spans) \<and> ll_id l = i"
proof -
  have "bt_ok b \<Longrightarrow> bt_get (fold (\<lambda>l. bt_insert (ll_id l) l) ls b) i = Some l \<Longrightarrow>
      bt_get b i = Some l \<or> (l \<in> set ls \<and> ll_id l = i)" for ls :: "log_line list" and b
  proof (induction ls arbitrary: b)
    case (Cons x ls)
    from Cons.IH [of "bt_insert (ll_id x) x b"] Cons.prems show ?case
      by (auto simp: bt_ok_insert bt_get_insert split: if_splits)
  qed simp
  from this [of "[]"] assms show ?thesis by (simp add: lines_by_id_def)
qed

definition blob_input :: "pool \<Rightarrow> (string, blob_class) btree \<Rightarrow> string \<Rightarrow> segment_input \<Rightarrow> bool" where
  "blob_input pool classes h x = (case (case bt_get classes h of None \<Rightarrow> Keyframe | Some c \<Rightarrow> c) of
       Keyframe \<Rightarrow> \<exists>bs. blob_get pool h = Ok bs \<and> x = SBlob bs
     | Construct_from base line_id d \<Rightarrow> x = SConstruct h base line_id)"

lemma plan_blobs_Ok:
  assumes "rfold (plan_blob pool classes) ts p = Ok p'"
  shows "\<exists>xs. pn_inputs p' = pn_inputs p @ xs \<and> list_all2 (blob_input pool classes) ts xs \<and>
    pn_heads p' = pn_heads p \<and> pn_synced p' = pn_synced p"
  using assms
proof (induction ts arbitrary: p)
  case (Cons h ts)
  then obtain p1 where 1: "plan_blob pool classes h p = Ok p1" "rfold (plan_blob pool classes) ts p1 = Ok p'" by auto
  from 1(1) obtain x where x: "pn_inputs p1 = pn_inputs p @ [x]" "blob_input pool classes h x"
    "pn_heads p1 = pn_heads p" "pn_synced p1 = pn_synced p"
    by (auto simp: plan_blob_def blob_input_def split: option.splits blob_class.splits)
  from Cons.IH [OF 1(2)] obtain xs where "pn_inputs p' = pn_inputs p1 @ xs" "list_all2 (blob_input pool classes) ts xs"
    "pn_heads p' = pn_heads p1" "pn_synced p' = pn_synced p1" by blast
  with x show ?case by (intro exI [of _ "x # xs"]) simp
qed simp

definition planned_head :: "fork_file \<Rightarrow> fork_state \<Rightarrow> string list \<Rightarrow> fork_head" where
  "planned_head ff st segs = \<lparr>fh_anchor = ff_anchor ff, fh_head_id = fs_head_id st, fh_head_sum = fs_sum_hex st,
     fh_log_segments = segs\<rparr>"

lemma plan_fork_Ok:
  assumes "plan_fork E r remotes synced n (p, spans) = Ok (p', spans')"
  shows "\<exists>ff st ls chunks s. read_fork r n = Ok ff \<and> current_state E r n = Ok st \<and>
    read_fork_log E (recover E n r) n = Ok (ls, chunks) \<and>
    fork_standing remotes synced n (fs_head_id st) ls = Ok s \<and> pn_inputs p' = pn_inputs p \<and>
    (case s of
       In_sync remote \<Rightarrow> spans' = spans \<and>
         (pn_heads p' = pn_heads p \<or> pn_heads p' = bt_insert n (planned_head ff st (fh_log_segments remote)) (pn_heads p))
     | Behind \<Rightarrow> spans' = spans \<and> pn_heads p' = pn_heads p
     | Ahead k \<Rightarrow> pn_heads p' = bt_insert n (planned_head ff st
           (case bt_get remotes n of None \<Rightarrow> [] | Some remote \<Rightarrow> fh_log_segments remote)) (pn_heads p) \<and>
         spans' = (if k < length ls then spans @ [(n, drop k ls, concat (drop k chunks))] else spans))"
proof -
  from assms obtain ff st ls chunks s where c: "read_fork r n = Ok ff" "current_state E r n = Ok st"
    "read_fork_log E (recover E n r) n = Ok (ls, chunks)" "fork_standing remotes synced n (fs_head_id st) ls = Ok s"
    unfolding plan_fork_def Let_def prod.case by (elim rbind_eq_Inr [THEN iffD1, elim_format] exE conjE) (auto simp only: rbind_eq_Inr)
  with assms show ?thesis
    by (intro exI [of _ ff] exI [of _ st] exI [of _ ls] exI [of _ chunks] exI [of _ s])
      (cases s; auto simp: plan_fork_def planned_head_def Let_def split: if_splits)
qed

lemma plan_fork_inputs:
  assumes "rfold (plan_fork E r remotes synced) ns (p, spans) = Ok (p', spans')" shows "pn_inputs p' = pn_inputs p"
proof -
  have "plan_fork E r remotes synced n st = Ok st' \<Longrightarrow> pn_inputs (fst st') = pn_inputs (fst st)" for n st st'
    by (cases st; cases st') (auto dest!: plan_fork_Ok)
  then show ?thesis
    using rfold_invariant [OF assms, of "\<lambda>st. pn_inputs (fst st) = pn_inputs p"] by simp
qed

lemma push_planE:
  assumes "push_plan E r view synced pol = Ok p"
  obtains p0 spans cands classes p1 where
    "rfold (plan_fork E r (remote_forks view) synced) (fork_names r) (plan_start, []) = Ok (p0, spans)"
    "candidates E (blobs_to_send (rp_pool r) view) spans = Ok cands"
    "classify E view (po_keyframe_interval pol) (rp_pool r) (blobs_to_send (rp_pool r) view) (lines_by_id spans) cands [] = Ok classes"
    "rfold (plan_blob (rp_pool r) classes) (blobs_to_send (rp_pool r) view) p0 = Ok p1"
    "p = p1\<lparr>pn_inputs := pn_inputs p1 @ map span_input spans\<rparr>"
  using assms by (auto simp: push_plan_def Let_def)

text \<open>
  The blobs of a plan, in order, are those the store lacks; the constructs have bounded
  depth, their bases are empty, live or sent, and their lines travel and rebuild them.
\<close>

definition construct_planned ::
  "'s env \<Rightarrow> pool \<Rightarrow> remote_view \<Rightarrow> nat \<Rightarrow> fork_span list \<Rightarrow> (string \<Rightarrow> nat) \<Rightarrow> string \<Rightarrow> string \<Rightarrow> string \<Rightarrow> bool" where
  "construct_planned E pool view k spans depth h base i \<longleftrightarrow>
     h \<notin> set (overflow_refs E spans) \<and> depth h \<le> k \<and> depth h = (if base = EMPTY_BLOB then 0 else depth base) + 1 \<and>
     (base = EMPTY_BLOB \<or> view_has view base \<or> base \<in> set (blobs_to_send pool view)) \<and>
     (\<exists>bs l. (if base = EMPTY_BLOB then bs = [] else blob_get pool base = Ok bs) \<and>
        l \<in> set (span_lines spans) \<and> ll_id l = i \<and> is_ok (construct_blob E bs l h))"

definition carries :: "pool \<Rightarrow> string \<Rightarrow> segment_input \<Rightarrow> bool" where
  "carries pool h x \<longleftrightarrow> (\<exists>bs. blob_get pool h = Ok bs \<and> x = SBlob bs) \<or> (\<exists>base i. x = SConstruct h base i)"

lemma class_planned:
  assumes cl: "classes_ok E view k pool (lines_by_id spans) classes" and h: "bt_get classes h = Some (Construct_from base i d)"
    and keys: "{h. bt_has classes h} \<subseteq> set (blobs_to_send pool view) - set (overflow_refs E spans)" and live: "depths_live view"
    and depth: "\<And>h. depth h = (case bt_get (rv_depth view) h of Some d \<Rightarrow> d
        | None \<Rightarrow> (case bt_get classes h of Some c \<Rightarrow> class_depth c | None \<Rightarrow> 0))"
  shows "construct_planned E pool view k spans depth h base i"
proof -
  from keys h have t: "h \<in> set (blobs_to_send pool view)" "h \<notin> set (overflow_refs E spans)" by (auto simp: bt_has_def)
  with blobs_to_send_set [of pool view] have "\<not> view_has view h" by auto
  with live have "bt_get (rv_depth view) h = None" by (auto simp: depths_live_def bt_has_def)
  then have dh: "depth h = d" by (simp add: depth h)
  from cl h obtain d' bs l where c: "d \<le> k" "depth_of view base classes = Some d'" "d = d' + 1"
    "if base = EMPTY_BLOB then bs = [] else blob_get pool base = Ok bs" "bt_get (lines_by_id spans) i = Some l"
    "is_ok (construct_blob E bs l h)"
    unfolding classes_ok_def class_ok_def by fastforce
  have "base \<noteq> EMPTY_BLOB \<Longrightarrow> depth base = d' \<and> (view_has view base \<or> base \<in> set (blobs_to_send pool view))"
    using c(2) keys live
    by (auto simp: depth_of_def view_depth_def depth depths_live_def bt_has_def split: option.splits)
  moreover have "base = EMPTY_BLOB \<Longrightarrow> d' = 0" using c(2) by (simp add: depth_of_def view_depth_def)
  ultimately show ?thesis using c t dh lines_by_id_get [OF c(5)] unfolding construct_planned_def by auto
qed

lemma push_plan_blobs:
  assumes "push_plan E r view synced pol = Ok p" "depths_live view"
  shows "\<exists>blobs spans depth. pn_inputs p = blobs @ map span_input spans \<and>
    list_all2 (carries (rp_pool r)) (blobs_to_send (rp_pool r) view) blobs \<and>
    (\<forall>h base i. SConstruct h base i \<in> set blobs \<longrightarrow>
       construct_planned E (rp_pool r) view (po_keyframe_interval pol) spans depth h base i) \<and>
    (\<forall>h d. bt_get (rv_depth view) h = Some d \<longrightarrow> depth h = d)"
proof -
  let ?ts = "blobs_to_send (rp_pool r) view"
  from assms(1) obtain p0 spans cands classes p1 where
    f: "rfold (plan_fork E r (remote_forks view) synced) (fork_names r) (plan_start, []) = Ok (p0, spans)" and
    c: "candidates E ?ts spans = Ok cands" and
    k: "classify E view (po_keyframe_interval pol) (rp_pool r) ?ts (lines_by_id spans) cands [] = Ok classes" and
    b: "rfold (plan_blob (rp_pool r) classes) ?ts p0 = Ok p1" and
    p: "p = p1\<lparr>pn_inputs := pn_inputs p1 @ map span_input spans\<rparr>"
    by (rule push_planE)
  from plan_blobs_Ok [OF b] obtain xs where xs: "pn_inputs p1 = xs" "list_all2 (blob_input (rp_pool r) classes) ?ts xs"
    using plan_fork_inputs [OF f] by (auto simp: plan_start_def)
  have "pending_ok (set ?ts - set (overflow_refs E spans)) [] cands"
    using candidates_Ok [OF c] by (simp add: pending_ok_def bt_has_def)
  from classify_Ok [OF k _ this]
  have cl: "classes_ok E view (po_keyframe_interval pol) (rp_pool r) (lines_by_id spans) classes"
    and keys: "{h. bt_has classes h} \<subseteq> set ?ts - set (overflow_refs E spans)"
    by (simp_all add: classes_ok_def)
  define depth where "depth h = (case bt_get (rv_depth view) h of Some d \<Rightarrow> d
        | None \<Rightarrow> (case bt_get classes h of Some c \<Rightarrow> class_depth c | None \<Rightarrow> 0))" for h
  have "list_all2 (carries (rp_pool r)) ?ts xs"
    by (rule list_all2_mono [OF xs(2)]) (auto simp: blob_input_def carries_def split: option.splits blob_class.splits)
  moreover have "construct_planned E (rp_pool r) view (po_keyframe_interval pol) spans depth h base i"
    if x: "SConstruct h base i \<in> set xs" for h base i
  proof -
    from x xs(2) obtain t where "blob_input (rp_pool r) classes t (SConstruct h base i)"
      by (auto simp: list_all2_conv_all_nth in_set_conv_nth)
    then obtain d where "bt_get classes h = Some (Construct_from base i d)"
      by (auto simp: blob_input_def split: option.splits blob_class.splits)
    from class_planned [OF cl this keys assms(2) depth_def] show ?thesis .
  qed
  ultimately show ?thesis
    by (intro exI [of _ xs] exI [of _ spans] exI [of _ depth]) (simp add: p xs(1) depth_def)
qed

subsection \<open>Fast-forwarding\<close>

lemma recovered_fork_log:
  assumes "current_state E r n = Ok st" "bt_ok (rp_forks r)" "read_fork_log E (recover E n r) n = Ok (ls, cks)"
  shows "ls = fs_lines st \<and> (\<exists>bs. log_bytes (recover E n r) n = Ok bs \<and> concat cks = bs)"
proof -
  from assms(1) obtain q ff m0 where "read_fork r n = Ok ff" and
    q: "read_log E r n = Ok q" "state_of_lines E (ff_anchor ff) m0 (pl_lines q) = Ok st"
    unfolding current_state_iff by blast
  then have st: "fs_lines st = pl_lines q" by (auto simp: state_of_lines_def Let_def split: if_splits)
  from q(1) obtain d where d: "bt_get (rp_forks r) n = Some d" "parse_log_lenient E (blob_get (rp_pool r)) (fd_log d) = Ok q"
    by (auto simp: read_log_def)
  from assms(3) obtain bs where b: "log_bytes (recover E n r) n = Ok bs"
    "parse_log_strict E (blob_get (rp_pool r)) bs = Ok ls" "cks = split_inclusive LF bs"
    by (auto simp: read_fork_log_def Let_def split: if_splits)
  from d(1) assms(2) b(1) have "bs = take (pl_valid_prefix q) (fd_log d)"
    by (auto simp: recover_def q(1) set_log_def log_bytes_def bt_get_insert)
  with lenient_truncates [OF d(2)] b st show ?thesis by simp
qed

definition head_forwarded ::
  "'s env \<Rightarrow> repo \<Rightarrow> (string, fork_head) btree \<Rightarrow> string \<Rightarrow> fork_head \<Rightarrow> bool" where
  "head_forwarded E r remotes n h \<longleftrightarrow> (\<exists>ff st. read_fork r n = Ok ff \<and> current_state E r n = Ok st \<and>
     (case bt_get remotes n of
        None \<Rightarrow> h = planned_head ff st []
      | Some remote \<Rightarrow> h = planned_head ff st (fh_log_segments remote) \<and>
          (fh_head_id remote = [] \<or> fh_head_id remote \<in> ll_id ` set (fs_lines st))))"

definition span_forwarded :: "'s env \<Rightarrow> repo \<Rightarrow> (string, fork_head) btree \<Rightarrow> fork_span \<Rightarrow> bool" where
  "span_forwarded E r remotes s = (case s of (n, ls, bs) \<Rightarrow> \<exists>st pre bp. current_state E r n = Ok st \<and>
     fs_lines st = pre @ ls \<and> ls \<noteq> [] \<and> log_bytes (recover E n r) n = Ok (bp @ bs) \<and>
     (case bt_get remotes n of
        None \<Rightarrow> pre = []
      | Some remote \<Rightarrow> if pre = [] then fh_head_id remote = [] else ll_id (last pre) = fh_head_id remote))"

lemma standing_Ahead:
  assumes "fork_standing remotes synced n i ls = Ok (Ahead k)"
  shows "case bt_get remotes n of
      None \<Rightarrow> k = 0
    | Some remote \<Rightarrow> if k = 0 then fh_head_id remote = []
        else k \<le> length ls \<and> ll_id (last (take k ls)) = fh_head_id remote \<and> fh_head_id remote \<in> ll_id ` set ls"
  using assms by (auto simp: fork_standing_def last_take_nth Suc_le_eq split: option.splits if_splits
      dest!: position_SomeD) (metis image_eqI nth_mem)

lemma standing_others:
  "fork_standing remotes synced n i ls = Ok (In_sync remote) \<Longrightarrow> bt_get remotes n = Some remote \<and> fh_head_id remote = i"
  "fork_standing remotes synced n i ls = Ok Behind \<Longrightarrow> bt_get synced n = Some i"
  by (auto simp: fork_standing_def split: option.splits if_splits)

lemma state_head: "current_state E r n = Ok st \<Longrightarrow> fs_head_id st = [] \<or> fs_head_id st \<in> ll_id ` set (fs_lines st)"
  by (auto simp: current_state_iff state_of_lines_def Let_def split: if_splits)

text \<open>The remote head is in the local log, or the local head is the one last synced.\<close>

definition not_diverged ::
  "'s env \<Rightarrow> repo \<Rightarrow> (string, fork_head) btree \<Rightarrow> (string, string) btree \<Rightarrow> string \<Rightarrow> bool" where
  "not_diverged E r remotes synced n \<longleftrightarrow> (\<exists>st. current_state E r n = Ok st \<and>
     (\<forall>remote. bt_get remotes n = Some remote \<longrightarrow> fh_head_id remote = [] \<or>
        fh_head_id remote \<in> ll_id ` set (fs_lines st) \<or> bt_get synced n = Some (fs_head_id st)))"

lemma plan_fork_forwards:
  assumes f: "plan_fork E r remotes synced n (p, spans) = Ok (p', spans')" and ok: "bt_ok (rp_forks r)"
    and heads: "bt_ok (pn_heads p) \<and> (\<forall>n h. bt_get (pn_heads p) n = Some h \<longrightarrow> head_forwarded E r remotes n h)"
    and sp: "\<forall>s \<in> set spans. span_forwarded E r remotes s"
  shows "bt_ok (pn_heads p') \<and> (\<forall>n h. bt_get (pn_heads p') n = Some h \<longrightarrow> head_forwarded E r remotes n h) \<and>
    (\<forall>s \<in> set spans'. span_forwarded E r remotes s) \<and> not_diverged E r remotes synced n"
proof -
  from plan_fork_Ok [OF f] obtain ff st ls cks s where
    c: "read_fork r n = Ok ff" "current_state E r n = Ok st" "read_fork_log E (recover E n r) n = Ok (ls, cks)"
      "fork_standing remotes synced n (fs_head_id st) ls = Ok s" and
    s: "case s of
       In_sync remote \<Rightarrow> spans' = spans \<and>
         (pn_heads p' = pn_heads p \<or> pn_heads p' = bt_insert n (planned_head ff st (fh_log_segments remote)) (pn_heads p))
     | Behind \<Rightarrow> spans' = spans \<and> pn_heads p' = pn_heads p
     | Ahead k \<Rightarrow> pn_heads p' = bt_insert n (planned_head ff st
           (case bt_get remotes n of None \<Rightarrow> [] | Some remote \<Rightarrow> fh_log_segments remote)) (pn_heads p) \<and>
         spans' = (if k < length ls then spans @ [(n, drop k ls, concat (drop k cks))] else spans)"
    by blast
  from recovered_fork_log [OF c(2) ok c(3)] have ls: "ls = fs_lines st"
    and b: "log_bytes (recover E n r) n = Ok (concat cks)" by auto
  have ins: "bt_ok (bt_insert n h (pn_heads p)) \<and>
      (\<forall>m x. bt_get (bt_insert n h (pn_heads p)) m = Some x \<longrightarrow> head_forwarded E r remotes m x)"
    if "head_forwarded E r remotes n h" for h
    using that heads by (auto simp: bt_ok_insert bt_get_insert)
  show ?thesis
  proof (cases s)
    case (In_sync remote)
    with standing_others(1) c(4) have rm: "bt_get remotes n = Some remote" "fh_head_id remote = fs_head_id st" by blast+
    with c(1,2) state_head [OF c(2)] have "head_forwarded E r remotes n (planned_head ff st (fh_log_segments remote))"
      "not_diverged E r remotes synced n"
      by (auto simp: head_forwarded_def not_diverged_def)
    with ins [of "planned_head ff st (fh_log_segments remote)"] heads sp s In_sync show ?thesis by auto
  next
    case Behind
    with standing_others(2) c(2,4) have "not_diverged E r remotes synced n" by (auto simp: not_diverged_def)
    with heads sp s Behind show ?thesis by simp
  next
    case (Ahead k)
    with c(4) standing_Ahead have st: "case bt_get remotes n of
      None \<Rightarrow> k = 0
    | Some remote \<Rightarrow> if k = 0 then fh_head_id remote = []
        else k \<le> length ls \<and> ll_id (last (take k ls)) = fh_head_id remote \<and> fh_head_id remote \<in> ll_id ` set ls"
      by blast
    then have m: "fh_head_id remote = [] \<or> fh_head_id remote \<in> ll_id ` set (fs_lines st)"
      if "bt_get remotes n = Some remote" for remote
      using that ls by (cases "k = 0") simp_all
    have h: "head_forwarded E r remotes n (planned_head ff st
           (case bt_get remotes n of None \<Rightarrow> [] | Some remote \<Rightarrow> fh_log_segments remote))"
      using c(1,2) ls unfolding head_forwarded_def
      by (intro exI [of _ ff] exI [of _ st]) (simp add: m split: option.split)
    have "Ok (concat cks) = Ok (concat (take k cks) @ concat (drop k cks))"
      by (simp flip: concat_append)
    with b have b': "log_bytes (recover E n r) n = Ok (concat (take k cks) @ concat (drop k cks))" by metis
    have e: "case bt_get remotes n of
        None \<Rightarrow> take k ls = []
      | Some remote \<Rightarrow> if take k ls = [] then fh_head_id remote = [] else ll_id (last (take k ls)) = fh_head_id remote"
      if "k < length ls" using st that by (cases "bt_get remotes n"; cases "k = 0") auto
    have "span_forwarded E r remotes (n, drop k ls, concat (drop k cks))" if "k < length ls"
      unfolding span_forwarded_def prod.case
      by (intro exI [of _ st] exI [of _ "take k ls"] exI [of _ "concat (take k cks)"] conjI c(2) b' e that)
        (use that ls in simp_all)
    moreover have "not_diverged E r remotes synced n"
      using st c(2) ls by (auto simp: not_diverged_def split: if_splits)
    ultimately show ?thesis using ins [OF h] sp s Ahead by auto
  qed
qed

lemma push_plan_forwards:
  assumes "push_plan E r view synced pol = Ok p" "bt_ok (rp_forks r)"
  shows "(\<forall>n h. bt_get (pn_heads p) n = Some h \<longrightarrow> head_forwarded E r (remote_forks view) n h) \<and>
    (\<forall>n \<in> set (fork_names r). not_diverged E r (remote_forks view) synced n) \<and>
    (\<exists>blobs spans. pn_inputs p = blobs @ map span_input spans \<and> (\<forall>s \<in> set spans. span_forwarded E r (remote_forks view) s))"
proof -
  let ?R = "remote_forks view"
  have run: "rfold (plan_fork E r ?R synced) ns (p, spans) = Ok (p', spans') \<Longrightarrow>
      bt_ok (pn_heads p) \<and> (\<forall>n h. bt_get (pn_heads p) n = Some h \<longrightarrow> head_forwarded E r ?R n h) \<Longrightarrow>
      \<forall>s \<in> set spans. span_forwarded E r ?R s \<Longrightarrow>
      (\<forall>n h. bt_get (pn_heads p') n = Some h \<longrightarrow> head_forwarded E r ?R n h) \<and>
      (\<forall>s \<in> set spans'. span_forwarded E r ?R s) \<and> (\<forall>n \<in> set ns. not_diverged E r ?R synced n)" for ns p spans p' spans'
  proof (induction ns arbitrary: p spans)
    case (Cons n ns)
    from Cons.prems(1) obtain p1 s1 where 1: "plan_fork E r ?R synced n (p, spans) = Ok (p1, s1)"
      "rfold (plan_fork E r ?R synced) ns (p1, s1) = Ok (p', spans')" by auto
    from plan_fork_forwards [OF 1(1) assms(2) Cons.prems(2,3)] Cons.IH [OF 1(2)] show ?case by auto
  qed simp
  from assms(1) obtain p0 spans cands classes p1 where
    f: "rfold (plan_fork E r ?R synced) (fork_names r) (plan_start, []) = Ok (p0, spans)" and
    b: "rfold (plan_blob (rp_pool r) classes) (blobs_to_send (rp_pool r) view) p0 = Ok p1" and
    p: "p = p1\<lparr>pn_inputs := pn_inputs p1 @ map span_input spans\<rparr>"
    by (rule push_planE)
  from plan_blobs_Ok [OF b] run [OF f] p show ?thesis by (auto simp: plan_start_def)
qed

subsection \<open>The swap of an assembled push\<close>

text \<open>The foldable segments, in the order of the manifest.\<close>

lemma bs_remove_ordered:
  "filter (\<lambda>k. k \<in> set cs) ks = cs \<Longrightarrow> filter (\<lambda>k. k \<in> set (bs_remove x cs)) ks = bs_remove x cs"
proof -
  assume a: "filter (\<lambda>k. k \<in> set cs) ks = cs"
  have "filter (\<lambda>k. k \<in> set (bs_remove x cs)) ks = filter (\<lambda>k. x \<noteq> k) (filter (\<lambda>k. k \<in> set cs) ks)"
    by (auto simp: intro: filter_cong)
  then show ?thesis by (simp add: a bs_remove_def removeAll_filter_not_eq)
qed

lemma keep_prefix_ordered:
  "filter (\<lambda>k. k \<in> set (snd st)) ks = snd st \<Longrightarrow> filter (\<lambda>k. k \<in> set (snd (keep_prefix h st))) ks = snd (keep_prefix h st)"
proof -
  assume a: "filter (\<lambda>k. k \<in> set (snd st)) ks = snd st"
  have "filter (\<lambda>k. k \<in> set (snd st)) ks = snd st \<Longrightarrow>
      filter (\<lambda>k. k \<in> set (snd (fold (\<lambda>segid (any, cands). (any \<or> segid \<in> set cands, bs_remove segid cands)) xs st))) ks =
      snd (fold (\<lambda>segid (any, cands). (any \<or> segid \<in> set cands, bs_remove segid cands)) xs st)" for xs st
    by (induction xs arbitrary: st) (auto simp: bs_remove_ordered simp del: set_bs_remove split: prod.splits)
  note f = this [OF a]
  show ?thesis
    by (cases "rposition (\<lambda>s. s \<notin> set (snd st)) (fh_log_segments h)") (simp_all only: keep_prefix_def option.case a f)
qed

lemma compaction_loop_ordered:
  "filter (\<lambda>k. k \<in> set cs) ks = cs \<Longrightarrow>
   filter (\<lambda>k. k \<in> set (compaction_loop hs cs)) ks = compaction_loop hs cs"
proof (induction hs cs rule: compaction_loop.induct)
  case (1 hs cs)
  obtain b cs' where r: "compaction_round hs cs = (b, cs')" by force
  have "filter (\<lambda>k. k \<in> set (snd st)) ks = snd st \<Longrightarrow>
      filter (\<lambda>k. k \<in> set (snd (fold keep_prefix hs st))) ks = snd (fold keep_prefix hs st)" for st
    by (induction hs arbitrary: st) (simp_all add: keep_prefix_ordered)
  from this [of "(False, cs)"] 1(2) r have c: "filter (\<lambda>k. k \<in> set cs') ks = cs'"
    by (simp add: compaction_round_def)
  with 1(1) [OF r [symmetric]] show ?case
    by (subst (1 2) compaction_loop.simps) (simp add: r)
qed

lemma folded_ordered:
  assumes "bt_ok (sm_segments base)"
  shows "folded_segments base pol =
    map fst (filter (\<lambda>p. fst p \<in> set (folded_segments base pol)) (sm_segments base))"
proof -
  let ?P = "\<lambda>(segid :: string, meta). me_bytes meta < po_small_segment pol"
  let ?cs = "map fst (filter ?P (sm_segments base))"
  have "filter (\<lambda>k. k \<in> set ?cs) (map fst (sm_segments base)) = map fst (filter (\<lambda>p. fst p \<in> set ?cs) (sm_segments base))"
    by (simp add: filter_map comp_def)
  also have "\<dots> = ?cs"
    using bt_ok_distinct [OF assms]
    by (intro arg_cong [where f = "map fst"] filter_cong) (auto simp: distinct_map inj_on_def dest!: eq_key_imp_eq_value)
  finally have "filter (\<lambda>k. k \<in> set (compaction_candidates base pol)) (map fst (sm_segments base)) = compaction_candidates base pol"
    unfolding compaction_candidates_def by (rule compaction_loop_ordered)
  then show ?thesis by (simp add: folded_segments_def Let_def filter_map comp_def)
qed

context setsum
begin

lemma folded_image_sums:
  assumes "bt_ok (sm_segments base)"
  shows "folded_image E base (folded_segments base pol) =
    meta_sums E (bt_values (filter (\<lambda>p. fst p \<in> set (folded_segments base pol)) (sm_segments base)))"
proof -
  let ?f = "\<lambda>segid total. rbind (ok_or Panic (bt_get (sm_segments base) segid)) (\<lambda>meta.
     rmap (ss_add E total) (sum_from_hexdigest E (me_image_setsum meta)))"
  have "\<forall>p \<in> set ps. bt_get (sm_segments base) (fst p) = Some (snd p) \<Longrightarrow> rfold ?f (map fst ps) t =
      rfold (\<lambda>meta total. rmap (ss_add E total) (sum_from_hexdigest E (me_image_setsum meta))) (bt_values ps) t" for ps t
  proof (induction ps arbitrary: t)
    case (Cons p ps)
    then show ?case by (cases "sum_from_hexdigest E (me_image_setsum (snd p))") (simp_all add: bt_values_def)
  qed (simp add: bt_values_def)
  moreover have "\<forall>p \<in> set (sm_segments base). bt_get (sm_segments base) (fst p) = Some (snd p)"
    using btree.entries_get [OF assms] by auto
  ultimately show ?thesis
    by (subst folded_ordered [OF assms]) (simp add: folded_image_def meta_sums_def)
qed

lemma built_sums:
  assumes "bt_ok m" "distinct (map bs_segid segs)" "\<forall>b \<in> set segs. bt_get m (bs_segid b) = None"
  shows "meta_sums E (bt_values (fold (\<lambda>b. bt_insert (bs_segid b) (meta_of E b)) segs m)) = Ok s \<longleftrightarrow>
    (\<exists>k. meta_sums E (bt_values m) = Ok k \<and>
      s = ss_add E (fold (\<lambda>b total. ss_add E total (bs_image_setsum b)) segs (ss_zero E)) k)"
proof -
  have shift: "fold (\<lambda>b total. ss_add E total (bs_image_setsum b)) segs (ss_add E u t) =
      ss_add E u (fold (\<lambda>b total. ss_add E total (bs_image_setsum b)) segs t)" for u t
    and segs :: "'s built_segment list"
    by (induction segs arbitrary: t) (simp_all add: add_assoc)
  show ?thesis using assms
  proof (induction segs arbitrary: m)
    case (Cons b segs)
    let ?m = "bt_insert (bs_segid b) (meta_of E b) m" and ?B = "fold (\<lambda>b total. ss_add E total (bs_image_setsum b)) segs"
    have i: "meta_sums E (bt_values ?m) = Ok k \<longleftrightarrow>
        (\<exists>c. meta_sums E (bt_values m) = Ok c \<and> k = ss_add E (bs_image_setsum b) c)" for k
      using Cons.prems by (simp add: meta_sums_insert meta_of_def sum_from_hexdigest_def)
    have "?B (ss_add E (ss_zero E) (bs_image_setsum b)) = ss_add E (bs_image_setsum b) (?B (ss_zero E))"
      using shift [of segs "bs_image_setsum b" "ss_zero E"] by (simp add: add_comm)
    moreover have "\<forall>x \<in> set segs. bt_get ?m (bs_segid x) = None"
    proof
      fix x assume x: "x \<in> set segs"
      with Cons.prems(2) have "bs_segid x \<noteq> bs_segid b" by (metis distinct.simps(2) image_eqI list.set_map list.simps(9))
      with x Cons.prems show "bt_get ?m (bs_segid x) = None" by (simp add: bt_get_insert)
    qed
    ultimately show ?case
      using Cons.IH [of ?m] Cons.prems(1,2) by (auto simp: bt_ok_insert i add_assoc add_comm group.add.left_commute)
  qed simp
qed

end

lemma assemble_Ok:
  assumes "assemble E get c pool view p pol = Ok (Some a, c')"
  shows "\<exists>inputs old. let base = view_base view; folded = folded_segments base pol; m = as_manifest a; segs = as_segments a in
    merged_inputs E get c pool view base folded (pn_inputs p) = Ok (inputs, c') \<and>
    build_segments E inputs (po_segment_target pol) (po_level pol) = Ok segs \<and>
    folded_image E base folded = Ok old \<and>
    fold (\<lambda>b total. ss_add E total (bs_image_setsum b)) segs (ss_zero E) =
      ss_add E old (image_setsum E (concat (map (input_items E) (pn_inputs p)))) \<and>
    next_seq view = Ok (sm_seq m) \<and> sm_v m = 0 \<and>
    sm_prev m = (case rv_manifest view of None \<Rightarrow> [] | Some m \<Rightarrow> sm_id m) \<and>
    sm_forks m = next_forks base (pn_heads p) folded segs \<and> sm_segments m = next_segments E base folded segs \<and>
    sm_anchors m = next_anchors (sm_forks m) \<and> sm_retire m = folded \<and>
    record_id E (sm_to_value (m\<lparr>sm_id := []\<rparr>)) = Ok (sm_id m)"
proof -
  let ?base = "view_base view" let ?folded = "folded_segments ?base pol"
  from assms obtain inputs segs old seq m where
    "merged_inputs E get c pool view ?base ?folded (pn_inputs p) = Ok (inputs, c')"
    "build_segments E inputs (po_segment_target pol) (po_level pol) = Ok segs"
    "folded_image E ?base ?folded = Ok old"
    "fold (\<lambda>b total. ss_add E total (bs_image_setsum b)) segs (ss_zero E) =
      ss_add E old (image_setsum E (concat (map (input_items E) (pn_inputs p))))"
    "next_seq view = Ok seq"
    "sealed_manifest E
        \<lparr>sm_id = [], sm_v = 0, sm_seq = seq,
         sm_prev = (case rv_manifest view of None \<Rightarrow> [] | Some m \<Rightarrow> sm_id m),
         sm_forks = next_forks ?base (pn_heads p) ?folded segs, sm_segments = next_segments E ?base ?folded segs,
         sm_anchors = next_anchors (next_forks ?base (pn_heads p) ?folded segs), sm_retire = ?folded\<rparr> = Ok m"
    "a = \<lparr>as_segments = segs, as_manifest = m, as_compacted = length ?folded\<rparr>"
    by (auto simp: assemble_def Let_def split: if_splits)
  then show ?thesis by (auto simp: sealed_manifest_def Let_def)
qed

text \<open>The names of the new segments are distinct and none is that of a kept one.\<close>

definition segids_fresh :: "serve_manifest \<Rightarrow> string bset \<Rightarrow> 's built_segment list \<Rightarrow> bool" where
  "segids_fresh base folded segs \<longleftrightarrow> distinct (map bs_segid segs) \<and>
     (\<forall>b \<in> set segs. bs_segid b \<in> set folded \<or> \<not> bt_has (sm_segments base) (bs_segid b))"

context setsum
begin

lemma assembled_image:
  assumes a: "assemble E get c pool view p pol = Ok (Some a, c')" and ok: "bt_ok (sm_segments (view_base view))"
    and fresh: "segids_fresh (view_base view) (sm_retire (as_manifest a)) (as_segments a)"
    and t: "total_image E (view_base view) = Ok t"
  shows "total_image E (as_manifest a) = Ok (ss_add E t (image_setsum E (concat (map (input_items E) (pn_inputs p)))))"
proof -
  let ?base = "view_base view" let ?folded = "folded_segments ?base pol" and ?segs = "as_segments a"
  let ?added = "image_setsum E (concat (map (input_items E) (pn_inputs p)))"
  let ?kept = "filter (\<lambda>p. fst p \<notin> set ?folded) (sm_segments ?base)"
  from assemble_Ok [OF a] obtain old where
    o: "folded_image E ?base ?folded = Ok old" and
    b: "fold (\<lambda>b total. ss_add E total (bs_image_setsum b)) ?segs (ss_zero E) = ss_add E old ?added" and
    n: "sm_segments (as_manifest a) = next_segments E ?base ?folded ?segs" and
    r: "sm_retire (as_manifest a) = ?folded"
    by (auto simp: Let_def)
  from t meta_sums_split [of "sm_segments ?base" t "\<lambda>k. k \<in> set ?folded"] obtain k where
    k: "meta_sums E (bt_values ?kept) = Ok k" and s: "t = ss_add E old k"
    using o by (auto simp: total_image_meta_sums folded_image_sums [OF ok])
  have kok: "bt_ok ?kept" using ok by (simp add: bt_ok_def sorted_wrt_map sorted_wrt_filter)
  have "bt_get ?kept (bs_segid b) = None" if "b \<in> set ?segs" for b
    using fresh that r by (force simp: segids_fresh_def bt_has_iff map_of_eq_None_iff)
  then have "meta_sums E (bt_values (next_segments E ?base ?folded ?segs)) = Ok s' \<longleftrightarrow>
      s' = ss_add E (ss_add E old ?added) k" for s'
    using built_sums [OF kok, of ?segs s'] fresh k
    by (simp add: segids_fresh_def next_segments_def b case_prod_unfold)
  then show ?thesis
    by (simp add: total_image_meta_sums n s add_assoc group.add.commute group.add.left_commute)
qed

end

end
