(* ===== verification/Push.thy ===== *)
theory Push
  imports Delta
begin

text \<open>
  The client operations of \<open>src/src/wire.rs\<close>: \<open>push\<close>, \<open>clone\<close> and \<open>fetch\<close>, on the
  directory-backed store.  A push makes at most \<open>PUSH_ATTEMPTS\<close> attempts; once an
  attempt has read, other clients change the store before each of its segments and
  before its manifest, by whatever the parameter \<open>others\<close> does at that point of that
  attempt.  Main results: the store at the end is what the clients' puts and the push's
  own made of it, and no object is changed; a published manifest takes a name free at
  that moment, continues the newest one the attempt saw, and leaves a complete chain
  complete; an attempt that loses lost to a manifest another client published meanwhile,
  so an undisturbed push needs one attempt.
\<close>

subsection \<open>Push\<close>

record push_outcome =
  po_manifest :: serve_manifest
  po_published :: bool
  po_segments :: nat
  po_uploaded :: nat
  po_constructs :: nat
  po_keyframes :: nat
  po_compacted :: nat
  po_attempts :: nat

definition PUSH_ATTEMPTS :: nat where "PUSH_ATTEMPTS = 16"

record push_state =
  ps_store :: objects
  ps_cache :: remote_cache
  ps_uploaded :: nat

text \<open>HEAD, then PUT when the store lacks the object.\<close>

definition upload_object :: "(string \<Rightarrow> bool) \<Rightarrow> string \<Rightarrow> bytes \<Rightarrow> push_state \<Rightarrow> push_state result" where
  "upload_object parse name bs st =
     rbind (fs_exists parse (ps_store st) name) (\<lambda>e.
     if e then Ok st else
     rmap (\<lambda>s. st\<lparr>ps_store := s, ps_uploaded := ps_uploaded st + length bs\<rparr>) (fs_put parse name bs (ps_store st)))"

definition upload_segment ::
  "(string \<Rightarrow> bool) \<Rightarrow> policy \<Rightarrow> 's built_segment \<Rightarrow> push_state \<Rightarrow> push_state result" where
  "upload_segment parse pol b st =
     rbind (upload_object parse (''seg/'' @ bs_segid b @ ''.pk'') (bs_pk b) st) (\<lambda>st.
     rbind (upload_object parse (''seg/'' @ bs_segid b @ ''.idx'') (bs_idx b) st) (\<lambda>st.
     let c = cache_keep_idx (bs_idx_sha3 b) (bs_idx b) (ps_cache st) in
     Ok (st\<lparr>ps_cache := if length (bs_pk b) < po_small_segment pol then cache_keep_pk (bs_segid b) (bs_pk b) c else c\<rparr>)))"

text \<open>The reading half of an attempt: discovery, the view, the plan and its assembly.\<close>

definition push_prepare ::
  "'s env \<Rightarrow> (string \<Rightarrow> bool) \<Rightarrow> repo \<Rightarrow> policy \<Rightarrow> push_state \<Rightarrow>
   (serve_manifest option \<times> plan \<times> 's assembled option \<times> remote_cache) result" where
  "push_prepare E parse r pol st =
     (let get = fs_get parse (ps_store st) in
      rbind (discover E (fs_list parse (ps_store st)) get (ps_cache st)) (\<lambda>(base, c).
      let synced = synced_heads E c in
      rbind (view_load E get c base) (\<lambda>(view, c).
      rbind (push_plan E r view synced pol) (\<lambda>p.
      rbind (assemble E get c (rp_pool r) view p pol) (\<lambda>(a, c).
      Ok (base, p, a, c))))))"

text \<open>The writing half: segments, then the manifest if its name is free.  Other clients act
  before the \<open>i\<close>-th segment, and last before the manifest.\<close>

definition disturb :: "(objects \<Rightarrow> objects) \<Rightarrow> push_state \<Rightarrow> push_state" where
  "disturb f st = st\<lparr>ps_store := f (ps_store st)\<rparr>"

definition push_publish ::
  "'s env \<Rightarrow> (string \<Rightarrow> bool) \<Rightarrow> policy \<Rightarrow> (nat \<Rightarrow> objects \<Rightarrow> objects) \<Rightarrow> nat \<Rightarrow> plan \<Rightarrow> 's assembled \<Rightarrow> push_state \<Rightarrow>
   (push_outcome option \<times> push_state) result" where
  "push_publish E parse pol others attempt p a st =
     rbind (rfold (\<lambda>(i, b) st. upload_segment parse pol b (disturb (others i) st))
         (enumerate 0 (as_segments a)) st) (\<lambda>st.
     let m = as_manifest a; st = disturb (others (length (as_segments a))) st in
     rbind (sm_to_bytes m) (\<lambda>bs.
     rbind (fs_put_if_absent parse (manifest_name (sm_seq m)) bs (ps_store st)) (\<lambda>(won, s).
     if \<not> won then Ok (None, st\<lparr>ps_store := s\<rparr>) else
     rbind (cache_set_manifest m (ps_cache st)) (\<lambda>c.
     rbind (set_synced_heads E (pn_synced p) c) (\<lambda>c.
     let uploaded = ps_uploaded st + length bs in
     Ok (Some \<lparr>po_manifest = m, po_published = True, po_segments = length (as_segments a), po_uploaded = uploaded,
          po_constructs = pn_constructs p, po_keyframes = pn_keyframes p, po_compacted = as_compacted a,
          po_attempts = attempt\<rparr>,
        \<lparr>ps_store = s, ps_cache = cache_prune_pk m c, ps_uploaded = uploaded\<rparr>))))))"

definition push_attempt ::
  "'s env \<Rightarrow> (string \<Rightarrow> bool) \<Rightarrow> repo \<Rightarrow> policy \<Rightarrow> (nat \<Rightarrow> nat \<Rightarrow> objects \<Rightarrow> objects) \<Rightarrow> nat \<Rightarrow> push_state \<Rightarrow>
   (push_outcome option \<times> push_state) result" where
  "push_attempt E parse r pol others attempt st =
     rbind (push_prepare E parse r pol st) (\<lambda>(base, p, a, c).
     let st = st\<lparr>ps_cache := c\<rparr> in
     case a of
       None \<Rightarrow>
         rbind (set_synced_heads E (pn_synced p) c) (\<lambda>c.
         rbind (ok_or Invalid base) (\<lambda>m.
         Ok (Some \<lparr>po_manifest = m, po_published = False, po_segments = 0, po_uploaded = ps_uploaded st,
              po_constructs = pn_constructs p, po_keyframes = pn_keyframes p, po_compacted = 0, po_attempts = attempt\<rparr>,
            st\<lparr>ps_cache := c\<rparr>)))
     | Some a \<Rightarrow> push_publish E parse pol (others attempt) attempt p a st)"

fun push_loop ::
  "'s env \<Rightarrow> (string \<Rightarrow> bool) \<Rightarrow> repo \<Rightarrow> policy \<Rightarrow> (nat \<Rightarrow> nat \<Rightarrow> objects \<Rightarrow> objects) \<Rightarrow> nat list \<Rightarrow> push_state \<Rightarrow>
   (push_outcome \<times> push_state) result" where
  "push_loop E parse r pol others [] st = Err Invalid"
| "push_loop E parse r pol others (k # ks) st =
     rbind (push_attempt E parse r pol others k st) (\<lambda>(out, st). case out of
         Some out \<Rightarrow> Ok (out, st)
       | None \<Rightarrow> push_loop E parse r pol others ks st)"

definition push ::
  "'s env \<Rightarrow> (string \<Rightarrow> bool) \<Rightarrow> repo \<Rightarrow> policy \<Rightarrow> (nat \<Rightarrow> nat \<Rightarrow> objects \<Rightarrow> objects) \<Rightarrow> remote_cache \<Rightarrow> objects \<Rightarrow>
   (push_outcome \<times> push_state) result" where
  "push E parse r pol others c s =
     push_loop E parse r pol others [1..<PUSH_ATTEMPTS + 1] \<lparr>ps_store = s, ps_cache = c, ps_uploaded = 0\<rparr>"

subsection \<open>Clone\<close>

text \<open>One fetched object, recorded with its name.\<close>

definition fetch_object :: "(string \<Rightarrow> bytes option result) \<Rightarrow> string \<Rightarrow> bytes result" where
  "fetch_object get name = rbind (get name) (ok_or Corrupt)"

text \<open>The names an unpacking fetches, in its order.\<close>

definition fetched_names :: "serve_manifest \<Rightarrow> string list" where
  "fetched_names m = concat (map (\<lambda>segid. [''seg/'' @ segid @ ''.pk'', ''seg/'' @ segid @ ''.idx'']) (bt_keys (sm_segments m)))"

definition seed_object :: "serve_manifest \<Rightarrow> policy \<Rightarrow> string \<times> bytes \<Rightarrow> remote_cache \<Rightarrow> remote_cache result" where
  "seed_object m pol p c = (case p of (name, bs) \<Rightarrow>
     (case strip_prefix ''seg/'' name of
        None \<Rightarrow> Ok c
      | Some rest \<Rightarrow> (case strip_suffix ''.idx'' rest of
          Some segid \<Rightarrow>
            rmap (\<lambda>meta. cache_keep_idx (me_idx_sha3 meta) bs c) (ok_or Panic (bt_get (sm_segments m) segid))
        | None \<Rightarrow> (case strip_suffix ''.pk'' rest of
            Some segid \<Rightarrow>
              rmap (\<lambda>meta. if me_bytes meta < po_small_segment pol then cache_keep_pk segid bs c else c)
                (ok_or Panic (bt_get (sm_segments m) segid))
          | None \<Rightarrow> Ok c))))"

definition clone_store ::
  "'s env \<Rightarrow> (string \<Rightarrow> bool) \<Rightarrow> objects \<Rightarrow> tree \<Rightarrow> (repo \<times> remote_cache) result" where
  "clone_store E parse s t =
     rbind (remote_latest E (fs_list parse s) (fs_get parse s)) (\<lambda>m.
     rbind (ok_or Invalid m) (\<lambda>m.
     let get = fetch_object (fs_get parse s) in
     rbind (unpack_segments E m get) (\<lambda>u.
     rbind (restore E u t) (\<lambda>r.
     rbind (rmapM (\<lambda>name. rmap (Pair name) (get name)) (fetched_names m)) (\<lambda>fetched.
     rbind (rfold (seed_object m default_policy) fetched cache_empty) (\<lambda>c.
     rbind (cache_set_manifest m c) (\<lambda>c.
     rmap (Pair r) (set_synced_heads E (map (\<lambda>(fork, h). (fork, fh_head_id h)) (sm_forks m)) c))))))))"

subsection \<open>Fetch\<close>

text \<open>A packed cache directory, as a map from names to contents.\<close>

definition fetch_one :: "(string \<Rightarrow> bytes option result) \<Rightarrow> string \<Rightarrow> directory \<Rightarrow> directory result" where
  "fetch_one get name dir =
     (if bt_has dir name then Ok dir
      else rmap (\<lambda>bs. bt_insert name bs dir) (fetch_object get name))"

definition fetch_segment :: "(string \<Rightarrow> bytes option result) \<Rightarrow> string \<Rightarrow> directory \<Rightarrow> directory result" where
  "fetch_segment get segid dir =
     rbind (fetch_one get (''seg/'' @ segid @ ''.pk'') dir) (fetch_one get (''seg/'' @ segid @ ''.idx''))"

definition fetch_store ::
  "'s env \<Rightarrow> (string \<Rightarrow> bool) \<Rightarrow> objects \<Rightarrow> directory \<Rightarrow> (serve_manifest option \<times> directory) result" where
  "fetch_store E parse s dir =
     rbind (remote_latest E (fs_list parse s) (fs_get parse s)) (\<lambda>m. case m of
         None \<Rightarrow> Ok (None, dir)
       | Some m \<Rightarrow>
           rbind (rfold (fetch_segment (fs_get parse s)) (bt_keys (sm_segments m)) dir) (\<lambda>dir.
           rmap (\<lambda>bs. (Some m, bt_insert (''manifest/'' @ show_nat (sm_seq m) @ ''.json'') bs dir)) (sm_to_bytes m)))"

subsection \<open>Objects are written once\<close>

definition store_grows :: "objects \<Rightarrow> objects \<Rightarrow> bool" where
  "store_grows s s' \<longleftrightarrow> bt_ok s' \<and> (\<forall>n b. bt_get s n = Some b \<longrightarrow> bt_get s' n = Some b)"

lemma grows_trans: "store_grows a b \<Longrightarrow> store_grows b c \<Longrightarrow> store_grows a c"
  by (auto simp: store_grows_def)

lemma grows_same [simp]: "store_grows s s \<longleftrightarrow> bt_ok s"
  by (simp add: store_grows_def)

lemma grows_has: "store_grows s s' \<Longrightarrow> bt_has s n \<Longrightarrow> bt_has s' n"
  by (auto simp: store_grows_def bt_has_def)

lemma put_grows:
  assumes "fs_put_if_absent parse n b s = Ok (won, s')" "bt_ok s"
  shows "store_grows s s' \<and> (won \<longleftrightarrow> \<not> bt_has s n) \<and> bt_has s' n \<and> (won \<longrightarrow> bt_get s' n = Some b) \<and>
    (\<forall>m. m \<noteq> n \<longrightarrow> bt_get s' m = bt_get s m)"
  using assms
  by (auto simp: fs_put_if_absent_def store_grows_def bt_has_def bt_ok_insert bt_get_insert split: if_splits)

text \<open>What uploading does: names under \<open>seg/\<close> may appear, nothing else changes.\<close>

definition uploads :: "push_state \<Rightarrow> push_state \<Rightarrow> bool" where
  "uploads st st' \<longleftrightarrow> store_grows (ps_store st) (ps_store st') \<and>
     (\<forall>n. \<not> starts_with ''seg/'' n \<longrightarrow> bt_get (ps_store st') n = bt_get (ps_store st) n)"

lemma uploads_trans: "uploads a b \<Longrightarrow> uploads b c \<Longrightarrow> uploads a c"
  unfolding uploads_def using grows_trans by fastforce

lemma uploads_ok: "uploads st st' \<Longrightarrow> bt_ok (ps_store st')"
  by (simp add: uploads_def store_grows_def)

lemma upload_object_Ok:
  assumes "upload_object parse n b st = Ok st'" "bt_ok (ps_store st)" "starts_with ''seg/'' n"
  shows "uploads st st' \<and> bt_has (ps_store st') n"
proof -
  from assms(1) consider "st' = st" "bt_has (ps_store st) n"
    | won s where "fs_put_if_absent parse n b (ps_store st) = Ok (won, s)" "ps_store st' = s"
    by (auto simp: upload_object_def fs_exists_def fs_put_def split: if_splits)
  then show ?thesis
  proof cases
    case 2
    from put_grows [OF 2(1) assms(2)] 2(2) assms(3) show ?thesis by (auto simp: uploads_def)
  qed (use assms(2) in \<open>simp add: uploads_def\<close>)
qed

definition served :: "objects \<Rightarrow> string \<Rightarrow> bool" where
  "served s segid \<longleftrightarrow> bt_has s (''seg/'' @ segid @ ''.pk'') \<and> bt_has s (''seg/'' @ segid @ ''.idx'')"

lemma served_grows: "store_grows s s' \<Longrightarrow> served s i \<Longrightarrow> served s' i"
  by (simp add: served_def grows_has)

lemma upload_segment_Ok:
  assumes "upload_segment parse pol b st = Ok st'" "bt_ok (ps_store st)"
  shows "uploads st st' \<and> served (ps_store st') (bs_segid b)"
proof -
  from assms(1) obtain s1 s2 where
    1: "upload_object parse (''seg/'' @ bs_segid b @ ''.pk'') (bs_pk b) st = Ok s1" and
    2: "upload_object parse (''seg/'' @ bs_segid b @ ''.idx'') (bs_idx b) s1 = Ok s2" and
    s: "ps_store st' = ps_store s2"
    by (auto simp: upload_segment_def Let_def)
  from upload_object_Ok [OF 1 assms(2)] have u1: "uploads st s1" "bt_has (ps_store s1) (''seg/'' @ bs_segid b @ ''.pk'')"
    by (simp_all add: starts_with_def)
  from upload_object_Ok [OF 2 uploads_ok [OF u1(1)]]
  have u2: "uploads s1 s2" "bt_has (ps_store s2) (''seg/'' @ bs_segid b @ ''.idx'')"
    by (simp_all add: starts_with_def)
  have "bt_has (ps_store s2) (''seg/'' @ bs_segid b @ ''.pk'')"
    using u2(1) u1(2) grows_has by (auto simp: uploads_def)
  with uploads_trans [OF u1(1) u2(1)] u2(2) s show ?thesis by (simp add: uploads_def served_def)
qed

text \<open>Other clients put objects; they change and remove none.\<close>

definition others_grow :: "(nat \<Rightarrow> nat \<Rightarrow> objects \<Rightarrow> objects) \<Rightarrow> bool" where
  "others_grow others \<longleftrightarrow> (\<forall>k i s. bt_ok s \<longrightarrow> store_grows s (others k i s))"

text \<open>A step of an upload puts objects under \<open>seg/\<close> and changes nothing else.\<close>

definition adds_segments :: "objects \<Rightarrow> objects \<Rightarrow> bool" where
  "adds_segments s s' \<longleftrightarrow> store_grows s s' \<and> (\<forall>n. \<not> starts_with ''seg/'' n \<longrightarrow> bt_get s' n = bt_get s n)"

text \<open>From point \<open>i\<close> to point \<open>j\<close>: at each, the other clients act, and then a segment is put.\<close>

inductive uploaded_under :: "(nat \<Rightarrow> objects \<Rightarrow> objects) \<Rightarrow> nat \<Rightarrow> objects \<Rightarrow> nat \<Rightarrow> objects \<Rightarrow> bool" for f where
  uploaded_all: "uploaded_under f i s i s"
| uploaded_next: "adds_segments (f i s) s1 \<Longrightarrow> uploaded_under f (Suc i) s1 j s' \<Longrightarrow> uploaded_under f i s j s'"

lemma uploaded_grows:
  "uploaded_under f i s j s' \<Longrightarrow> \<forall>i s. bt_ok s \<longrightarrow> store_grows s (f i s) \<Longrightarrow> bt_ok s \<Longrightarrow> store_grows s s'"
proof (induction rule: uploaded_under.induct)
  case (uploaded_next i s s1 j s')
  then have 1: "store_grows s (f i s)" "store_grows (f i s) s1" by (simp_all add: adds_segments_def)
  then have "store_grows s1 s'" using uploaded_next by (simp add: store_grows_def)
  with 1 show ?case using grows_trans by blast
qed simp

lemma upload_all_Ok:
  assumes "rfold (\<lambda>(i, b) st. upload_segment parse pol b (disturb (f i) st)) (enumerate i bs) st = Ok st'"
    "bt_ok (ps_store st)" "\<forall>i s. bt_ok s \<longrightarrow> store_grows s (f i s)"
  shows "uploaded_under f i (ps_store st) (i + length bs) (ps_store st') \<and>
    (\<forall>b \<in> set bs. served (ps_store st') (bs_segid b))"
  using assms(1,2)
proof (induction bs arbitrary: st i)
  case Nil
  then show ?case by (simp add: uploaded_all)
next
  case (Cons b bs)
  then obtain s1 where 1: "upload_segment parse pol b (disturb (f i) st) = Ok s1"
    "rfold (\<lambda>(i, b) st. upload_segment parse pol b (disturb (f i) st)) (enumerate (Suc i) bs) s1 = Ok st'" by auto
  have ok: "bt_ok (ps_store (disturb (f i) st))" using assms(3) Cons.prems(2) by (simp add: disturb_def store_grows_def)
  from upload_segment_Ok [OF 1(1) ok] have u: "adds_segments (f i (ps_store st)) (ps_store s1)" "served (ps_store s1) (bs_segid b)"
    by (simp_all add: uploads_def adds_segments_def disturb_def)
  have ok1: "bt_ok (ps_store s1)" using u(1) by (simp add: adds_segments_def store_grows_def)
  from Cons.IH [OF 1(2) ok1] have r: "uploaded_under f (Suc i) (ps_store s1) (i + length (b # bs)) (ps_store st')"
    "\<forall>b \<in> set bs. served (ps_store st') (bs_segid b)" by auto
  from served_grows [OF uploaded_grows [OF r(1) assms(3) ok1] u(2)] r(2) uploaded_next [OF u(1) r(1)]
  show ?case by simp
qed

lemma manifest_not_seg: "\<not> starts_with ''seg/'' (manifest_name n)"
  by (simp add: starts_with_def manifest_name_def)

lemma push_publish_Ok:
  assumes "push_publish E parse pol f k p a st = Ok (out, st')" "bt_ok (ps_store st)"
    "\<forall>i s. bt_ok s \<longrightarrow> store_grows s (f i s)"
  shows "\<exists>n s2. uploaded_under f 0 (ps_store st) n s2 \<and> store_grows (f n s2) (ps_store st') \<and>
    (\<forall>b \<in> set (as_segments a). served (ps_store st') (bs_segid b)) \<and>
    (let name = manifest_name (sm_seq (as_manifest a)) in case out of
       None \<Rightarrow> bt_has (f n s2) name \<and> ps_store st' = f n s2
     | Some x \<Rightarrow> bt_get (f n s2) name = None \<and> po_manifest x = as_manifest a \<and> po_published x \<and> po_attempts x = k \<and>
         (\<exists>bs. sm_to_bytes (as_manifest a) = Ok bs \<and>
           (\<forall>x. bt_get (ps_store st') x = (if x = name then Some bs else bt_get (f n s2) x))))"
proof -
  let ?n = "manifest_name (sm_seq (as_manifest a))" and ?k = "length (as_segments a)"
  from assms(1) obtain s1 bs won s where
    1: "rfold (\<lambda>(i, b) st. upload_segment parse pol b (disturb (f i) st)) (enumerate 0 (as_segments a)) st = Ok s1" and
    b: "sm_to_bytes (as_manifest a) = Ok bs" and
    w: "fs_put_if_absent parse ?n bs (f ?k (ps_store s1)) = Ok (won, s)" and
    s: "ps_store st' = s" and
    res: "case out of None \<Rightarrow> \<not> won | Some x \<Rightarrow> won \<and> po_manifest x = as_manifest a \<and> po_published x \<and> po_attempts x = k"
    by (auto simp: push_publish_def Let_def disturb_def split: if_splits)
  from upload_all_Ok [OF 1 assms(2,3)] have u: "uploaded_under f 0 (ps_store st) ?k (ps_store s1)"
    "\<forall>b \<in> set (as_segments a). served (ps_store s1) (bs_segid b)" by auto
  have ok1: "bt_ok (ps_store s1)" using uploaded_grows [OF u(1) assms(3,2)] by (simp add: store_grows_def)
  then have g1: "store_grows (ps_store s1) (f ?k (ps_store s1))" using assms(3) by blast
  then have ok2: "bt_ok (f ?k (ps_store s1))" by (simp add: store_grows_def)
  note g = put_grows [OF w ok2]
  have "\<not> won \<longrightarrow> s = f ?k (ps_store s1)" using w by (auto simp: fs_put_if_absent_def split: if_splits)
  moreover have "\<forall>b \<in> set (as_segments a). served s (bs_segid b)"
    using u(2) served_grows [OF grows_trans [OF g1 conjunct1 [OF g]]] by blast
  ultimately show ?thesis
    using u(1) g res s b by (intro exI [of _ ?k] exI [of _ "ps_store s1"]) (auto simp: Let_def bt_has_def split: option.splits)
qed

subsection \<open>The manifest an attempt publishes\<close>

lemma best_manifest_None: "best_manifest names = None \<Longrightarrow> n \<in> set names \<Longrightarrow> manifest_seq_of n = None"
proof (induction names rule: rev_induct)
  case (snoc x names)
  then show ?case by (auto simp: best_manifest_def split: option.splits if_splits)
qed simp

lemma no_latest:
  assumes "remote_latest E (fs_list parse s) get = Ok None" "seq < 2 ^ 64"
  shows "bt_get s (manifest_name seq) = None"
proof (rule ccontr)
  assume "bt_get s (manifest_name seq) \<noteq> None"
  then have "manifest_name seq \<in> set (bt_keys s)" by (simp add: bt_keys_def map_of_eq_None_iff)
  moreover have "starts_with ''manifest/'' (manifest_name seq)" by (simp add: starts_with_def manifest_name_def)
  moreover from assms(1) obtain names where "fs_list parse s ''manifest'' = Ok names" "best_manifest names = None"
    by (auto simp: remote_latest_def split: option.splits) (metis not_None_eq surj_pair)
  ultimately have "manifest_name seq \<in> set names" "best_manifest names = None" by (auto simp: fs_list_def)
  then have "manifest_seq_of (manifest_name seq) = None" by (rule best_manifest_None [rotated])
  with manifest_seq_of_name [OF assms(2)] show False by simp
qed

text \<open>The manifest that continues what discovery found.\<close>

definition continues :: "serve_manifest option \<Rightarrow> serve_manifest \<Rightarrow> bool" where
  "continues base m \<longleftrightarrow> (case base of
       None \<Rightarrow> sm_seq m = 1 \<and> sm_prev m = []
     | Some b \<Rightarrow> sm_seq m = sm_seq b + 1 \<and> sm_prev m = sm_id b)"

definition in_base :: "serve_manifest option \<Rightarrow> string \<Rightarrow> bool" where
  "in_base base segid \<longleftrightarrow> (case base of None \<Rightarrow> False | Some b \<Rightarrow> bt_has (sm_segments b) segid)"

lemma view_load_manifest: "view_load E get c base = Ok (v, c') \<Longrightarrow> rv_manifest v = base"
  by (auto simp: view_load_def view_empty_def split_beta simp del: rfold.simps split: option.splits)

lemma has_inserted_metas:
  "bt_has (fold (\<lambda>b. bt_insert (bs_segid b) (meta_of E b)) segs m) i \<Longrightarrow> bt_has m i \<or> i \<in> bs_segid ` set segs"
proof (induction segs arbitrary: m)
  case (Cons b segs)
  then have "bt_has (bt_insert (bs_segid b) (meta_of E b) m) i \<or> i \<in> bs_segid ` set segs" by simp
  then show ?case by (auto simp: bt_has_iff fst_bt_insert)
qed simp

lemma push_prepare_Ok:
  assumes "push_prepare E parse r pol st = Ok (base, p, Some a, c)"
  shows "(\<exists>c1. discover E (fs_list parse (ps_store st)) (fs_get parse (ps_store st)) (ps_cache st) = Ok (base, c1)) \<and>
    continues base (as_manifest a) \<and> bt_get (ps_store st) (manifest_name (sm_seq (as_manifest a))) = None \<and>
    (\<forall>i. bt_has (sm_segments (as_manifest a)) i \<longrightarrow> in_base base i \<or> i \<in> bs_segid ` set (as_segments a))"
proof -
  let ?s = "ps_store st" let ?get = "fs_get parse ?s"
  from assms obtain c1 view c2 where d: "discover E (fs_list parse ?s) ?get (ps_cache st) = Ok (base, c1)" and
    v: "view_load E ?get c1 base = Ok (view, c2)" and
    a: "assemble E ?get c2 (rp_pool r) view p pol = Ok (Some a, c)"
    by (auto simp: push_prepare_def Let_def)
  have rv: "rv_manifest view = base" by (rule view_load_manifest [OF v])
  from assemble_Ok [OF a] have m: "next_seq view = Ok (sm_seq (as_manifest a))"
    "sm_prev (as_manifest a) = (case base of None \<Rightarrow> [] | Some m \<Rightarrow> sm_id m)"
    "sm_segments (as_manifest a) = next_segments E (view_base view) (folded_segments (view_base view) pol) (as_segments a)"
    by (auto simp: Let_def rv)
  have "bt_get ?s (manifest_name (sm_seq (as_manifest a))) = None"
  proof (cases base)
    case None
    with d have "remote_latest E (fs_list parse ?s) ?get = Ok None"
      by (auto simp: discover_def warm_start_def split: option.splits)
    from no_latest [OF this, of 1] m(1) None show ?thesis by (simp add: next_seq_def rv)
  next
    case (Some b)
    with discover_Ok [of E "fs_list parse ?s" ?get "ps_cache st" b c1] d have "tip ?get b" by simp
    with m(1) Some show ?thesis by (auto simp: tip_def fs_get_def next_seq_def rv split: if_splits)
  qed
  moreover have "in_base base i \<or> i \<in> bs_segid ` set (as_segments a)" if "bt_has (sm_segments (as_manifest a)) i" for i
  proof -
    from has_inserted_metas that [unfolded m(3) next_segments_def]
    have "bt_has (filter (\<lambda>(segid, _). segid \<notin> set (folded_segments (view_base view) pol)) (sm_segments (view_base view))) i \<or>
        i \<in> bs_segid ` set (as_segments a)" by blast
    then have "bt_has (sm_segments (view_base view)) i \<or> i \<in> bs_segid ` set (as_segments a)"
      by (auto simp: bt_has_iff)
    then show ?thesis
      by (cases base) (auto simp: in_base_def view_base_def rv empty_base_def bt_has_def)
  qed
  ultimately show ?thesis using d m(1,2) by (auto simp: continues_def next_seq_def rv split: option.splits if_splits)
qed

subsection \<open>Attempts\<close>

text \<open>The newest manifest an attempt finds in the store it reads, if any.\<close>

definition newest_found :: "'s env \<Rightarrow> (string \<Rightarrow> bool) \<Rightarrow> objects \<Rightarrow> serve_manifest option \<Rightarrow> bool" where
  "newest_found E parse s base \<longleftrightarrow>
     (\<exists>c c'. discover E (fs_list parse s) (fs_get parse s) c = Ok (base, c')) \<and>
     (case base of
        None \<Rightarrow> remote_latest E (fs_list parse s) (fs_get parse s) = Ok None
      | Some b \<Rightarrow> tip (fs_get parse s) b)"

text \<open>Every segment of the manifest is in the store.\<close>

definition complete_in :: "objects \<Rightarrow> serve_manifest option \<Rightarrow> bool" where
  "complete_in s base \<longleftrightarrow> (\<forall>i. in_base base i \<longrightarrow> served s i)"

text \<open>
  A publication: the attempt read \<open>s1\<close>; its manifest's name was free in \<open>s2\<close>, the store it was
  put into, and \<open>s'\<close> is \<open>s2\<close> with the manifest.
\<close>

definition published_over ::
  "'s env \<Rightarrow> (string \<Rightarrow> bool) \<Rightarrow> objects \<Rightarrow> objects \<Rightarrow> objects \<Rightarrow> serve_manifest \<Rightarrow> bool" where
  "published_over E parse s1 s2 s' m \<longleftrightarrow> (\<exists>base bs. newest_found E parse s1 base \<and> continues base m \<and>
     sm_to_bytes m = Ok bs \<and> bt_get s2 (manifest_name (sm_seq m)) = None \<and>
     (\<forall>n. bt_get s' n = (if n = manifest_name (sm_seq m) then Some bs else bt_get s2 n)) \<and>
     (complete_in s1 base \<longrightarrow> complete_in s' (Some m)))"

text \<open>Attempts that lost: each left what the clients and its uploads made of the store, in which
  a manifest stands whose name was free when the attempt read.\<close>

inductive lost_attempts :: "(nat \<Rightarrow> nat \<Rightarrow> objects \<Rightarrow> objects) \<Rightarrow> objects \<Rightarrow> nat \<Rightarrow> objects \<Rightarrow> bool" for others s where
  lost_none: "lost_attempts others s 1 s"
| lost_one: "lost_attempts others s k s1 \<Longrightarrow> uploaded_under (others k) 0 s1 n s2 \<Longrightarrow>
    bt_get s1 (manifest_name q) = None \<Longrightarrow> bt_has (others k n s2) (manifest_name q) \<Longrightarrow>
    lost_attempts others s (Suc k) (others k n s2)"

lemma discover_newest:
  assumes "discover E (fs_list parse s) (fs_get parse s) c = Ok (base, c')"
  shows "newest_found E parse s base"
proof (cases base)
  case None
  with assms have "remote_latest E (fs_list parse s) (fs_get parse s) = Ok None"
    by (auto simp: discover_def warm_start_def split: option.splits)
  with None assms show ?thesis by (auto simp: newest_found_def)
next
  case (Some b)
  with assms discover_Ok [of E "fs_list parse s" "fs_get parse s" c b c'] show ?thesis by (auto simp: newest_found_def)
qed

text \<open>What an attempt comes to, from the store it reads to the store it leaves.\<close>

definition attempt_ends ::
  "'s env \<Rightarrow> (string \<Rightarrow> bool) \<Rightarrow> (nat \<Rightarrow> objects \<Rightarrow> objects) \<Rightarrow> objects \<Rightarrow> push_outcome option \<Rightarrow> objects \<Rightarrow> bool" where
  "attempt_ends E parse f s1 out s' \<longleftrightarrow> (case out of
       None \<Rightarrow> \<exists>n s2 q. uploaded_under f 0 s1 n s2 \<and> s' = f n s2 \<and> bt_get s1 (manifest_name q) = None \<and>
         bt_has s' (manifest_name q)
     | Some x \<Rightarrow> if po_published x
         then \<exists>n s2. uploaded_under f 0 s1 n s2 \<and> published_over E parse s1 (f n s2) s' (po_manifest x)
         else s' = s1 \<and> newest_found E parse s1 (Some (po_manifest x)))"

lemma push_attempt_Ok:
  assumes "push_attempt E parse r pol others k st = Ok (out, st')" "bt_ok (ps_store st)" "others_grow others"
  shows "store_grows (ps_store st) (ps_store st') \<and> attempt_ends E parse (others k) (ps_store st) out (ps_store st') \<and>
    (case out of None \<Rightarrow> True | Some x \<Rightarrow> po_attempts x = k)"
proof -
  from assms(1) obtain base p a c where pr: "push_prepare E parse r pol st = Ok (base, p, a, c)" and
    rest: "(case a of
       None \<Rightarrow>
         rbind (set_synced_heads E (pn_synced p) c) (\<lambda>c'.
         rbind (ok_or Invalid base) (\<lambda>m.
         Ok (Some \<lparr>po_manifest = m, po_published = False, po_segments = 0, po_uploaded = ps_uploaded st,
              po_constructs = pn_constructs p, po_keyframes = pn_keyframes p, po_compacted = 0, po_attempts = k\<rparr>,
            st\<lparr>ps_cache := c'\<rparr>)))
     | Some a \<Rightarrow> push_publish E parse pol (others k) k p a (st\<lparr>ps_cache := c\<rparr>)) = Ok (out, st')"
    by (fastforce simp: push_attempt_def Let_def split: option.splits)
  have f: "\<forall>i s. bt_ok s \<longrightarrow> store_grows s (others k i s)" using assms(3) by (simp add: others_grow_def)
  show ?thesis
  proof (cases a)
    case None
    obtain c1 where "discover E (fs_list parse (ps_store st)) (fs_get parse (ps_store st)) (ps_cache st) = Ok (base, c1)"
      using pr by (auto simp: push_prepare_def Let_def)
    from discover_newest [OF this] None rest assms(2) show ?thesis by (auto simp: attempt_ends_def)
  next
    case (Some x)
    with rest have pb: "push_publish E parse pol (others k) k p x (st\<lparr>ps_cache := c\<rparr>) = Ok (out, st')" by simp
    from push_prepare_Ok [OF pr [unfolded Some]] obtain c1 where
      d: "discover E (fs_list parse (ps_store st)) (fs_get parse (ps_store st)) (ps_cache st) = Ok (base, c1)" and
      cn: "continues base (as_manifest x)" "bt_get (ps_store st) (manifest_name (sm_seq (as_manifest x))) = None" and
      sg: "\<forall>i. bt_has (sm_segments (as_manifest x)) i \<longrightarrow> in_base base i \<or> i \<in> bs_segid ` set (as_segments x)"
      by blast
    let ?n = "manifest_name (sm_seq (as_manifest x))"
    from push_publish_Ok [OF pb _ f] assms(2) obtain n s2 where u: "uploaded_under (others k) 0 (ps_store st) n s2"
      and g: "store_grows (others k n s2) (ps_store st')"
      and sv: "\<forall>b \<in> set (as_segments x). served (ps_store st') (bs_segid b)"
      and o: "case out of
       None \<Rightarrow> bt_has (others k n s2) ?n \<and> ps_store st' = others k n s2
     | Some z \<Rightarrow> bt_get (others k n s2) ?n = None \<and> po_manifest z = as_manifest x \<and> po_published z \<and> po_attempts z = k \<and>
         (\<exists>bs. sm_to_bytes (as_manifest x) = Ok bs \<and>
           (\<forall>y. bt_get (ps_store st') y = (if y = ?n then Some bs else bt_get (others k n s2) y)))"
      by (auto simp: Let_def)
    have g2: "store_grows (ps_store st) s2" by (rule uploaded_grows [OF u f assms(2)])
    then have "store_grows s2 (others k n s2)" using f by (simp add: store_grows_def)
    with g g2 have gr: "store_grows (ps_store st) (ps_store st')" using grows_trans by blast
    have "complete_in (ps_store st) base \<longrightarrow> complete_in (ps_store st') (Some (as_manifest x))"
      using sg sv served_grows [OF gr] by (auto simp: complete_in_def in_base_def)
    then have pub: "published_over E parse (ps_store st) (others k n s2) (ps_store st') (as_manifest x)" if "out = Some z" for z
      using discover_newest [OF d] cn(1) o that by (auto simp: published_over_def)
    show ?thesis
    proof (cases out)
      case None
      with u cn(2) o have "attempt_ends E parse (others k) (ps_store st) out (ps_store st')"
        by (auto simp: attempt_ends_def)
      with None gr show ?thesis by simp
    next
      case (Some z)
      with u pub o have "attempt_ends E parse (others k) (ps_store st) out (ps_store st')"
        by (auto simp: attempt_ends_def)
      with Some gr o show ?thesis by simp
    qed
  qed
qed

lemma push_loop_Ok:
  assumes "push_loop E parse r pol others [k..<n] st = Ok (out, st')" "bt_ok (ps_store st)" "others_grow others"
    "lost_attempts others s k (ps_store st)"
  shows "store_grows (ps_store st) (ps_store st') \<and> po_attempts out \<in> {k..<n} \<and>
    (\<exists>s1. lost_attempts others s (po_attempts out) s1 \<and>
       attempt_ends E parse (others (po_attempts out)) s1 (Some out) (ps_store st'))"
  using assms(1,2,4)
proof (induction "n - k" arbitrary: k st)
  case (Suc m)
  then have k: "k < n" "[k..<n] = k # [Suc k..<n]" by (simp_all add: upt_conv_Cons)
  from Suc.prems(1) obtain o1 s1 where 1: "push_attempt E parse r pol others k st = Ok (o1, s1)"
    and rest: "(case o1 of Some out \<Rightarrow> Ok (out, s1) | None \<Rightarrow> push_loop E parse r pol others [Suc k..<n] s1) = Ok (out, st')"
    unfolding k(2) by auto
  note a = push_attempt_Ok [OF 1 Suc.prems(2) assms(3)]
  show ?case
  proof (cases o1)
    case None
    with rest have l: "push_loop E parse r pol others [Suc k..<n] s1 = Ok (out, st')" by simp
    from a None have g: "store_grows (ps_store st) (ps_store s1)" and
      e: "\<exists>i s2 q. uploaded_under (others k) 0 (ps_store st) i s2 \<and> ps_store s1 = others k i s2 \<and>
        bt_get (ps_store st) (manifest_name q) = None \<and> bt_has (ps_store s1) (manifest_name q)"
      by (simp_all add: attempt_ends_def)
    from e have "lost_attempts others s (Suc k) (ps_store s1)" using lost_one [OF Suc.prems(3)] by metis
    moreover from g have "bt_ok (ps_store s1)" by (simp add: store_grows_def)
    ultimately have i: "store_grows (ps_store s1) (ps_store st')" "po_attempts out \<in> {Suc k..<n}"
      "\<exists>s1. lost_attempts others s (po_attempts out) s1 \<and>
         attempt_ends E parse (others (po_attempts out)) s1 (Some out) (ps_store st')"
      using Suc.hyps(1) [OF _ l] Suc.hyps(2) by auto
    from i grows_trans [OF g i(1)] show ?thesis by auto
  next
    case (Some x)
    with rest a Suc.prems(3) k(1) show ?thesis by auto
  qed
qed simp

text \<open>An undisturbed push makes one attempt.\<close>

lemma undisturbed_uploads:
  "uploaded_under (\<lambda>i s. s) i s j s' \<Longrightarrow> \<forall>q. bt_get s' (manifest_name q) = bt_get s (manifest_name q)"
  by (induction rule: uploaded_under.induct) (simp_all add: adds_segments_def manifest_not_seg)

lemma undisturbed_push:
  assumes "push E parse r pol (\<lambda>k i s. s) c s = Ok (out, st')" "bt_ok s" shows "po_attempts out = 1"
proof -
  let ?st = "\<lparr>ps_store = s, ps_cache = c, ps_uploaded = 0\<rparr>"
  have o: "others_grow (\<lambda>k i s. s)" by (simp add: others_grow_def)
  have u: "[1..<PUSH_ATTEMPTS + 1] = 1 # [2..<17]" by (simp add: PUSH_ATTEMPTS_def upt_conv_Cons numeral_2_eq_2)
  obtain o1 s1 where 1: "push_attempt E parse r pol (\<lambda>k i s. s) 1 ?st = Ok (o1, s1)"
    and rest: "(case o1 of Some out \<Rightarrow> Ok (out, s1) | None \<Rightarrow> push_loop E parse r pol (\<lambda>k i s. s) [2..<17] s1) = Ok (out, st')"
    using assms(1) unfolding push_def u push_loop.simps rbind_eq_Inr split_paired_Ex prod.case by blast
  have "attempt_ends E parse (\<lambda>i s. s) s o1 (ps_store s1)" using push_attempt_Ok [OF 1 _ o] assms(2) by simp
  then have "o1 \<noteq> None" by (cases o1) (auto simp: attempt_ends_def bt_has_def dest: undisturbed_uploads)
  with push_attempt_Ok [OF 1 _ o] assms(2) rest show ?thesis by auto
qed

end
