(* ===== verification/Pushes.thy ===== *)
theory Pushes
  imports Samples Push
begin

text \<open>
  Sample pushes: the initialised repository to an empty store, which publishes the first
  manifest, and a repository with one blob.
\<close>

definition any_path :: "string \<Rightarrow> bool" where "any_path name \<longleftrightarrow> True"

definition main_head :: fork_head where
  "main_head = \<lparr>fh_anchor = z64, fh_head_id = [], fh_head_sum = z64, fh_log_segments = []\<rparr>"

definition plan0 :: plan where
  "plan0 = \<lparr>pn_inputs = [], pn_heads = [(''main'', main_head)], pn_synced = [(''main'', [])],
     pn_constructs = 0, pn_keyframes = 0\<rparr>"

definition manifest1 :: serve_manifest where
  "manifest1 = \<lparr>sm_id = z64, sm_v = 0, sm_seq = 1, sm_prev = [], sm_forks = [(''main'', main_head)],
     sm_segments = [], sm_anchors = [z64], sm_retire = []\<rparr>"

lemma recover_g0: "recover E3 ''main'' g0 = g0"
proof -
  have "set_log ''main'' (take n) g0 = g0" for n by (simp add: set_log_def g0_def)
  then show ?thesis by (simp add: recover_def split: sum.split)
qed

lemma log_g0: "read_fork_log E3 g0 ''main'' = Ok ([], [])"
proof -
  have "parse_log_strict E3 f [] = Ok []" for f
    by (simp add: parse_log_strict_def parse_log_lenient_def scan_log.simps)
  then show ?thesis by (simp add: read_fork_log_def log_bytes_def g0_def Let_def)
qed

lemma forks_g0: "fork_names g0 = [''main'']"
  by (simp add: fork_names_def g0_def bt_keys_def)

lemma classify_none: "classify E v k pool ts ids [] cl = Ok cl"
  by (simp add: classify.simps)

lemma plan_g0: "push_plan E3 g0 view_empty [] default_policy = Ok plan0"
proof -
  have f: "plan_fork E3 g0 [] [] ''main'' (plan_start, []) = Ok (plan0, [])"
    by (simp add: plan_fork_def g0_fork g0_state recover_g0 log_g0 fork_standing_def Let_def plan_start_def plan0_def
        main_head_def) (simp add: st0_def)
  have "blobs_to_send [] view_empty = []" by (simp add: blobs_to_send_def blob_list_def bt_keys_def bs_extend_def)
  moreover have "candidates E3 [] [] = Ok []" by (simp add: candidates_def span_lines_def overflow_refs_def)
  moreover have "rp_pool g0 = []" by (simp add: g0_def)
  ultimately show ?thesis
    by (simp add: push_plan_def remote_forks_def view_empty_def [symmetric] forks_g0 f classify_none)
      (simp add: view_empty_def f plan0_def forks_g0 classify_none)
qed

lemma manifest1_writes: "\<exists>bs. sm_to_bytes manifest1 = Ok bs"
proof -
  have "case sm_to_bytes manifest1 of Inl _ \<Rightarrow> False | Inr c \<Rightarrow> True" by code_simp
  then show ?thesis by (auto split: sum.splits)
qed

lemma manifest1_record: "record_id E3 (sm_to_value (manifest1\<lparr>sm_id := []\<rparr>)) = Ok z64"
proof -
  have "case sm_to_value (manifest1\<lparr>sm_id := []\<rparr>) of
      JObj m \<Rightarrow> (case canonical_json (JObj (bt_remove ''id'' m)) of Inl _ \<Rightarrow> False | Inr c \<Rightarrow> True) | _ \<Rightarrow> False" by code_simp
  then show ?thesis by (auto simp: record_id_def split: json.splits sum.splits)
qed

lemma assemble_g0:
  "assemble E3 get c pool view_empty plan0 default_policy =
     Ok (Some \<lparr>as_segments = [], as_manifest = manifest1, as_compacted = 0\<rparr>, c)"
proof -
  have "compaction_candidates empty_base default_policy = []"
    by (simp add: compaction_candidates_def empty_base_def bt_values_def compaction_loop.simps compaction_round_def)
  then have f: "folded_segments empty_base default_policy = []"
    by (simp add: folded_segments_def)
  have s: "sealed_manifest E3 (manifest1\<lparr>sm_id := []\<rparr>) = Ok manifest1"
    by (simp add: sealed_manifest_def manifest1_record) (simp add: manifest1_def)
  have "plan0 \<noteq> plan_start" by (simp add: plan0_def plan_start_def)
  have "view_base view_empty = empty_base" by (simp add: view_base_def view_empty_def)
  moreover have "next_forks empty_base [(''main'', main_head)] [] ([] :: 256 word built_segment list) = [(''main'', main_head)]"
    by (simp add: next_forks_def empty_base_def)
  moreover have "next_segments E3 empty_base [] [] = []" by (simp add: next_segments_def empty_base_def)
  moreover have "next_anchors [(''main'', main_head)] = [z64]" by (simp add: next_anchors_def bt_values_def main_head_def)
  moreover have "next_seq view_empty = Ok 1" by (simp add: next_seq_def view_empty_def)
  moreover have "rv_manifest view_empty = None" by (simp add: view_empty_def)
  ultimately show ?thesis using s
    by (simp add: assemble_def f plan0_def merged_inputs_def build_segments_def folded_image_def image_setsum_def manifest1_def)
qed

lemma name1: "path_of any_path (manifest_name 1) = Ok ()" "path_of any_path ''manifest'' = Ok ()"
  by code_simp+

lemma synced0: "rc_synced c = None \<Longrightarrow> \<exists>c'. set_synced_heads E3 [(''main'', [])] c = Ok c'"
proof -
  have "case canonical_json (JObj [(''main'', JStr [])]) of Inl _ \<Rightarrow> False | Inr c \<Rightarrow> True" by code_simp
  then show "rc_synced c = None \<Longrightarrow> ?thesis"
    by (auto simp: set_synced_heads_def synced_heads_def split: sum.splits)
qed

lemma prepare0:
  "push_prepare E3 any_path g0 default_policy \<lparr>ps_store = [], ps_cache = cache_empty, ps_uploaded = 0\<rparr> =
     Ok (None, plan0, Some \<lparr>as_segments = [], as_manifest = manifest1, as_compacted = 0\<rparr>, cache_empty)"
proof -
  have "fs_list any_path [] ''manifest'' = Ok []" by (simp add: fs_list_def name1 bt_keys_def)
  then have "discover E3 (fs_list any_path []) (fs_get any_path []) cache_empty = Ok (None, cache_empty)"
    by (simp add: discover_def warm_start_def cache_manifest_def cache_empty_def remote_latest_def best_manifest_def)
  moreover have "synced_heads E3 cache_empty = []" by (simp add: synced_heads_def cache_empty_def)
  ultimately show ?thesis
    by (simp add: push_prepare_def view_load_def plan_g0 assemble_g0)
qed

lemma push0:
  "\<exists>out st'. push E3 any_path g0 default_policy (\<lambda>k i s. s) cache_empty [] = Ok (out, st') \<and>
     po_published out \<and> po_manifest out = manifest1"
proof -
  let ?st = "\<lparr>ps_store = [] :: objects, ps_cache = cache_empty, ps_uploaded = 0\<rparr>"
  obtain bs where bs: "sm_to_bytes manifest1 = Ok bs" using manifest1_writes by blast
  have put: "fs_put_if_absent any_path (manifest_name 1) bs [] = Ok (True, [(manifest_name 1, bs)])"
    by (simp only: fs_put_if_absent_def name1) (simp add: bt_has_def)
  obtain c where c: "set_synced_heads E3 [(''main'', [])] (cache_empty\<lparr>rc_manifest := Some bs\<rparr>) = Ok c"
    using synced0 [of "cache_empty\<lparr>rc_manifest := Some bs\<rparr>"] by (auto simp: cache_empty_def)
  have "sm_seq manifest1 = 1" by (simp add: manifest1_def)
  moreover have "pn_synced plan0 = [(''main'', [])]" by (simp add: plan0_def)
  ultimately have "\<exists>out st'. push_publish E3 any_path default_policy (\<lambda>i s. s) 1 plan0
        \<lparr>as_segments = [], as_manifest = manifest1, as_compacted = 0\<rparr> ?st = Ok (Some out, st') \<and>
      po_published out \<and> po_manifest out = manifest1"
    by (simp only: push_publish_def) (simp add: bs put [simplified] c cache_set_manifest_def Let_def disturb_def)
  then obtain out st' where o: "push_publish E3 any_path default_policy (\<lambda>i s. s) 1 plan0
        \<lparr>as_segments = [], as_manifest = manifest1, as_compacted = 0\<rparr> ?st = Ok (Some out, st')"
    "po_published out" "po_manifest out = manifest1" by blast
  then have "push_attempt E3 any_path g0 default_policy (\<lambda>k i s. s) 1 ?st = Ok (Some out, st')"
    by (simp add: push_attempt_def prepare0)
  then have "push E3 any_path g0 default_policy (\<lambda>k i s. s) cache_empty [] = Ok (out, st')"
    by (simp add: push_def PUSH_ATTEMPTS_def upt_conv_Cons)
  with o(2,3) show ?thesis by blast
qed

subsection \<open>A repository with a line\<close>

lemma stored_l3:
  assumes "canonical_json (line_to_value l3) = Ok t" shows "stored_parse E3 t = Ok (Line l3)"
proof -
  have "is_ok (canonical_json (JObj (bt_remove ''id'' (case line_to_value l3 of JObj m \<Rightarrow> m | _ \<Rightarrow> []))))" by code_simp
  then obtain c where c: "canonical_json (JObj (bt_remove ''id'' (case line_to_value l3 of JObj m \<Rightarrow> m | _ \<Rightarrow> []))) = Ok c"
    by (auto simp: is_ok_iff)
  obtain m where m: "line_to_value l3 = JObj m" by (simp add: line_to_value_def)
  from c have i: "compute_id E3 l3 = Ok (ll_id l3)" by (simp add: compute_id_def record_id_def m) (simp add: l3_def)
  have v: "ll_valid l3" "validate l3 = Ok ()" by (simp_all add: l3_def validate_def a0_def ll_valid_def an_valid_def)
  have "json_parse E3 t = Some (line_to_value l3)"
    using assms lines_differ by (simp add: E3_def)
  with i v show ?thesis by (simp add: stored_parse_def line_of_record_written)
qed

lemma log_g3: "\<exists>t. canonical_json (line_to_value l3) = Ok t \<and> LF \<notin> set t \<and> fd_log d3 = t @ [LF] \<and>
  scan_log E3 (t @ [LF]) = ([Line l3], Suc (length t))"
proof -
  obtain t where t: "canonical_json (line_to_value l3) = Ok t" "fd_log d3 = t @ [LF]" using g3_forks(5) by blast
  have n: "LF \<notin> set t" by (rule canonical_no_LF [OF t(1)])
  have "from_utf8 t" using canonical_utf8 [OF lines_utf8(1) t(1)] by (simp add: from_utf8_iff)
  from scan_piece [OF n this stored_l3 [OF t(1)], of "[]"] scan_torn [of "[]" E3]
  have "scan_log E3 (t @ [LF]) = ([Line l3], Suc (length t))" by simp
  with t n show ?thesis by blast
qed

lemma recover_g3: "recover E3 ''main'' g3 = g3"
proof -
  obtain t where t: "fd_log d3 = t @ [LF]" "scan_log E3 (t @ [LF]) = ([Line l3], Suc (length t))" using log_g3 by blast
  then have "read_log E3 g3 ''main'' = Ok \<lparr>pl_lines = [l3], pl_valid_prefix = length (fd_log d3)\<rparr>"
    by (simp add: read_log_def g3_forks parse_log_lenient_def Let_def)
  then have "recover E3 ''main'' g3 = g3\<lparr>rp_forks := [(''main'', d3)]\<rparr>"
    by (simp add: recover_def set_log_def g3_forks)
  then show ?thesis by (simp flip: g3_forks(1))
qed

lemma read_log_g3: "\<exists>bs. read_fork_log E3 g3 ''main'' = Ok ([l3], [bs]) \<and> line_blob_refs E3 bs = []"
proof -
  obtain t where t: "fd_log d3 = t @ [LF]" "LF \<notin> set t" "scan_log E3 (t @ [LF]) = ([Line l3], Suc (length t))" using log_g3 by blast
  then have "parse_log_strict E3 f (t @ [LF]) = Ok [l3]" for f
    by (simp add: parse_log_strict_def parse_log_lenient_def Let_def)
  moreover have "split_inclusive LF (t @ [LF]) = [t @ [LF]]"
    using t(2) by (induction t) auto
  ultimately have "read_fork_log E3 g3 ''main'' = Ok ([l3], [t @ [LF]])"
    by (simp add: read_fork_log_def log_bytes_def g3_forks t(1) Let_def)
  moreover have "line_blob_refs E3 (t @ [LF]) = []" by (simp add: line_blob_refs_def t(3))
  ultimately show ?thesis by blast
qed

lemma construct_a: "construct_blob E3 [] l3 z64 = Ok ''x''"
proof -
  have "decode ''eA=='' = Ok ''x''" by code_simp
  then show ?thesis by (simp add: construct_blob_def l3_def i3_def added_def) (simp add: r3_def)
qed

text \<open>Its one blob travels as a construct of its one line.\<close>

lemma plan_g3: "\<exists>p bs. push_plan E3 g3 view_empty [] default_policy = Ok p \<and>
  pn_inputs p = [SConstruct z64 EMPTY_BLOB z64, SLogSpan ''main'' bs [z64]] \<and>
  pn_heads p = [(''main'', \<lparr>fh_anchor = z64, fh_head_id = z64, fh_head_sum = o64, fh_log_segments = []\<rparr>)]"
proof -
  obtain bs where bs: "read_fork_log E3 g3 ''main'' = Ok ([l3], [bs])" "line_blob_refs E3 bs = []" using read_log_g3 by blast
  let ?sp = "[(''main'', [l3], bs)]"
  define h where "h = \<lparr>fh_anchor = z64, fh_head_id = z64, fh_head_sum = o64, fh_log_segments = []\<rparr>"
  define p1 where "p1 = \<lparr>pn_inputs = [], pn_heads = [(''main'', h)], pn_synced = [(''main'', z64)],
     pn_constructs = 0, pn_keyframes = 0\<rparr>"
  have f: "plan_fork E3 g3 [] [] ''main'' (plan_start, []) = Ok (p1, ?sp)"
    by (simp add: plan_fork_def g3_fork g3_state recover_g3 bs(1) fork_standing_def Let_def plan_start_def p1_def h_def)
      (simp add: st3_def l3_def)
  have pool: "rp_pool g3 = [(z64, ''x'', True)]" by (rule g3_forks)
  have ts: "blobs_to_send [(z64, ''x'', True)] view_empty = [z64]"
    by (simp add: blobs_to_send_def blob_list_def bt_keys_def view_has_def view_empty_def bt_has_def bs_extend_def bs_insert_def insort_insert_key_def)
  have z: "ll_id l3 = z64" "er_blob r3 = z64" "er_path r3 = ''/a''" by (simp_all add: l3_def r3_def)
  have c: "candidates E3 [z64] ?sp = Ok [(z64, EMPTY_BLOB, z64)]"
    by (simp add: candidates_def span_lines_def overflow_refs_def bs(2) bs_extend_def candidate_line_def candidate_entry_def z)
      (simp add: l3_def candidate_entry_def added_def removed_def z)
  have by_id: "lines_by_id ?sp = [(z64, l3)]" by (simp add: lines_by_id_def span_lines_def z)
  have "classify_one E3 view_empty 32 [(z64, ''x'', True)] [z64] [(z64, l3)] (z64, EMPTY_BLOB, z64) ([], []) =
      Ok ([(z64, Construct_from EMPTY_BLOB z64 1)], [])"
    by (simp add: classify_one_def depth_of_def view_depth_def candidate_replays_def construct_a)
  then have k: "classify E3 view_empty 32 [(z64, ''x'', True)] [z64] [(z64, l3)] [(z64, EMPTY_BLOB, z64)] [] =
      Ok [(z64, Construct_from EMPTY_BLOB z64 1)]"
    by (simp add: classify.simps [of E3 view_empty 32 _ _ _ "[_]"] classify_round_def classify_none)
  have "remote_forks view_empty = []" by (simp add: remote_forks_def view_empty_def)
  moreover have "po_keyframe_interval default_policy = 32" by (simp add: default_policy_def)
  ultimately have "\<exists>p. push_plan E3 g3 view_empty [] default_policy = Ok p \<and>
      pn_inputs p = [SConstruct z64 EMPTY_BLOB z64, SLogSpan ''main'' bs [z64]] \<and> pn_heads p = [(''main'', h)]"
    by (simp add: push_plan_def g3_names f pool ts c by_id k plan_blob_def span_input_def p1_def z)
  then show ?thesis unfolding h_def by blast
qed

end
