(* ===== verification/Revision.thy ===== *)
theory Revision
  imports Lineage Utf8
begin

text \<open>
  \<open>src/src/revision.rs\<close>: the revision language.  A revision is a base (\<open>HEAD\<close>, a
  fork, a sum, a line id) followed by suffixes that walk the lineage; it resolves to
  a state on a fork's lineage.  The lemmas say that a resolution never reads past the
  lineage, that the state it names is reached from the base by replaying the lines
  before it, and that a range \<open>A..B\<close> bounds the lines that take A's state to B's.
\<close>

record resolved =
  rs_fork :: string
  rs_sum :: string
  rs_line :: "string option"

record state_point =
  sp_sum :: string
  sp_line :: "string option"

definition line_point :: "log_line \<Rightarrow> state_point" where
  "line_point l = \<lparr>sp_sum = ll_sum_after l, sp_line = Some (ll_id l)\<rparr>"

text \<open>The state before the first line of a history, by the inverse of its delta.\<close>

definition lineage_base :: "'s env \<Rightarrow> repo \<Rightarrow> string \<Rightarrow> log_line list \<Rightarrow> string result" where
  "lineage_base E r fork ls = (case ls of
       [] \<Rightarrow> rmap fs_sum_hex (current_state E r fork)
     | first # _ \<Rightarrow>
         rbind (sum_from_hexdigest E (ll_sum_after first)) (\<lambda>after.
         rmap (ss_hexdigest E) (apply_realized_to_sum E after (map swap_entry (ll_realized first)))))"

definition lineage_states :: "'s env \<Rightarrow> repo \<Rightarrow> string \<Rightarrow> state_point list result" where
  "lineage_states E r fork =
     rbind (continuity_log E r fork) (\<lambda>history. let ls = map snd history in
     rbind (lineage_base E r fork ls) (\<lambda>base.
     Ok (\<lparr>sp_sum = base, sp_line = None\<rparr> # map line_point ls)))"

subsection \<open>Splitting a spec\<close>

text \<open>Where the base ends; \<open>at0\<close> says the scan stands at the start of the spec.\<close>

fun base_end :: "bool \<Rightarrow> string \<Rightarrow> nat" where
  "base_end at0 [] = 0"
| "base_end at0 (c # cs) =
     (if c = CHR ''~'' \<or> c = CHR ''^'' then 0
      else if c = CHR ''@'' \<and> (\<not> at0 \<or> starts_with ''{'' cs) then 0
      else Suc (base_end False cs))"

function suffixes :: "string \<Rightarrow> string list" where
  "suffixes [] = []"
| "suffixes (c # cs) =
     (if c = CHR ''^'' then [c] # suffixes cs
      else if c = CHR ''~'' then (c # takeWhile is_digit cs) # suffixes (dropWhile is_digit cs)
      else if c = CHR ''@'' \<and> starts_with ''{'' cs then
        (case position (\<lambda>x. x = CHR ''}'') (c # cs) of
           Some off \<Rightarrow> take (off + 1) (c # cs) # suffixes (drop (off + 1) (c # cs))
         | None \<Rightarrow> [c # cs])
      else let n = max 1 (seq_len c) in take n (c # cs) # suffixes (drop n (c # cs)))"
  by pat_completeness auto
termination
proof (relation "measure length", goal_cases)
  case (3 c cs)
  show ?case using length_dropWhile_le [of is_digit cs] by simp
qed auto

declare suffixes.simps(2) [simp del]

definition split_suffixes :: "string \<Rightarrow> string \<times> string list" where
  "split_suffixes spec = (let i = base_end True spec in (take i spec, suffixes (drop i spec)))"

lemma suffixes_concat: "concat (suffixes s) = s"
proof (induction s rule: suffixes.induct)
  case (2 c cs)
  consider "c = CHR ''^''" | "c \<noteq> CHR ''^''" "c = CHR ''~''"
    | "c \<noteq> CHR ''^''" "c \<noteq> CHR ''~''" "c = CHR ''@'' \<and> starts_with ''{'' cs"
    | "c \<noteq> CHR ''^''" "c \<noteq> CHR ''~''" "\<not> (c = CHR ''@'' \<and> starts_with ''{'' cs)" by blast
  then show ?case
  proof cases
    case 3
    show ?thesis
    proof (cases "position (\<lambda>x. x = CHR ''}'') (c # cs)")
      case None
      then have "suffixes (c # cs) = [c # cs]" using 3 by (subst suffixes.simps) (simp del: position.simps)
      then show ?thesis by simp
    next
      case (Some off)
      then have s: "suffixes (c # cs) = take (off + 1) (c # cs) # suffixes (drop (off + 1) (c # cs))"
        using 3 by (subst suffixes.simps) (simp del: position.simps)
      have "concat (suffixes (drop (off + 1) (c # cs))) = drop (off + 1) (c # cs)"
        using "2.IH"(3) 3 Some by blast
      then show ?thesis unfolding s by (simp only: concat.simps append_take_drop_id)
    qed
  next
    case 4
    let ?n = "max 1 (seq_len c)"
    have s: "suffixes (c # cs) = take ?n (c # cs) # suffixes (drop ?n (c # cs))"
      using 4 by (subst suffixes.simps) (simp only: Let_def if_False)
    have "concat (suffixes (drop ?n (c # cs))) = drop ?n (c # cs)" using "2.IH"(4) 4 by blast
    then show ?thesis unfolding s by (simp only: concat.simps append_take_drop_id)
  qed (use 2 in \<open>simp_all add: suffixes.simps(2)\<close>)
qed simp

lemma split_suffixes_lossless: "split_suffixes spec = (b, sfx) \<Longrightarrow> b @ concat sfx = spec"
  by (auto simp: split_suffixes_def Let_def suffixes_concat)

subsection \<open>Walking the suffixes\<close>

definition step_back :: "nat \<Rightarrow> nat \<Rightarrow> nat result" where
  "step_back index n = (if index < n then Err Invalid else Ok (index - n))"

definition apply_suffix :: "nat \<Rightarrow> string \<Rightarrow> nat \<Rightarrow> nat result" where
  "apply_suffix npoints s index =
     (if s = ''^'' then step_back index 1
      else if starts_with ''~'' s then rbind (ok_or Invalid (parse_u64 (drop 1 s))) (step_back index)
      else if starts_with (''@'' @ ''{'') s \<and> ends_with ''}'' s then
        rbind (ok_or Invalid (parse_u64 (take (length s - 3) (drop 2 s)))) (\<lambda>n.
        if n \<ge> npoints then Err Invalid else Ok (npoints - 1 - n))
      else Err Invalid)"

definition apply_suffixes :: "string \<Rightarrow> nat \<Rightarrow> state_point list \<Rightarrow> string list \<Rightarrow> resolved result" where
  "apply_suffixes fork index points sfx =
     rbind (rfold (apply_suffix (length points)) sfx index) (\<lambda>i.
     if i < length points
     then Ok \<lparr>rs_fork = fork, rs_sum = sp_sum (points ! i), rs_line = sp_line (points ! i)\<rparr>
     else Err Panic)"

subsection \<open>Bases\<close>

definition sum_at :: "state_point list \<Rightarrow> string \<Rightarrow> nat option" where
  "sum_at points s = rposition (\<lambda>p. sp_sum p = s) points"

definition line_point_at :: "state_point list \<Rightarrow> string \<Rightarrow> nat option" where
  "line_point_at points i = rposition (\<lambda>p. sp_line p = Some i) points"

definition line_matches :: "state_point list \<Rightarrow> string \<Rightarrow> nat list" where
  "line_matches points b =
     filter (\<lambda>i. pred_option (starts_with b) (sp_line (points ! i)) \<and> sp_line (points ! i) \<noteq> None)
       [0..<length points]"

definition author_line :: "string \<Rightarrow> string \<times> log_line \<Rightarrow> (string, string) btree \<Rightarrow> (string, string) btree" where
  "author_line b = (\<lambda>(name, l) m.
     if starts_with b (ll_id l) \<and> \<not> bt_has m (ll_id l) then bt_insert (ll_id l) name m else m)"

definition authoring :: "'s env \<Rightarrow> repo \<Rightarrow> string \<Rightarrow> (string, string) btree result" where
  "authoring E r b = rfold (\<lambda>f m. rmap (\<lambda>hist. fold (author_line b) hist m) (continuity_log E r f)) (fork_names r) []"

definition resolve_line_id_global ::
  "'s env \<Rightarrow> repo \<Rightarrow> string \<Rightarrow> (string \<times> nat \<times> state_point list) result" where
  "resolve_line_id_global E r b = rbind (authoring E r b) (\<lambda>m. case m of
       [] \<Rightarrow> Err Invalid
     | [(i, fork)] \<Rightarrow>
         rbind (lineage_states E r fork) (\<lambda>points.
         rmap (\<lambda>idx. (fork, idx, points)) (ok_or Corrupt (line_point_at points i)))
     | _ \<Rightarrow> Err Invalid)"

definition match_line ::
  "'s env \<Rightarrow> repo \<Rightarrow> string \<Rightarrow> string \<Rightarrow> state_point list \<Rightarrow> (string \<times> nat \<times> state_point list) result" where
  "match_line E r b fork points = (case line_matches points b of
       [] \<Rightarrow> resolve_line_id_global E r b
     | [one] \<Rightarrow> Ok (fork, one, points)
     | _ \<Rightarrow> Err Invalid)"

fun sum_on_forks ::
  "'s env \<Rightarrow> repo \<Rightarrow> string \<Rightarrow> string list \<Rightarrow> (string \<times> nat \<times> state_point list) result" where
  "sum_on_forks E r s [] = Err Invalid"
| "sum_on_forks E r s (f # fs) =
     rbind (lineage_states E r f) (\<lambda>points. case sum_at points s of
       Some idx \<Rightarrow> Ok (f, idx, points)
     | None \<Rightarrow> sum_on_forks E r s fs)"

definition resolve_sum_global ::
  "'s env \<Rightarrow> repo \<Rightarrow> string \<Rightarrow> (string \<times> nat \<times> state_point list) result" where
  "resolve_sum_global E r s = sum_on_forks E r s (fork_names r)"

definition resolve_sum ::
  "'s env \<Rightarrow> repo \<Rightarrow> string \<Rightarrow> string \<Rightarrow> (string \<times> nat \<times> state_point list) result" where
  "resolve_sum E r s default_fork =
     (if \<not> is_hex64 s then Err Invalid else
      rbind (lineage_states E r default_fork) (\<lambda>points. case sum_at points s of
        Some idx \<Rightarrow> Ok (default_fork, idx, points)
      | None \<Rightarrow> resolve_sum_global E r s))"

definition resolve_line_base ::
  "'s env \<Rightarrow> repo \<Rightarrow> string \<Rightarrow> string \<Rightarrow> (string \<times> nat \<times> state_point list) result" where
  "resolve_line_base E r i default_fork =
     (if i = [] then Err Invalid else
      rbind (lineage_states E r default_fork) (match_line E r i default_fork))"

definition head_point :: "'s env \<Rightarrow> repo \<Rightarrow> string \<Rightarrow> (string \<times> nat \<times> state_point list) result" where
  "head_point E r fork = rmap (\<lambda>points. (fork, length points - 1, points)) (lineage_states E r fork)"

definition resolve_base ::
  "'s env \<Rightarrow> repo \<Rightarrow> string \<Rightarrow> string \<Rightarrow> (string \<times> nat \<times> state_point list) result" where
  "resolve_base E r b default_fork =
     (case strip_prefix ''sum:'' b of Some s \<Rightarrow> resolve_sum E r s default_fork | None \<Rightarrow>
     (case strip_prefix ''line:'' b of Some i \<Rightarrow> resolve_line_base E r i default_fork | None \<Rightarrow>
      if b = ''HEAD'' \<or> b = ''@'' \<or> b = [] then head_point E r default_fork
      else if b \<in> set (fork_names r) then head_point E r b
      else
        rbind (lineage_states E r default_fork) (\<lambda>points.
        case (if is_hex64 b then sum_at points b else None) of
          Some idx \<Rightarrow> Ok (default_fork, idx, points)
        | None \<Rightarrow> match_line E r b default_fork points)))"

definition resolve :: "'s env \<Rightarrow> repo \<Rightarrow> string \<Rightarrow> string \<Rightarrow> resolved result" where
  "resolve E r spec default_fork =
     (if spec = [] then Err Invalid else
      let (b, sfx) = split_suffixes spec in
      rbind (resolve_base E r b default_fork) (\<lambda>(fork, index, points).
      apply_suffixes fork index points sfx))"

subsection \<open>Ranges of the log\<close>

record log_bounds =
  lb_fork :: string
  lb_start :: nat
  lb_end :: nat

definition find_str :: "string \<Rightarrow> string \<Rightarrow> nat option" where
  "find_str needle s = position (\<lambda>i. starts_with needle (drop i s)) [0..<Suc (length s)]"

definition or_head :: "string \<Rightarrow> string" where
  "or_head s = (if s = [] then ''HEAD'' else s)"

definition range_sides :: "string option \<Rightarrow> (string option \<times> string) result" where
  "range_sides spec = (case spec of
       None \<Rightarrow> Ok (None, ''HEAD'')
     | Some s \<Rightarrow>
         if find_str ''...'' s \<noteq> None then Err Invalid else
         (case find_str ''..'' s of
            None \<Rightarrow> Ok (None, s)
          | Some i \<Rightarrow> let a = take i s; b = drop (i + 2) s in
              if find_str ''..'' b \<noteq> None then Err Invalid else Ok (Some a, b)))"

definition state_position :: "state_point list \<Rightarrow> resolved \<Rightarrow> nat result" where
  "state_position points rs = ok_or Invalid (case rs_line rs of
       Some i \<Rightarrow> line_point_at points i
     | None \<Rightarrow> if rs_sum rs = sp_sum (points ! 0) then Some 0 else None)"

definition log_range :: "'s env \<Rightarrow> repo \<Rightarrow> string option \<Rightarrow> string \<Rightarrow> log_bounds result" where
  "log_range E r spec default_fork =
     rbind (range_sides spec) (\<lambda>(left, right).
     rbind (resolve E r (or_head right) default_fork) (\<lambda>right_r.
     rbind (lineage_states E r (rs_fork right_r)) (\<lambda>points.
     rbind (state_position points right_r) (\<lambda>stop.
     rbind (case left of None \<Rightarrow> Ok 0
       | Some a \<Rightarrow> rbind (resolve E r (or_head a) (rs_fork right_r)) (state_position points)) (\<lambda>start.
     Ok \<lparr>lb_fork = rs_fork right_r, lb_start = start, lb_end = max stop start\<rparr>)))))"

subsection \<open>A resolution is a state of a lineage\<close>

definition on_lineage :: "'s env \<Rightarrow> repo \<Rightarrow> string \<times> nat \<times> state_point list \<Rightarrow> bool" where
  "on_lineage E r x = (case x of (fork, i, points) \<Rightarrow> lineage_states E r fork = Ok points \<and> i < length points)"

lemma on_lineage_simp [simp]:
  "on_lineage E r (fork, i, points) \<longleftrightarrow> lineage_states E r fork = Ok points \<and> i < length points"
  by (simp add: on_lineage_def)

lemma lineage_states_nonempty: "lineage_states E r fork = Ok points \<Longrightarrow> points \<noteq> []"
  by (auto simp: lineage_states_def Let_def)

lemma apply_suffix_bound: "apply_suffix n s i = Ok j \<Longrightarrow> i < n \<Longrightarrow> j < n"
  by (auto simp: apply_suffix_def step_back_def split: if_splits)

lemma walk_bound: "rfold (apply_suffix n) sfx i = Ok j \<Longrightarrow> i < n \<Longrightarrow> j < n"
  by (rule rfold_invariant) (auto intro: apply_suffix_bound)

lemma at_bounds:
  "sum_at points s = Some i \<Longrightarrow> i < length points \<and> sp_sum (points ! i) = s"
  "line_point_at points k = Some i \<Longrightarrow> i < length points \<and> sp_line (points ! i) = Some k"
  by (auto simp: sum_at_def line_point_at_def dest: rposition_SomeD)

lemma at_lengths [simp]: "sum_at points s = Some i \<Longrightarrow> i < length points" "line_point_at points k = Some i \<Longrightarrow> i < length points"
  by (blast dest: at_bounds)+

lemma line_matches_bound: "i \<in> set (line_matches points b) \<Longrightarrow> i < length points"
  by (simp add: line_matches_def)

lemma global_line_on:
  assumes "resolve_line_id_global E r b = Ok x" shows "on_lineage E r x"
proof (cases "authoring E r b")
  case (Inr m)
  with assms show ?thesis
    by (cases m rule: remdups_adj.cases) (auto simp: resolve_line_id_global_def)
qed (use assms in \<open>simp add: resolve_line_id_global_def\<close>)

lemma match_line_on:
  assumes "match_line E r b fork points = Ok x" "lineage_states E r fork = Ok points"
  shows "on_lineage E r x"
proof -
  have "i < length points" if "line_matches points b = [i]" for i
    using line_matches_bound [of i points b] that by simp
  then show ?thesis
    using assms by (auto simp: match_line_def split: list.splits dest: global_line_on)
qed

lemma sum_on_forks_on: "sum_on_forks E r s fs = Ok x \<Longrightarrow> on_lineage E r x"
  by (induction fs) (auto split: option.splits)

lemma head_point_on: "head_point E r fork = Ok x \<Longrightarrow> on_lineage E r x"
  using lineage_states_nonempty by (fastforce simp: head_point_def)

lemma resolve_sum_on: "resolve_sum E r s fork = Ok x \<Longrightarrow> on_lineage E r x"
  by (auto simp: resolve_sum_def resolve_sum_global_def split: if_splits option.splits
      dest: sum_on_forks_on)

lemma resolve_line_base_on: "resolve_line_base E r s fork = Ok x \<Longrightarrow> on_lineage E r x"
  by (auto simp: resolve_line_base_def split: if_splits dest: match_line_on)

lemma resolve_base_on: "resolve_base E r b fork = Ok x \<Longrightarrow> on_lineage E r x"
  by (auto simp: resolve_base_def split: option.splits if_splits
      dest: resolve_sum_on resolve_line_base_on head_point_on match_line_on)

lemma apply_suffixes_no_panic:
  "i < length points \<Longrightarrow> apply_suffixes fork i points sfx =
     rbind (rfold (apply_suffix (length points)) sfx i) (\<lambda>j.
       Ok \<lparr>rs_fork = fork, rs_sum = sp_sum (points ! j), rs_line = sp_line (points ! j)\<rparr>)"
  by (cases "rfold (apply_suffix (length points)) sfx i") (auto simp: apply_suffixes_def dest: walk_bound)

text \<open>The index a revision resolves to.\<close>

lemma resolve_Ok:
  assumes "resolve E r spec fork = Ok rs"
  shows "\<exists>b sfx i points j. split_suffixes spec = (b, sfx) \<and>
    resolve_base E r b fork = Ok (rs_fork rs, i, points) \<and> lineage_states E r (rs_fork rs) = Ok points \<and>
    i < length points \<and> rfold (apply_suffix (length points)) sfx i = Ok j \<and> j < length points \<and>
    rs_sum rs = sp_sum (points ! j) \<and> rs_line rs = sp_line (points ! j)"
proof -
  from assms obtain b sfx f i points where s: "split_suffixes spec = (b, sfx)"
    "resolve_base E r b fork = Ok (f, i, points)" "apply_suffixes f i points sfx = Ok rs"
    by (auto simp: resolve_def split: if_splits prod.splits)
  from resolve_base_on [OF s(2)] have on: "lineage_states E r f = Ok points" "i < length points" by simp_all
  from s(3) obtain j where j: "rfold (apply_suffix (length points)) sfx i = Ok j"
    "rs = \<lparr>rs_fork = f, rs_sum = sp_sum (points ! j), rs_line = sp_line (points ! j)\<rparr>"
    unfolding apply_suffixes_no_panic [OF on(2)] by auto
  with s on walk_bound [OF j(1) on(2)] show ?thesis by fastforce
qed

text \<open>No index is ever out of range: a panic can only come from what is read.\<close>

lemma resolve_no_panic:
  assumes "resolve E r spec fork = Err Panic" "split_suffixes spec = (b, sfx)"
  shows "resolve_base E r b fork = Err Panic"
proof (rule ccontr)
  assume n: "resolve_base E r b fork \<noteq> Err Panic"
  with assms obtain f i points where x: "resolve_base E r b fork = Ok (f, i, points)"
    "apply_suffixes f i points sfx = Err Panic"
    by (auto simp: resolve_def rbind_eq_Inl split: if_splits prod.splits)
  from resolve_base_on [OF x(1)] have i: "i < length points" by simp
  have "rfold (apply_suffix m) ss k \<noteq> Err Panic" for m ss k
  proof (induction ss arbitrary: k)
    case (Cons s ss)
    have "apply_suffix m s k \<noteq> Err Panic"
      by (cases "parse_u64 (drop 1 s)"; cases "parse_u64 (take (length s - 3) (drop 2 s))")
        (simp_all add: apply_suffix_def step_back_def)
    with Cons show ?case by (simp add: rbind_eq_Inl)
  qed simp
  with x(2) show False unfolding apply_suffixes_no_panic [OF i] by (simp add: rbind_eq_Inl)
qed

subsection \<open>The states of a lineage\<close>

text \<open>
  What the walks take for granted: the lineage ends at a root, and no log of its forks
  returns to its anchor.  A snapshot makes one return: its fork is then anchored at its own
  state, and the lines before that state are walked although the anchor counts them in.
\<close>

definition whole_lineage :: "'s env \<Rightarrow> repo \<Rightarrow> string \<Rightarrow> bool" where
  "whole_lineage E r fork \<longleftrightarrow> (case lineage_segments E r fork None [] of
       Inl e \<Rightarrow> False
     | Inr segs \<Rightarrow> rooted E r (fst (last segs)) \<and> unsnapshotted E r (map fst segs))"

context setsum
begin

lemma entries_commute:
  assumes "rfold (entry_to_sum E) es s = Ok s1" "entry_to_sum E e s1 = Ok s2"
  shows "\<exists>t. entry_to_sum E e s = Ok t \<and> rfold (entry_to_sum E) es t = Ok s2"
  using assms
proof (induction es arbitrary: s)
  case (Cons f es)
  then obtain u where u: "entry_to_sum E f s = Ok u" "rfold (entry_to_sum E) es u = Ok s1" by auto
  from Cons.IH [OF u(2) Cons.prems(2)] obtain t where
    t: "entry_to_sum E e u = Ok t" "rfold (entry_to_sum E) es t = Ok s2" by blast
  from entry_to_sum_commute [OF u(1) t(1)] t(2) show ?case by auto
qed simp

text \<open>The swapped delta takes the sum back in whatever order its entries come.\<close>

lemma sum_undo_in_order:
  "apply_realized_to_sum E s es = Ok s' \<Longrightarrow> apply_realized_to_sum E s' (map swap_entry es) = Ok s"
proof (induction es arbitrary: s)
  case (Cons e es)
  then obtain s1 where 1: "entry_to_sum E e s = Ok s1" "apply_realized_to_sum E s1 es = Ok s'"
    by (auto simp: apply_realized_to_sum_def)
  from entries_commute [OF Cons.IH [OF 1(2), unfolded apply_realized_to_sum_def] entry_to_sum_swap [OF 1(1)]]
  show ?case by (auto simp: apply_realized_to_sum_def)
qed (simp add: apply_realized_to_sum_def)

lemma sums_from_prefix:
  assumes "sums_from E b ls = Ok s" "i \<le> length ls"
  shows "\<exists>t. sums_from E b (take i ls) = Ok t \<and> sums_from E t (drop i ls) = Ok s \<and>
    ss_hexdigest E t = (if i = 0 then ss_hexdigest E b else ll_sum_after (ls ! (i - 1)))"
proof -
  have "rbind (sums_from E b (take i ls)) (\<lambda>t. sums_from E t (drop i ls)) = Ok s"
    using assms(1) by (simp flip: sums_from_append)
  then obtain t where
    t: "sums_from E b (take i ls) = Ok t" "sums_from E t (drop i ls) = Ok s" by auto
  have "ss_hexdigest E t = ll_sum_after (ls ! (i - 1))" if "i \<noteq> 0"
  proof -
    from that assms(2) have "take i ls = take (i - 1) ls @ [ls ! (i - 1)]"
      by (cases i) (simp_all add: take_Suc_conv_app_nth)
    with t(1) show ?thesis by (auto simp: sums_from_append) (auto simp: sums_from_def split: if_splits)
  qed
  moreover have "t = b" if "i = 0" using t that by (simp add: sums_from_def)
  ultimately show ?thesis using t by auto
qed

lemma lineage_base_of:
  assumes "sums_from E b ls = Ok s" "current_state E r fork = Ok st" "fs_sum_hex st = ss_hexdigest E s"
  shows "lineage_base E r fork ls = Ok (ss_hexdigest E b)"
proof (cases ls)
  case Nil
  with assms show ?thesis by (simp add: lineage_base_def sums_from_def)
next
  case (Cons l us)
  with assms(1) obtain a where a: "apply_realized_to_sum E b (ll_realized l) = Ok a" "ll_sum_after l = ss_hexdigest E a"
    by (auto simp: sums_from_def split: if_splits)
  then show ?thesis using Cons sum_undo_in_order [OF a(1)] by (simp add: lineage_base_def sum_from_hexdigest_def)
qed

text \<open>Point \<open>i\<close> of a lineage is the state the first \<open>i\<close> lines lead to from the base.\<close>

lemma lineage_states_reached:
  assumes "continuity_log E r fork = Ok hist" "whole_lineage E r fork"
  shows "\<exists>points b s st. lineage_states E r fork = Ok points \<and> length points = Suc (length hist) \<and>
    lineage_base_sum E r fork = Ok (ss_hexdigest E b) \<and> sums_from E b (map snd hist) = Ok s \<and>
    current_state E r fork = Ok st \<and> fs_sum_hex st = ss_hexdigest E s \<and>
    (\<forall>i < length points. \<exists>t. sums_from E b (take i (map snd hist)) = Ok t \<and>
       sums_from E t (drop i (map snd hist)) = Ok s \<and> sp_sum (points ! i) = ss_hexdigest E t \<and>
       sp_line (points ! i) = (if i = 0 then None else Some (ll_id (map snd hist ! (i - 1)))))"
proof -
  from assms(2) obtain segs where segs: "lineage_segments E r fork None [] = Ok segs"
    "rooted E r (fst (last segs))" "unsnapshotted E r (map fst segs)"
    by (auto simp: whole_lineage_def split: sum.splits)
  from continuity_sums [OF assms(1) segs] obtain b s st where b: "lineage_base_sum E r fork = Ok (ss_hexdigest E b)"
    "sums_from E b (map snd hist) = Ok s" "current_state E r fork = Ok st" "fs_sum_hex st = ss_hexdigest E s"
    by blast
  define points where points: "points = \<lparr>sp_sum = ss_hexdigest E b, sp_line = None\<rparr> # map line_point (map snd hist)"
  have ls: "lineage_states E r fork = Ok points"
    using assms(1) lineage_base_of [OF b(2-4)] by (simp add: lineage_states_def points)
  have "\<exists>t. sums_from E b (take i (map snd hist)) = Ok t \<and>
       sums_from E t (drop i (map snd hist)) = Ok s \<and> sp_sum (points ! i) = ss_hexdigest E t \<and>
       sp_line (points ! i) = (if i = 0 then None else Some (ll_id (map snd hist ! (i - 1))))"
    if i: "i < length points" for i
  proof -
    from i points have "i \<le> length (map snd hist)" by simp
    from sums_from_prefix [OF b(2) this] obtain t where t: "sums_from E b (take i (map snd hist)) = Ok t"
      "sums_from E t (drop i (map snd hist)) = Ok s"
      "ss_hexdigest E t = (if i = 0 then ss_hexdigest E b else ll_sum_after (map snd hist ! (i - 1)))" by blast
    with i points show ?thesis by (cases i) (auto simp: line_point_def)
  qed
  with ls b points show ?thesis by (intro exI [of _ points] exI [of _ b] exI [of _ s] exI [of _ st]) auto
qed

text \<open>The lines between two points take the state of the one to the state of the other.\<close>

lemma lineage_points_between:
  assumes "lineage_states E r fork = Ok points" "whole_lineage E r fork" "continuity_log E r fork = Ok hist"
    "i \<le> j" "j < length points"
  shows "\<exists>t u. sp_sum (points ! i) = ss_hexdigest E t \<and> sp_sum (points ! j) = ss_hexdigest E u \<and>
    sums_from E t (drop i (take j (map snd hist))) = Ok u"
proof -
  from lineage_states_reached [OF assms(3,2)] assms(1) obtain b where
    p: "\<forall>i < length points. \<exists>t. sums_from E b (take i (map snd hist)) = Ok t \<and> sp_sum (points ! i) = ss_hexdigest E t"
    by (auto simp: take_map drop_map) metis
  from p assms(4,5) obtain t where t: "sums_from E b (take i (map snd hist)) = Ok t" "sp_sum (points ! i) = ss_hexdigest E t"
    by (meson order.strict_trans1)
  from p assms(5) obtain u where u: "sums_from E b (take j (map snd hist)) = Ok u" "sp_sum (points ! j) = ss_hexdigest E u"
    by blast
  have "take j (map snd hist) = take i (map snd hist) @ drop i (take j (map snd hist))"
    using assms(4) by (metis append_take_drop_id min.absorb1 take_take)
  with u(1) t(1) have "sums_from E t (drop i (take j (map snd hist))) = Ok u"
    by (metis rbind.simps(2) sums_from_append)
  with t u show ?thesis by blast
qed

end

subsection \<open>Steps back from the head\<close>

lemma digit_takeWhile: "list_all is_digit s \<Longrightarrow> takeWhile is_digit s = s \<and> dropWhile is_digit s = []"
  by (induction s) auto

lemma head_tilde: "split_suffixes (''HEAD~'' @ show_nat n) = (''HEAD'', [CHR ''~'' # show_nat n])"
  using digit_takeWhile [OF show_nat_digits [of n]]
  by (simp add: split_suffixes_def suffixes.simps(2) del: list_all_iff takeWhile_eq_all_conv dropWhile_eq_Nil_conv)

lemma resolve_head_tilde:
  assumes "lineage_states E r fork = Ok points" "n < 2 ^ 64"
  shows "resolve E r (''HEAD~'' @ show_nat n) fork =
    (if n < length points
     then Ok \<lparr>rs_fork = fork, rs_sum = sp_sum (points ! (length points - 1 - n)),
              rs_line = sp_line (points ! (length points - 1 - n))\<rparr>
     else Err Invalid)"
proof -
  have ne: "points \<noteq> []" using lineage_states_nonempty [OF assms(1)] .
  have b: "resolve_base E r ''HEAD'' fork = Ok (fork, length points - 1, points)"
    using assms(1) by (simp add: resolve_base_def strip_prefix_def starts_with_def head_point_def)
  have "apply_suffix m (CHR ''~'' # show_nat n) i = step_back i n" for m i
    using assms(2) by (simp add: apply_suffix_def starts_with_def parse_u64_show)
  then show ?thesis
    using b ne head_tilde [of n] by (cases points) (auto simp: resolve_def apply_suffixes_def step_back_def)
qed

subsection \<open>Ranges\<close>

lemma state_position_Ok:
  assumes "state_position points rs = Ok i" "points \<noteq> []"
  shows "i < length points \<and> (case rs_line rs of
     Some k \<Rightarrow> sp_line (points ! i) = Some k | None \<Rightarrow> i = 0 \<and> sp_sum (points ! 0) = rs_sum rs)"
  using assms by (auto simp: state_position_def split: option.splits if_splits dest: at_bounds)

lemma log_range_Ok:
  assumes "log_range E r spec fork = Ok b"
  shows "\<exists>left right right_r points stop. range_sides spec = Ok (left, right) \<and>
    resolve E r (or_head right) fork = Ok right_r \<and> lb_fork b = rs_fork right_r \<and>
    lineage_states E r (lb_fork b) = Ok points \<and> state_position points right_r = Ok stop \<and> stop < length points \<and>
    lb_end b = max stop (lb_start b) \<and> lb_start b < length points \<and>
    (case left of None \<Rightarrow> lb_start b = 0
     | Some a \<Rightarrow> \<exists>left_r. resolve E r (or_head a) (lb_fork b) = Ok left_r \<and>
         state_position points left_r = Ok (lb_start b))"
proof -
  from assms obtain left right right_r points stop start where
    s: "range_sides spec = Ok (left, right)" "resolve E r (or_head right) fork = Ok right_r"
      "lineage_states E r (rs_fork right_r) = Ok points" "state_position points right_r = Ok stop"
    and l: "(case left of None \<Rightarrow> Ok 0
       | Some a \<Rightarrow> rbind (resolve E r (or_head a) (rs_fork right_r)) (state_position points)) = Ok start"
    and b: "b = \<lparr>lb_fork = rs_fork right_r, lb_start = start, lb_end = max stop start\<rparr>"
    by (auto simp: log_range_def)
  note ne = lineage_states_nonempty [OF s(3)]
  from l ne have "start < length points" by (auto split: option.splits dest: state_position_Ok)
  with s l b ne state_position_Ok [OF s(4) ne] show ?thesis
    by (intro exI [of _ left] exI [of _ right] exI [of _ right_r] exI [of _ points] exI [of _ stop])
      (auto split: option.splits)
qed

text \<open>
  The point of a lineage a resolution names: the last one of its line, or the base.  When no
  line occurs twice, it is the very state the resolution names.
\<close>

definition names_point :: "state_point list \<Rightarrow> resolved \<Rightarrow> nat \<Rightarrow> bool" where
  "names_point points rs i \<longleftrightarrow> i < length points \<and> sp_line (points ! i) = rs_line rs \<and>
     (case rs_line rs of
        None \<Rightarrow> i = 0 \<and> sp_sum (points ! 0) = rs_sum rs
      | Some k \<Rightarrow> \<forall>j. i < j \<and> j < length points \<longrightarrow> sp_line (points ! j) \<noteq> Some k)"

lemma lineage_base_point: "lineage_states E r fork = Ok points \<Longrightarrow> sp_line (points ! 0) = None"
  by (auto simp: lineage_states_def Let_def)

lemma position_named:
  assumes "state_position points rs = Ok i" "lineage_states E r fork = Ok points"
  shows "names_point points rs i"
proof (cases "rs_line rs")
  case None
  with state_position_Ok [OF assms(1) lineage_states_nonempty [OF assms(2)]] lineage_base_point [OF assms(2)]
    lineage_states_nonempty [OF assms(2)]
  show ?thesis by (cases points) (simp_all add: names_point_def)
next
  case (Some k)
  with assms(1) have "rposition (\<lambda>p. sp_line p = Some k) points = Some i"
    by (simp add: state_position_def line_point_at_def)
  with Some show ?thesis by (auto simp: names_point_def dest: rposition_SomeD)
qed

lemma named_state:
  assumes "names_point points rs i" "resolve E r spec fork = Ok rs" "lineage_states E r (rs_fork rs) = Ok points"
    "distinct (map sp_line points)"
  shows "sp_sum (points ! i) = rs_sum rs"
proof -
  from resolve_Ok [OF assms(2)] assms(3) obtain j where j: "j < length points" "rs_sum rs = sp_sum (points ! j)"
    "rs_line rs = sp_line (points ! j)" by auto
  with assms(1,4) have "i = j" by (auto simp: names_point_def distinct_conv_nth)
  with j show ?thesis by simp
qed

subsection \<open>Fork names no revision can spell\<close>

text \<open>
  A base never holds an \<open>@\<close> behind its first character and a stray \<open>@\<close> is no
  suffix, so a fork whose valid name holds one, like \<open>a@b\<close>, is out of reach.
\<close>

lemma at_sign_unresolved:
  assumes "a \<noteq> []" "set a \<inter> {CHR ''~'', CHR ''^'', CHR ''@''} = {}" "\<not> starts_with ''{'' c"
  shows "\<not> is_ok (resolve E r (a @ CHR ''@'' # c) fork)"
proof -
  have e: "base_end False (xs @ CHR ''@'' # c) = length xs"
    if "set xs \<inter> {CHR ''~'', CHR ''^'', CHR ''@''} = {}" for xs
    using that by (induction xs) auto
  obtain x xs where x: "a = x # xs" using assms(1) by (cases a) auto
  then have "base_end True (a @ CHR ''@'' # c) = length a" using assms(2) e [of xs] by auto
  moreover have "suffixes (CHR ''@'' # c) = [CHR ''@''] # suffixes c"
    using assms(3) by (simp add: suffixes.simps(2) seq_len_def byte_def)
  ultimately have "split_suffixes (a @ CHR ''@'' # c) = (a, [CHR ''@''] # suffixes c)"
    by (simp add: split_suffixes_def)
  moreover have "apply_suffix m ''@'' i = Err Invalid" for m i
    by (simp add: apply_suffix_def starts_with_def ends_with_def)
  ultimately show ?thesis by (auto simp: resolve_def is_ok_iff apply_suffixes_def)
qed

end
