(* ===== verification/Blame.thy ===== *)
theory Blame
  imports Lineage
begin

text \<open>
  \<open>src/src/blame.rs\<close>: attribution of a file's lines by forward replay.  Every byte
  carries the index of the log line that produced it.  The lemmas say that the replay
  tracks the file of the state as long as the lines' intents are what was applied,
  that it tags every byte with the line that produced it, and that the rendered lines are
  the file's lines, each under the newest tag among its own bytes.
\<close>

record blamed_line =
  bl_owner :: string
  bl_text :: string

subsection \<open>Text of a line\<close>

text \<open>\<open>String::from_utf8_lossy\<close>: a maximal ill-formed prefix becomes one U+FFFD.\<close>

definition nth_is :: "(char \<Rightarrow> bool) \<Rightarrow> bytes \<Rightarrow> nat \<Rightarrow> bool" where
  "nth_is P s i \<longleftrightarrow> i < length s \<and> P (s ! i)"

definition lossy_step :: "char \<Rightarrow> bytes \<Rightarrow> bool \<times> nat" where
  "lossy_step c s =
     (if seq_len c = 0 then (False, 1)
      else if seq_len c = 1 then (True, 1)
      else if seq_len c = 2 then (if nth_is is_cont s 0 then (True, 2) else (False, 1))
      else if seq_len c = 3 then
        (if \<not> nth_is (second_ok (byte c)) s 0 then (False, 1)
         else if \<not> nth_is is_cont s 1 then (False, 2) else (True, 3))
      else
        (if \<not> nth_is (second_ok (byte c)) s 0 then (False, 1)
         else if \<not> nth_is is_cont s 1 then (False, 2)
         else if \<not> nth_is is_cont s 2 then (False, 3) else (True, 4)))"

definition REPLACEMENT :: bytes where
  "REPLACEMENT = [CHR 0xEF, CHR 0xBF, CHR 0xBD]"

lemma lossy_step_pos: "0 < snd (lossy_step c s)"
  by (simp add: lossy_step_def)

function from_utf8_lossy :: "bytes \<Rightarrow> string" where
  "from_utf8_lossy [] = []"
| "from_utf8_lossy (c # s) =
     (let (good, n) = lossy_step c s in
      (if good then take n (c # s) else REPLACEMENT) @ from_utf8_lossy (drop n (c # s)))"
  by pat_completeness auto
termination
proof (relation "measure length", goal_cases)
  case (2 c s x good n)
  then have "0 < n" using lossy_step_pos [of c s] by (metis snd_conv)
  then show ?case by simp
qed simp

declare from_utf8_lossy.simps(2) [simp del]

text \<open>Well-formed text is kept as it is.\<close>

lemma lossy_identity: "decode_utf8 s = Some cs \<Longrightarrow> from_utf8_lossy s = s"
proof (induction s arbitrary: cs rule: decode_utf8.induct)
  case (2 c s)
  note step = from_utf8_lossy.simps(2) lossy_step_def nth_is_def
  consider "seq_len c = 1" | "seq_len c = 2" | "seq_len c = 3" | "seq_len c = 4"
    using seq_len_cases [of c] "2.prems" by auto
  then show ?case
  proof cases
    case 1
    with "2.prems" "2.IH"(1) show ?thesis by (auto simp: step)
  next
    case l: 2
    with "2.prems" obtain c1 t cs' where "s = c1 # t" "is_cont c1" "decode_utf8 t = Some cs'"
      by (auto split: list.splits if_splits)
    with l "2.IH"(2) show ?thesis by (simp add: step)
  next
    case l: 3
    with "2.prems" obtain c1 c2 t cs' where "s = c1 # c2 # t" "second_ok (byte c) c1" "is_cont c2" "decode_utf8 t = Some cs'"
      by (auto split: list.splits if_splits)
    with l "2.IH"(3) show ?thesis by (simp add: step)
  next
    case l: 4
    with "2.prems" obtain c1 c2 c3 t cs' where "s = c1 # c2 # c3 # t" "second_ok (byte c) c1" "is_cont c2" "is_cont c3"
      "decode_utf8 t = Some cs'" by (auto split: list.splits if_splits)
    with l "2.IH"(4) show ?thesis by (simp add: step)
  qed
qed simp

subsection \<open>The replay\<close>

text \<open>\<open>find_unique\<close> of this module, a loop of its own.\<close>

fun unique_loop :: "bytes \<Rightarrow> bytes \<Rightarrow> nat list \<Rightarrow> nat option \<Rightarrow> nat option" where
  "unique_loop haystack needle [] found = found"
| "unique_loop haystack needle (i # is) found =
     (if occurs_at haystack needle i
      then (if found \<noteq> None then None else unique_loop haystack needle is (Some i))
      else unique_loop haystack needle is found)"

definition unique_offset :: "bytes \<Rightarrow> bytes \<Rightarrow> nat option" where
  "unique_offset haystack needle =
     (if needle = [] \<or> length needle > length haystack then None
      else unique_loop haystack needle [0..<Suc (length haystack - length needle)] None)"

type_synonym blame_state = "bytes \<times> nat list \<times> bool"

definition created_bytes :: "pool \<Rightarrow> string option \<Rightarrow> string option \<Rightarrow> bytes result" where
  "created_bytes pool blob content = (case (blob, content) of
       (Some h, _) \<Rightarrow> blob_get pool h
     | (None, Some c) \<Rightarrow> decode c
     | (None, None) \<Rightarrow> Err Corrupt)"

fun blame_op :: "pool \<Rightarrow> nat \<Rightarrow> op \<Rightarrow> blame_state \<Rightarrow> blame_state result" where
  "blame_op pool idx (Create path mode blob content) st =
     rmap (\<lambda>bs. (bs, replicate (length bs) idx, True)) (created_bytes pool blob content)"
| "blame_op pool idx (Edit path old new) (content, owners, present) =
     rmap (\<lambda>at. (take at content @ new @ drop (at + length old) content,
                take at owners @ replicate (length new) idx @ drop (at + length old) owners, present))
       (ok_or Corrupt (unique_offset content old))"
| "blame_op pool idx (Delete path blob) st = Ok ([], [], False)"
| "blame_op pool idx (Chmod path old_mode new_mode) st = Ok st"

definition blame_line :: "pool \<Rightarrow> string \<Rightarrow> nat \<times> log_line \<Rightarrow> blame_state \<Rightarrow> blame_state result" where
  "blame_line pool path = (\<lambda>(idx, l) st.
     rfold (\<lambda>op st. if op_path op \<noteq> path then Ok st else blame_op pool idx op st) (ops (ll_intent l)) st)"

definition blame_replay :: "pool \<Rightarrow> string \<Rightarrow> log_line list \<Rightarrow> blame_state result" where
  "blame_replay pool path history = rfold (blame_line pool path) (zip [0..<length history] history) ([], [], False)"

subsection \<open>Rolling up to lines\<close>

text \<open>The byte ranges of the lines; the scan stands at \<open>i\<close>, in a line begun at \<open>start\<close>.\<close>

function line_ranges :: "bytes \<Rightarrow> nat \<Rightarrow> nat \<Rightarrow> (nat \<times> nat) list" where
  "line_ranges content start i =
     (if i < length content then
        (if is_LF (content ! i) then (start, i + 1) # line_ranges content (i + 1) (i + 1)
         else line_ranges content start (i + 1))
      else if start < length content then [(start, length content)] else [])"
  by pat_completeness auto
termination by (relation "measure (\<lambda>(content, start, i). length content - i)") auto

declare line_ranges.simps [simp del]

definition emit_blamed :: "bytes \<Rightarrow> nat list \<Rightarrow> log_line list \<Rightarrow> nat \<times> nat \<Rightarrow> blamed_line" where
  "emit_blamed content owners history = (\<lambda>(a, b).
     let own = Span.slice a b owners;
         text_end = (if is_LF (content ! (b - 1)) then b - 1 else b) in
     \<lparr>bl_owner = (if own = [] then [] else ll_id (history ! Max (set own))),
      bl_text = from_utf8_lossy (Span.slice a text_end content)\<rparr>)"

definition roll_up_lines :: "bytes \<Rightarrow> nat list \<Rightarrow> log_line list \<Rightarrow> blamed_line list" where
  "roll_up_lines content owners history =
     map (emit_blamed content owners history) (line_ranges content 0 0)"

definition blame_path :: "string \<Rightarrow> log_line list \<Rightarrow> pool \<Rightarrow> blamed_line list result" where
  "blame_path path history pool =
     rbind (blame_replay pool path history) (\<lambda>(content, owners, present).
     if \<not> present then Err Invalid else Ok (roll_up_lines content owners history))"

text \<open>\<open>Repository::blame\<close>: over the fork's whole lineage.\<close>

definition blame :: "'s env \<Rightarrow> repo \<Rightarrow> string \<Rightarrow> string \<Rightarrow> blamed_line list result" where
  "blame E r fork path =
     rbind (continuity_log E r fork) (\<lambda>history. blame_path path (map snd history) (rp_pool r))"

subsection \<open>Agreement with the edit precondition\<close>

lemma unique_loop_filter:
  "unique_loop h n is found =
     (case (found, filter (occurs_at h n) is) of
        (f, []) \<Rightarrow> f | (None, [at]) \<Rightarrow> Some at | _ \<Rightarrow> None)"
  by (induction "is" arbitrary: found) (auto split: option.splits list.splits)

text \<open>The two searches of the code find the same offset.\<close>

lemma unique_offset_find_unique:
  "unique_offset h n = (case find_unique h n of Inl k \<Rightarrow> None | Inr at \<Rightarrow> Some at)"
  by (auto simp: unique_offset_def find_unique_def unique_loop_filter split: list.splits simp del: upt_Suc)

subsection \<open>The replay tracks the file\<close>

text \<open>What the replay of a path holds when the state has \<open>m\<close>.\<close>

definition tracks :: "pool \<Rightarrow> string \<Rightarrow> manifest \<Rightarrow> blame_state \<Rightarrow> bool" where
  "tracks pool path m = (\<lambda>(content, owners, present).
     length owners = length content \<and> present = (m_get m path \<noteq> None) \<and>
     (\<forall>r. m_get m path = Some r \<longrightarrow> blob_get pool (er_blob r) = Ok content))"

definition pooled :: "pool \<Rightarrow> (string \<times> bytes) list \<Rightarrow> bool" where
  "pooled pool new \<longleftrightarrow> (\<forall>(h, c) \<in> set new. blob_get pool h = Ok c)"

lemma pooled_append [simp]: "pooled pool (xs @ ys) \<longleftrightarrow> pooled pool xs \<and> pooled pool ys"
  by (auto simp: pooled_def)

lemma read_blob_pooled: "pooled pool new \<Longrightarrow> read_blob pool new h = blob_get pool h"
  by (fastforce simp: read_blob_def pooled_def find_Some_iff split: option.splits dest: nth_mem)

lemma m_get_after_remove:
  "bt_ok m \<Longrightarrow> m_remove r m = Ok m' \<Longrightarrow> m_get m' p = (if p = er_path r then None else m_get m p)"
  by (auto simp: m_remove_Ok m_get_def bt_get_remove)

lemma m_get_replaced:
  "bt_ok m \<Longrightarrow> m_remove a m = Ok m1 \<Longrightarrow> m_insert r m1 = Ok m' \<Longrightarrow> m_get m' (er_path r) = Some r"
  by (auto simp: m_insert_Ok m_remove_Ok m_get_def bt_get_insert bt_ok_remove)

lemma new_blobs_grow:
  "rfold (apply_op E pool) os (m, rz) = Ok (m', rz') \<Longrightarrow> m_ok m \<Longrightarrow> \<exists>new. new_blobs rz' = new_blobs rz @ new"
proof (induction os arbitrary: m rz)
  case (Cons op os)
  then obtain m1 rz1 where 1: "apply_op E pool op (m, rz) = Ok (m1, rz1)"
    "rfold (apply_op E pool) os (m1, rz1) = Ok (m', rz')" by auto
  from apply_op_realizes [OF Cons.prems(2) 1(1)] obtain e n where
    e: "entry_to_manifest e m = Ok m1" "new_blobs rz1 = new_blobs rz @ n"
    by (auto simp: op_realizes_def)
  from Cons.IH [OF 1(2) entry_to_manifest_ok [OF Cons.prems(2) e(1)]] e(2) show ?case by auto
qed simp

lemma op_keeps_others:
  assumes "m_ok m" "apply_op E pool op (m, rz) = Ok (m', rz')" "op_path op \<noteq> p"
  shows "m_get m' p = m_get m p"
proof -
  from apply_op_realizes [OF assms(1,2)] obtain e where
    "entry_to_manifest e m = Ok m'" "entry_paths e = {op_path op}"
    by (auto simp: op_realizes_def)
  with realized_frame [OF assms(1), of "[e]" m' p] assms(3) show ?thesis
    by (simp add: m_get_def apply_realized_to_manifest_def)
qed

lemma create_bytes_read:
  assumes "create_content E pool rz blob content = Ok (h, new)" "pooled pool (new_blobs rz)" "pooled pool new"
  shows "\<exists>bs. created_bytes pool blob content = Ok bs \<and> blob_get pool h = Ok bs"
proof (cases blob)
  case None
  with assms(1) obtain c bs where "content = Some c" "decode c = Ok bs" "new = [(h, bs)]"
    by (auto simp: create_content_def Let_def split: option.splits)
  with None assms(3) show ?thesis by (simp add: created_bytes_def pooled_def)
next
  case (Some g)
  with assms(1) have g: "g = h" "list_ex (\<lambda>(h', _). h' = h) (new_blobs rz) \<or> blob_has pool h = Ok True"
    by (auto simp: create_content_def split: option.splits if_splits)
  then obtain bs where "blob_get pool h = Ok bs"
    using assms(2) by (fastforce simp: pooled_def list_ex_iff blob_has_Ok blob_get_Ok)
  with Some g show ?thesis by (simp add: created_bytes_def)
qed

lemma follows_op:
  assumes "m_ok m" "apply_op E pool op (m, rz) = Ok (m', rz')" "pooled pool (new_blobs rz')"
    "op_path op = path" "tracks pool path m st"
  shows "\<exists>st'. blame_op pool idx op st = Ok st' \<and> tracks pool path m' st'"
proof (cases op)
  case (Edit p old new)
  obtain content owners ex where st: "st = (content, owners, ex)" by (cases st)
  from assms(2,4) Edit obtain el c c' r m1 where el: "m_get m path = Some el"
    and c: "read_blob pool (new_blobs rz) (er_blob el) = Ok c" "op_precondition (replace_unique c old new) = Ok c'"
    and r: "er_new (er_mode el) path (sha3_hex E c') = Ok r" "m_remove el m = Ok m1" "m_insert r m1 = Ok m'"
    and rz: "rz' = realize rz (Some (er_to_line el)) (Some (er_to_line r)) [(sha3_hex E c', c')]"
    by (auto simp: Let_def)
  from rz assms(3) have p: "pooled pool (new_blobs rz)" "blob_get pool (sha3_hex E c') = Ok c'"
    by (simp_all add: pooled_def)
  with c(1) assms(5) el st have "c = content" "length owners = length content" "ex"
    by (auto simp: tracks_def read_blob_pooled)
  moreover from c(2) obtain at where at: "find_unique c old = Ok at" "c' = take at c @ new @ drop (at + length old) c"
    by (auto simp: op_precondition_def replace_unique_def split: sum.splits)
  moreover from at(1) have "at + length old \<le> length c" by (auto simp: find_unique_Ok positions_def)
  moreover have "m_get m' path = Some r"
    using m_get_replaced [OF m_ok_bt [OF assms(1)] r(2,3)] er_new_fields [OF r(1)] by simp
  ultimately show ?thesis using Edit st p er_new_fields [OF r(1)]
    by (simp add: unique_offset_find_unique tracks_def)
next
  case (Create p mode blob content)
  with assms(2,4) obtain h new r where c: "create_content E pool rz blob content = Ok (h, new)"
    and r: "er_new mode path h = Ok r" "m_insert r m = Ok m'"
    and rz: "rz' = realize rz None (Some (er_to_line r)) new"
    by (auto split: if_splits)
  from create_bytes_read [OF c] assms(3) rz obtain bs where
    "created_bytes pool blob content = Ok bs" "blob_get pool h = Ok bs" by auto
  moreover have "m_get m' path = Some r"
    using r(2) m_ok_bt [OF assms(1)] er_new_fields [OF r(1)] by (simp add: m_get_after_insert)
  ultimately show ?thesis using Create er_new_fields [OF r(1)] by (simp add: tracks_def)
next
  case (Delete p blob)
  with assms(2,4) obtain el where el: "m_get m path = Some el" "m_remove el m = Ok m'"
    by (auto split: if_splits)
  moreover from el have "er_path el = path" using m_ok_get [OF assms(1)] by (auto simp: m_get_def)
  ultimately show ?thesis using Delete m_ok_bt [OF assms(1)] by (simp add: tracks_def m_get_after_remove)
next
  case (Chmod p a b)
  with assms(2,4) obtain el r m1 where el: "m_get m path = Some el"
    and r: "er_new b path (er_blob el) = Ok r" "m_remove el m = Ok m1" "m_insert r m1 = Ok m'"
    by (auto split: if_splits)
  have "m_get m' path = Some r"
    using m_get_replaced [OF m_ok_bt [OF assms(1)] r(2,3)] er_new_fields [OF r(1)] by simp
  with el Chmod assms(5) er_new_fields [OF r(1)] show ?thesis by (auto simp: tracks_def)
qed

lemma follows_ops:
  assumes "rfold (apply_op E pool) os (m, rz) = Ok (m', rz')" "m_ok m" "pooled pool (new_blobs rz')"
    "tracks pool path m st"
  shows "m_ok m' \<and> (\<exists>st'. rfold (\<lambda>op st. if op_path op \<noteq> path then Ok st else blame_op pool idx op st) os st = Ok st' \<and>
    tracks pool path m' st')"
  using assms
proof (induction os arbitrary: m rz st)
  case (Cons op os)
  then obtain m1 rz1 where 1: "apply_op E pool op (m, rz) = Ok (m1, rz1)"
    "rfold (apply_op E pool) os (m1, rz1) = Ok (m', rz')" by auto
  from apply_op_realizes [OF Cons.prems(2) 1(1)] obtain e where "entry_to_manifest e m = Ok m1"
    by (auto simp: op_realizes_def)
  then have ok: "m_ok m1" using entry_to_manifest_ok [OF Cons.prems(2)] by simp
  have p1: "pooled pool (new_blobs rz1)"
    using new_blobs_grow [OF 1(2) ok] Cons.prems(3) by auto
  show ?case
  proof (cases "op_path op = path")
    case True
    from follows_op [OF Cons.prems(2) 1(1) p1 True Cons.prems(4)] obtain st1 where
      "blame_op pool idx op st = Ok st1" "tracks pool path m1 st1" by blast
    with Cons.IH [OF 1(2) ok Cons.prems(3), of st1] True show ?thesis by simp
  next
    case False
    with op_keeps_others [OF Cons.prems(2) 1(1) False] Cons.prems(4) have "tracks pool path m1 st"
      by (simp add: tracks_def)
    with Cons.IH [OF 1(2) ok Cons.prems(3), of st] False show ?thesis by simp
  qed
qed simp

text \<open>A history whose intents were what was applied, all its blobs in the pool.\<close>

inductive authored :: "'s env \<Rightarrow> pool \<Rightarrow> manifest \<Rightarrow> log_line list \<Rightarrow> manifest \<Rightarrow> bool" for E pool where
  authored_none: "authored E pool m [] m"
| authored_line: "apply_intent E (ll_intent l) m pool = Ok (m1, rz) \<Longrightarrow> pooled pool (new_blobs rz) \<Longrightarrow>
    authored E pool m1 ls m2 \<Longrightarrow> authored E pool m (l # ls) m2"

inductive_cases authored_ConsE: "authored E pool m (l # ls) m2"

lemma follows_authored:
  assumes "authored E pool m ls m'" "m_ok m" "tracks pool path m st" "length js = length ls"
  shows "m_ok m' \<and> (\<exists>st'. rfold (blame_line pool path) (zip js ls) st = Ok st' \<and> tracks pool path m' st')"
  using assms
proof (induction m ls m' arbitrary: st js rule: authored.induct)
  case (authored_line l m m1 rz ls m2)
  obtain j js' where js: "js = j # js'" "length js' = length ls" using authored_line.prems(3) by (cases js) auto
  from follows_ops [OF authored_line.hyps(1) [unfolded apply_intent_def] authored_line.prems(1) authored_line.hyps(2)
      authored_line.prems(2), where idx = j] obtain st1 where "m_ok m1"
    "blame_line pool path (j, l) st = Ok st1" "tracks pool path m1 st1" by (auto simp: blame_line_def)
  with authored_line.IH [of st1 js'] js show ?case by simp
qed simp

subsection \<open>Owners\<close>

text \<open>
  The abstract side of the replay: the file as bytes tagged with the line that produced
  them.  A creation tags all its bytes, an edit the bytes it puts in the place of the one
  occurrence of its old text; every other byte keeps its tag.
\<close>

definition numbered_ops :: "(nat \<times> log_line) list \<Rightarrow> (nat \<times> op) list" where
  "numbered_ops ls = concat (map (\<lambda>(k, l). map (Pair k) (ops (ll_intent l))) ls)"

lemma numbered_ops_simps [simp]:
  "numbered_ops [] = []"
  "numbered_ops (x # xs) = map (Pair (fst x)) (ops (ll_intent (snd x))) @ numbered_ops xs"
  by (auto simp: numbered_ops_def split: prod.split)

inductive attributed :: "pool \<Rightarrow> string \<Rightarrow> (nat \<times> op) list \<Rightarrow> (char \<times> nat) list \<Rightarrow> bool" for pool path where
  at_start: "attributed pool path [] []"
| at_other: "attributed pool path os t \<Longrightarrow> op_path op \<noteq> path \<Longrightarrow> attributed pool path (os @ [(k, op)]) t"
| at_create_blob: "attributed pool path os t \<Longrightarrow> blob_get pool h = Ok bs \<Longrightarrow>
    attributed pool path (os @ [(k, Create path mode (Some h) c)]) (map (\<lambda>x. (x, k)) bs)"
| at_create_inline: "attributed pool path os t \<Longrightarrow> decode c = Ok bs \<Longrightarrow>
    attributed pool path (os @ [(k, Create path mode None (Some c))]) (map (\<lambda>x. (x, k)) bs)"
| at_edit: "attributed pool path os (pre @ mid @ post) \<Longrightarrow> map fst mid = old \<Longrightarrow>
    \<forall>p q. map fst (pre @ mid @ post) = p @ old @ q \<longrightarrow> p = map fst pre \<Longrightarrow>
    attributed pool path (os @ [(k, Edit path old new)]) (pre @ map (\<lambda>x. (x, k)) new @ post)"
| at_delete: "attributed pool path os t \<Longrightarrow> attributed pool path (os @ [(k, Delete path b)]) []"
| at_chmod: "attributed pool path os t \<Longrightarrow> attributed pool path (os @ [(k, Chmod path m m')]) t"

lemma attributed_owner:
  "attributed pool path os t \<Longrightarrow> x \<in> set t \<Longrightarrow> snd x \<in> fst ` set os"
  by (induction rule: attributed.induct) auto

text \<open>The bytes and the owners of the replay, together.\<close>

definition tagged :: "pool \<Rightarrow> string \<Rightarrow> (nat \<times> op) list \<Rightarrow> blame_state \<Rightarrow> bool" where
  "tagged pool path os = (\<lambda>(content, owners, present).
     length owners = length content \<and> attributed pool path os (zip content owners))"

lemma zip_replicate_tag: "zip bs (replicate (length bs) k) = map (\<lambda>x. (x, k)) bs"
  by (induction bs) simp_all

lemma map_fst_zip_eq: "length ys = length xs \<Longrightarrow> map fst (zip xs ys) = xs"
  by simp

lemma tagged_op:
  assumes "tagged pool path os st" "blame_op pool idx op st = Ok st'" "op_path op = path"
  shows "tagged pool path (os @ [(idx, op)]) st'"
proof -
  obtain content owners ex where st: "st = (content, owners, ex)" by (cases st)
  have l: "length owners = length content" and a: "attributed pool path os (zip content owners)"
    using assms(1) st by (simp_all add: tagged_def)
  show ?thesis
  proof (cases op)
    case (Edit p old new)
    with assms(2) st obtain at where at: "unique_offset content old = Some at"
      "st' = (take at content @ new @ drop (at + length old) content,
              take at owners @ replicate (length new) idx @ drop (at + length old) owners, ex)"
      by (auto split: option.splits)
    then have f: "find_unique content old = Ok at" by (auto simp: unique_offset_find_unique split: sum.splits)
    then have pos: "positions content old = {at}" "at + length old \<le> length content"
      by (auto simp: find_unique_Ok positions_def)
    let ?pre = "take at (zip content owners)" and ?mid = "take (length old) (drop at (zip content owners))"
      and ?post = "drop (at + length old) (zip content owners)"
    have z: "zip content owners = ?pre @ ?mid @ ?post"
      by (metis append_take_drop_id drop_drop add.commute)
    have "occurs_at content old at" using pos(1) by (auto simp: positions_def)
    then have mid: "map fst ?mid = old"
      using l by (simp add: occurs_at_def Span.slice_def take_map [symmetric] drop_map [symmetric] drop_take)
    have "p = map fst ?pre" if "map fst (zip content owners) = p @ old @ q" for p q
    proof -
      from that l have "content = p @ old @ q" by simp
      then have "length p \<in> positions content old" by (simp add: positions_def)
      then have "length p = at" using pos(1) by simp
      with that show ?thesis by (auto simp: take_map [symmetric])
    qed
    then have "\<forall>p q. map fst (?pre @ ?mid @ ?post) = p @ old @ q \<longrightarrow> p = map fst ?pre"
      unfolding z [symmetric] by blast
    moreover have "attributed pool path os (?pre @ ?mid @ ?post)" unfolding z [symmetric] by (rule a)
    ultimately have "attributed pool path (os @ [(idx, Edit path old new)]) (?pre @ map (\<lambda>x. (x, idx)) new @ ?post)"
      using mid by (intro at_edit)
    moreover have "zip (fst st') (fst (snd st')) = ?pre @ map (\<lambda>x. (x, idx)) new @ ?post"
      using l pos(2) at(2) by (simp add: take_zip drop_zip zip_replicate_tag)
    ultimately show ?thesis using Edit assms(3) at(2) l pos(2) by (simp add: tagged_def)
  next
    case (Create p mode b c)
    with assms(2) obtain bs where bs: "created_bytes pool b c = Ok bs" "st' = (bs, replicate (length bs) idx, True)" by auto
    then show ?thesis using Create assms(3) a at_create_blob [OF a] at_create_inline [OF a]
      by (auto simp: tagged_def created_bytes_def zip_replicate_tag split: option.splits)
  next
    case (Delete p b)
    with assms(2,3) at_delete [OF a] show ?thesis by (auto simp: tagged_def)
  next
    case (Chmod p m m')
    with assms(2,3) at_chmod [OF a] st l show ?thesis by (auto simp: tagged_def)
  qed
qed

lemma tagged_line:
  assumes "blame_line pool path (k, l) st = Ok st'" "tagged pool path os st"
  shows "tagged pool path (os @ map (Pair k) (ops (ll_intent l))) st'"
proof -
  have "tagged pool path (os @ map (Pair k) ps) st'"
    if "rfold (\<lambda>op st. if op_path op \<noteq> path then Ok st else blame_op pool k op st) ps st = Ok st'" "tagged pool path os st"
    for ps os st
    using that
  proof (induction ps arbitrary: os st)
    case (Cons op ps)
    then obtain s1 where s1: "(if op_path op \<noteq> path then Ok st else blame_op pool k op st) = Ok s1"
      "rfold (\<lambda>op st. if op_path op \<noteq> path then Ok st else blame_op pool k op st) ps s1 = Ok st'" by auto
    have "tagged pool path (os @ [(k, op)]) s1"
      using s1(1) Cons.prems(2) tagged_op [OF Cons.prems(2)] at_other
      by (auto simp: tagged_def split: if_splits)
    from Cons.IH [OF s1(2) this] show ?case by simp
  qed simp
  then show ?thesis using assms by (simp add: blame_line_def)
qed

lemma tagged_lines:
  "rfold (blame_line pool path) xs st = Ok st' \<Longrightarrow> tagged pool path os st \<Longrightarrow>
     tagged pool path (os @ numbered_ops xs) st'"
proof (induction xs arbitrary: os st)
  case (Cons x xs)
  then obtain s1 where s1: "blame_line pool path x st = Ok s1" "rfold (blame_line pool path) xs s1 = Ok st'" by auto
  have "tagged pool path (os @ map (Pair (fst x)) (ops (ll_intent (snd x)))) s1"
    using tagged_line [of pool path "fst x" "snd x"] s1(1) Cons.prems(2) by simp
  from Cons.IH [OF s1(2) this] show ?case by simp
qed simp

lemma replay_tagged:
  assumes "blame_replay pool path hist = Ok st"
  shows "tagged pool path (numbered_ops (zip [0..<length hist] hist)) st"
  using tagged_lines [OF assms [unfolded blame_replay_def], of "[]"] by (simp add: tagged_def at_start)

lemma replay_owners:
  assumes "blame_replay pool path hist = Ok (content, owners, ex)" "k \<in> set owners"
  shows "k < length hist"
proof -
  from replay_tagged [OF assms(1)] have l: "length owners = length content"
    and a: "attributed pool path (numbered_ops (zip [0..<length hist] hist)) (zip content owners)"
    by (simp_all add: tagged_def)
  from l assms(2) obtain c where "(c, k) \<in> set (zip content owners)"
    by (metis in_set_impl_in_set_zip2)
  from attributed_owner [OF a this] show ?thesis
    by (auto simp: numbered_ops_def dest: set_zip_leftD)
qed

subsection \<open>The rendered lines\<close>

lemma no_lf: "list_all (\<lambda>c. \<not> is_LF c) xs \<Longrightarrow> LF \<notin> set xs"
  by (induction xs) (auto simp: is_LF_def LF_def)

lemma line_ranges_slices:
  assumes "start \<le> i" "list_all (\<lambda>c. \<not> is_LF c) (Span.slice start i content)" "i \<le> length content"
  shows "map (\<lambda>(a, b). Span.slice a b content) (line_ranges content start i) = split_inclusive LF (drop start content)
    \<and> (\<forall>(a, b) \<in> set (line_ranges content start i). a < b \<and> b \<le> length content)"
  using assms
proof (induction content start i rule: line_ranges.induct)
  case (1 content start i)
  have sl: "drop start content = Span.slice start i content @ drop i content"
  proof -
    have "drop start (xs @ ys) = drop start xs @ ys" if "start \<le> length xs" for xs ys :: bytes using that by simp
    from this [of "take i content" "drop i content"]
    have "drop start (take i content @ drop i content) = drop start (take i content) @ drop i content"
      using 1(3,5) by (simp only: length_take min_absorb2)
    then show ?thesis by (simp only: append_take_drop_id Span.slice_def)
  qed
  have nolf: "LF \<notin> set (Span.slice start i content)"
    by (rule no_lf [OF 1(4)])
  show ?case
  proof (cases "i < length content")
    case True
    then have d: "drop i content = content ! i # drop (Suc i) content" by (simp add: Cons_nth_drop_Suc)
    have sn: "Span.slice start (Suc i) content = Span.slice start i content @ [content ! i]"
      using True 1(3) by (simp add: Span.slice_def take_Suc_conv_app_nth)
    show ?thesis
    proof (cases "is_LF (content ! i)")
      case lf: True
      then have c: "content ! i = LF" by (simp add: is_LF_def LF_def)
      have "split_inclusive LF (drop start content) =
        (Span.slice start i content @ [LF]) # split_inclusive LF (drop (Suc i) content)"
        unfolding sl d c using nolf by (simp add: split_inclusive_piece)
      moreover have "line_ranges content start i = (start, i + 1) # line_ranges content (i + 1) (i + 1)"
        using True lf by (subst line_ranges.simps) simp
      moreover have "Span.slice (i + 1) (i + 1) content = []" by (simp add: Span.slice_def)
      ultimately show ?thesis using 1(1) [OF True lf] True 1(3) sn c by simp
    next
      case False
      have "line_ranges content start i = line_ranges content start (i + 1)"
        using True False by (subst line_ranges.simps) simp
      with 1(2) [OF True False] 1(3,4) True False sn show ?thesis by simp
    qed
  next
    case False
    with 1(5) have i: "i = length content" by simp
    then have "drop start content = Span.slice start i content" using sl by simp
    moreover have "line_ranges content start i = (if start < length content then [(start, length content)] else [])"
      using False by (subst line_ranges.simps) simp
    ultimately show ?thesis using nolf i
      by (auto simp: split_inclusive_none Span.slice_def)
  qed
qed

definition without_lf :: "bytes \<Rightarrow> bytes" where
  "without_lf l = (if l \<noteq> [] \<and> is_LF (last l) then butlast l else l)"

lemma emitted_text:
  assumes "a < b" "b \<le> length content"
  shows "bl_text (emit_blamed content owners hist (a, b)) = from_utf8_lossy (without_lf (Span.slice a b content))"
proof -
  have "Span.slice a b content \<noteq> []" "last (Span.slice a b content) = content ! (b - 1)"
    "butlast (Span.slice a b content) = Span.slice a (b - 1) content"
    using assms by (auto simp: Span.slice_def last_conv_nth butlast_take butlast_drop)
  then show ?thesis by (simp add: emit_blamed_def Let_def without_lf_def)
qed

text \<open>The tagged bytes fall into the lines of the file.\<close>

definition tagged_lines_of :: "bytes \<Rightarrow> (char \<times> nat) list \<Rightarrow> (char \<times> nat) list list" where
  "tagged_lines_of content t = map (\<lambda>(a, b). Span.slice a b t) (line_ranges content 0 0)"

lemma line_ranges_partition:
  assumes "length t = length content" "start \<le> i" "i \<le> length content"
  shows "concat (map (\<lambda>(a, b). Span.slice a b t) (line_ranges content start i)) = drop start t"
  using assms
proof (induction content start i rule: line_ranges.induct)
  case (1 content start i)
  show ?case
  proof (cases "i < length content")
    case True
    show ?thesis
    proof (cases "is_LF (content ! i)")
      case lf: True
      have "Span.slice start (i + 1) t @ drop (i + 1) t = drop start t"
        using 1(3-5) True by (simp add: Span.slice_def) (metis append_take_drop_id drop_append length_take min_absorb2 Suc_leI diff_is_0_eq' drop0 le_SucI)
      with 1(1) [OF True lf] 1(3-5) True lf show ?thesis by (subst line_ranges.simps) simp
    next
      case False
      with 1(2) [OF True False] 1(3-5) True show ?thesis by (subst line_ranges.simps) simp
    qed
  qed (use 1(3-5) in \<open>subst line_ranges.simps, auto simp: Span.slice_def\<close>)
qed

lemma tagged_lines_concat: "length t = length content \<Longrightarrow> concat (tagged_lines_of content t) = t"
  using line_ranges_partition [of t content 0 0] by (simp add: tagged_lines_of_def)

lemma tagged_lines_bytes:
  assumes "length owners = length content"
  shows "map (map fst) (tagged_lines_of content (zip content owners)) = split_inclusive LF content"
proof -
  have "map fst (Span.slice a b (zip content owners)) = Span.slice a b content" for a b
    using assms by (simp add: Span.slice_def drop_map [symmetric] take_map [symmetric])
  then have "map (map fst) (tagged_lines_of content (zip content owners)) =
      map (\<lambda>(a, b). Span.slice a b content) (line_ranges content 0 0)"
    by (simp add: tagged_lines_of_def comp_def case_prod_unfold)
  then show ?thesis using line_ranges_slices [of 0 0 content] by (simp add: Span.slice_def)
qed

text \<open>A line is rendered from its own tagged bytes: the newest tag among them, and the text.\<close>

definition rendered_line :: "log_line list \<Rightarrow> (char \<times> nat) list \<Rightarrow> blamed_line" where
  "rendered_line hist l = \<lparr>bl_owner = ll_id (hist ! Max (snd ` set l)), bl_text = from_utf8_lossy (without_lf (map fst l))\<rparr>"

lemma roll_up_rendered:
  assumes "length owners = length content"
  shows "roll_up_lines content owners hist = map (rendered_line hist) (tagged_lines_of content (zip content owners))"
proof -
  have "emit_blamed content owners hist (a, b) = rendered_line hist (Span.slice a b (zip content owners))"
    if "(a, b) \<in> set (line_ranges content 0 0)" for a b
  proof -
    have ab: "a < b" "b \<le> length content"
      using that line_ranges_slices [of 0 0 content] by (auto simp: Span.slice_def)
    have m: "map fst (Span.slice a b (zip content owners)) = Span.slice a b content"
      "map snd (Span.slice a b (zip content owners)) = Span.slice a b owners"
      using assms by (simp_all add: Span.slice_def drop_map [symmetric] take_map [symmetric])
    moreover have "Span.slice a b owners \<noteq> []" using ab assms by (simp add: Span.slice_def)
    ultimately show ?thesis using emitted_text [OF ab, of owners hist]
      by (simp add: rendered_line_def emit_blamed_def Let_def flip: list.set_map)
  qed
  then show ?thesis by (auto simp: roll_up_lines_def tagged_lines_of_def)
qed

subsection \<open>What is not attributed\<close>

text \<open>
  A line without operations in its intent, as a repoint appends, changes the state
  and not the blame.
\<close>

lemma blame_skips_state_moves:
  "ops (ll_intent l) = [] \<Longrightarrow> blame_replay pool path (hist @ [l]) = blame_replay pool path hist"
  by (cases "blame_replay pool path hist") (simp_all add: blame_replay_def rfold_append blame_line_def)

end
