(* ===== verification/Walks.thy ===== *)
theory Walks
  imports Pushes Revision Blame
begin

text \<open>
  Samples for planning, revisions and blame: a manifest with a large segment between two
  small ones, and the repository with one line walked, ranged and blamed.
\<close>

subsection \<open>A manifest to compact\<close>

definition meta2 :: "nat \<Rightarrow> segment_meta" where
  "meta2 n = \<lparr>me_pk_sha3 = [], me_idx_sha3 = [], me_bytes = n, me_entries = 0, me_image_setsum = z64, me_log_span = None\<rparr>"

definition main2 :: fork_head where
  "main2 = main_head\<lparr>fh_log_segments := [''s'', ''b'', ''t'']\<rparr>"

definition base2 :: serve_manifest where
  "base2 = empty_base\<lparr>sm_forks := [(''main'', main2)],
     sm_segments := [(''b'', meta2 (2 ^ 30)), (''s'', meta2 1), (''t'', meta2 1)]\<rparr>"

lemma ends_s_b_t: "ends_list C [''s'', ''b'', ''t''] \<longleftrightarrow>
   (''s'' \<in> C \<longrightarrow> ''b'' \<in> C) \<and> (''b'' \<in> C \<longrightarrow> ''t'' \<in> C)"
proof -
  have "ends_list C (x # xs) \<longleftrightarrow> (if x \<in> C then set xs \<subseteq> C else ends_list C xs)" for x xs
  proof
    assume "ends_list C (x # xs)"
    then obtain pre suf where "x # xs = pre @ suf" "set pre \<inter> C = {}" "set suf \<subseteq> C" by (auto simp: ends_list_def)
    then show "if x \<in> C then set xs \<subseteq> C else ends_list C xs"
      by (cases pre) (auto simp: ends_list_def)
  next
    assume a: "if x \<in> C then set xs \<subseteq> C else ends_list C xs"
    show "ends_list C (x # xs)"
    proof (cases "x \<in> C")
      case True
      with a show ?thesis unfolding ends_list_def by (intro exI [of _ "[]"] exI [of _ "x # xs"]) simp
    next
      case False
      with a obtain pre suf where "xs = pre @ suf" "set pre \<inter> C = {}" "set suf \<subseteq> C" by (auto simp: ends_list_def)
      with False show ?thesis unfolding ends_list_def by (intro exI [of _ "x # pre"] exI [of _ suf]) simp
    qed
  qed
  moreover have "ends_list C []" by (simp add: ends_list_def)
  ultimately show ?thesis by auto
qed

subsection \<open>Revisions\<close>

lemma g3_whole: "whole_lineage E3 g3 ''main''"
  by (simp add: whole_lineage_def g3_segments g3_unsnapshotted rooted_def g3_fork zero_hex_def)

lemma g3_history: "continuity_log E3 g3 ''main'' = Ok [(''main'', l3)]"
  by (simp add: continuity_log_def g3_segments)

lemma g3_range: "\<exists>b. log_range E3 g3 (Some ''HEAD~1..HEAD'') ''main'' = Ok b \<and> lb_fork b = ''main'' \<and>
  lb_start b = 0 \<and> lb_end b = 1"
proof -
  obtain points where p: "lineage_states E3 g3 ''main'' = Ok points" "length points = 2"
    "sp_line (points ! 1) = Some z64" "sp_line (points ! 0) = None"
    using setsum.lineage_states_reached [OF setsum.intro [OF sum_laws_E3] g3_history g3_whole]
    by (force simp: l3_def)
  have "range_sides (Some ''HEAD~1..HEAD'') = Ok (Some ''HEAD~1'', ''HEAD'')" by code_simp
  moreover have "resolve E3 g3 ''HEAD'' ''main'' = Ok \<lparr>rs_fork = ''main'', rs_sum = sp_sum (points ! 1), rs_line = Some z64\<rparr>"
  proof -
    have "split_suffixes ''HEAD'' = (''HEAD'', [])" by code_simp
    moreover have "resolve_base E3 g3 ''HEAD'' ''main'' = Ok (''main'', 1, points)"
      using p by (simp add: resolve_base_def strip_prefix_def starts_with_def head_point_def)
    ultimately show ?thesis using p by (simp add: resolve_def apply_suffixes_def)
  qed
  moreover have "resolve E3 g3 ''HEAD~1'' ''main'' = Ok \<lparr>rs_fork = ''main'', rs_sum = sp_sum (points ! 0), rs_line = None\<rparr>"
  proof -
    have "''HEAD~'' @ show_nat 1 = ''HEAD~1''" by code_simp
    with resolve_head_tilde [OF p(1), of 1] p show ?thesis by simp
  qed
  moreover have "line_point_at points z64 \<noteq> None"
  proof -
    have "points ! 1 \<in> set points" using p(2) by simp
    with p(3) show ?thesis unfolding line_point_at_def rposition_None_iff by blast
  qed
  then obtain k where k: "line_point_at points z64 = Some k" by auto
  moreover from at_bounds(2) [OF k] p have "k = 1" by (cases "k = 0") auto
  ultimately have "log_range E3 g3 (Some ''HEAD~1..HEAD'') ''main'' =
      Ok \<lparr>lb_fork = ''main'', lb_start = 0, lb_end = 1\<rparr>"
    using p by (simp add: log_range_def or_head_def state_position_def)
  then show ?thesis by (intro exI conjI) (assumption, simp_all)
qed

subsection \<open>Blame\<close>

lemma i3_applies_in: "apply_intent E3 i3 m_new pool = Ok ([(''/a'', r3)], rz3)"
proof -
  have "decode ''eA=='' = Ok ''x''" by code_simp
  then show ?thesis
    by (simp add: m_new_def i3_def apply_intent_def empty_realization_def m_get_def create_content_def
        er_new_def m_insert_def bt_has_def realize_def rz3_def l3_def r3_def)
qed

lemma g3_authored: "authored E3 (rp_pool g3) m_new [l3] [(''/a'', r3)]"
proof -
  have "pooled (rp_pool g3) (new_blobs rz3)" by (auto simp: pooled_def rz3_def g3_forks blob_get_Ok)
  moreover have "ll_intent l3 = i3" by (simp add: l3_def)
  moreover have "apply_intent E3 (ll_intent l3) m_new (rp_pool g3) = Ok ([(''/a'', r3)], rz3)"
    using calculation(2) i3_applies_in by simp
  ultimately show ?thesis by (intro authored_line [OF _ _ authored_none]) assumption+
qed

lemma g3_blame: "blame_path ''/a'' [l3] pool = Ok [\<lparr>bl_owner = z64, bl_text = ''x''\<rparr>]"
proof -
  have "decode ''eA=='' = Ok ''x''" by code_simp
  then have "blame_replay pool ''/a'' [l3] = Ok (''x'', [0], True)"
    by (simp add: blame_replay_def blame_line_def l3_def i3_def created_bytes_def)
  moreover have "roll_up_lines ''x'' [0] [l3] = [\<lparr>bl_owner = ll_id l3, bl_text = ''x''\<rparr>]"
  proof -
    have "line_ranges ''x'' 0 0 = [(0, 1)]" "from_utf8_lossy ''x'' = ''x''" by code_simp+
    then show ?thesis by (simp add: roll_up_lines_def emit_blamed_def Span.slice_def is_LF_def Let_def)
  qed
  ultimately show ?thesis by (simp add: blame_path_def) (simp add: l3_def)
qed

end
