(* ===== verification/LineRanges.thy ===== *)
theory LineRanges
  imports LineDiff
begin

text \<open>
  Properties of the changed ranges and of the hunk windows of \<open>src/src/diff.rs\<close>
  (their definitions are in \<open>LineDiff\<close>): splicing the new ranges into the old text
  gives the new text, and the windows ascend apart and cover every change.
\<close>

subsection \<open>The changed ranges\<close>

lemma slice_append: "i \<le> j \<Longrightarrow> j \<le> k \<Longrightarrow> slice i k xs = slice i j xs @ slice j k xs"
proof -
  assume "i \<le> j" "j \<le> k"
  then have "take (k - i) (drop i xs) = take (j - i) (drop i xs) @ take (k - j) (drop (j - i) (drop i xs))"
    using take_add [of "j - i" "k - j" "drop i xs"] by simp
  with \<open>i \<le> j\<close> show ?thesis by (simp add: slice_def drop_take)
qed

lemma offsets_from_length [simp]: "length (offsets_from n ls) = length ls"
  by (induction ls arbitrary: n) auto

lemma offsets_from_nth: "k < length ls \<Longrightarrow> offsets_from n ls ! k = n + length (concat (take k ls))"
proof (induction ls arbitrary: n k)
  case (Cons l ls)
  then show ?case by (cases k) auto
qed simp

text \<open>Where line \<open>k\<close> of the text starts.\<close>

abbreviation line_at :: "string list \<Rightarrow> nat \<Rightarrow> nat" where
  "line_at ls k \<equiv> length (concat (take k ls))"

lemma offsets_nth: "k \<le> length ls \<Longrightarrow> offsets ls (length (concat ls)) ! k = line_at ls k"
  by (cases "k = length ls") (simp_all add: offsets_def nth_append offsets_from_nth)

lemma line_at_Suc: "k < length ls \<Longrightarrow> line_at ls (Suc k) = line_at ls k + length (ls ! k)"
  by (simp add: take_Suc_conv_app_nth)

lemma line_at_mono: "i \<le> j \<Longrightarrow> line_at ls i \<le> line_at ls j"
  by (metis append_take_drop_id concat_append le_add1 length_append min.absorb1 take_take)

lemma line_slice:
  assumes "k < length ls" shows "slice (line_at ls k) (line_at ls (Suc k)) (concat ls) = ls ! k"
proof -
  have "concat ls = concat (take k ls) @ ls ! k @ concat (drop (Suc k) ls)"
    by (metis append_take_drop_id assms concat.simps(2) concat_append id_take_nth_drop)
  then show ?thesis by (simp add: line_at_Suc [OF assms] slice_def)
qed

text \<open>
  Splicing: each old range must follow the one before and what lies between must
  be the same bytes in both texts; then the new range's bytes replace it.
\<close>

fun splice_from :: "bytes \<Rightarrow> bytes \<Rightarrow> (range \<times> range) list \<Rightarrow> nat \<times> nat \<times> bytes \<Rightarrow> (nat \<times> nat \<times> bytes) option" where
  "splice_from old new [] st = Some st"
| "splice_from old new (((o1, o2), (n1, n2)) # rs) (i, j, out) =
     (if i \<le> o1 \<and> o1 \<le> o2 \<and> o2 \<le> length old \<and> j \<le> n1 \<and> n1 \<le> n2 \<and> slice i o1 old = slice j n1 new
      then splice_from old new rs (o2, n2, out @ slice i o1 old @ slice n1 n2 new) else None)"

definition splice :: "bytes \<Rightarrow> bytes \<Rightarrow> (range \<times> range) list \<Rightarrow> bytes option" where
  "splice old new rs = (case splice_from old new rs (0, 0, []) of
       None \<Rightarrow> None
     | Some (i, j, out) \<Rightarrow> if drop i old = drop j new then Some (out @ drop i old) else None)"

lemma splice_from_append:
  "splice_from old new (rs @ ss) st = Option.bind (splice_from old new rs st) (splice_from old new ss)"
  by (induction rs arbitrary: st) auto

text \<open>The walk keeps: what it has pushed splices, and up to the open point the texts agree.\<close>

definition walk_point :: "range_walk \<Rightarrow> nat \<times> nat" where
  "walk_point w = (case rw_open w of None \<Rightarrow> (rw_oi w, rw_ni w) | Some p \<Rightarrow> p)"

definition walk_inv :: "string list \<Rightarrow> string list \<Rightarrow> range_walk \<Rightarrow> bool" where
  "walk_inv L M w \<longleftrightarrow> (case walk_point w of (s, t) \<Rightarrow>
     s \<le> rw_oi w \<and> rw_oi w \<le> length L \<and> t \<le> rw_ni w \<and> rw_ni w \<le> length M \<and>
     (\<exists>i j. splice_from (concat L) (concat M) (rw_ranges w) (0, 0, []) = Some (i, j, take j (concat M)) \<and>
        i \<le> line_at L s \<and> j \<le> line_at M t \<and>
        slice i (line_at L s) (concat L) = slice j (line_at M t) (concat M)))"

lemma take_slice: "j \<le> k \<Longrightarrow> take j xs @ slice j k xs = take k xs"
  using slice_append [of 0 j k xs] by (simp add: slice_def)

lemma close_range_inv:
  assumes "walk_inv L M w"
  shows "walk_inv L M (close_range (offsets L (length (concat L))) (offsets M (length (concat M))) w) \<and>
    rw_open (close_range (offsets L (length (concat L))) (offsets M (length (concat M))) w) = None"
proof (cases "rw_open w")
  case (Some p)
  obtain s t where p: "p = (s, t)" by force
  with assms Some obtain i j where
    b: "s \<le> rw_oi w" "rw_oi w \<le> length L" "t \<le> rw_ni w" "rw_ni w \<le> length M" and
    r: "splice_from (concat L) (concat M) (rw_ranges w) (0, 0, []) = Some (i, j, take j (concat M))"
      "i \<le> line_at L s" "j \<le> line_at M t" "slice i (line_at L s) (concat L) = slice j (line_at M t) (concat M)"
    by (auto simp: walk_inv_def walk_point_def)
  have m: "line_at L s \<le> line_at L (rw_oi w)" "line_at M t \<le> line_at M (rw_ni w)"
    "line_at L (rw_oi w) \<le> length (concat L)"
    using b line_at_mono [of _ _ L] line_at_mono [of _ _ M] line_at_mono [of "rw_oi w" "length L" L] by auto
  have "take j (concat M) @ slice j (line_at M t) (concat M) @
      slice (line_at M t) (line_at M (rw_ni w)) (concat M) = take (line_at M (rw_ni w)) (concat M)"
    using m r(3) by (simp add: take_slice slice_append [symmetric])
  with b r m show ?thesis
    by (simp add: Some p close_range_def walk_inv_def walk_point_def offsets_nth splice_from_append)
      (simp add: slice_def)
qed (use assms in \<open>simp add: close_range_def\<close>)

lemma walk_inv_open: "walk_inv L M w \<Longrightarrow> walk_inv L M (open_range w)"
  by (auto simp: walk_inv_def open_range_def walk_point_def split: option.splits)

lemma walk_inv_bump:
  assumes "walk_inv L M w" "rw_open w \<noteq> None"
  shows "rw_oi w < length L \<Longrightarrow> walk_inv L M (w\<lparr>rw_oi := Suc (rw_oi w)\<rparr>)"
    and "rw_ni w < length M \<Longrightarrow> walk_inv L M (w\<lparr>rw_ni := Suc (rw_ni w)\<rparr>)"
  using assms by (auto simp: walk_inv_def walk_point_def)

lemma walk_inv_same:
  assumes "walk_inv L M w" "rw_open w = None" "rw_oi w < length L" "rw_ni w < length M"
    "L ! rw_oi w = M ! rw_ni w"
  shows "walk_inv L M (w\<lparr>rw_oi := rw_oi w + 1, rw_ni := rw_ni w + 1\<rparr>)"
proof -
  from assms(1,2) obtain i j where
    r: "splice_from (concat L) (concat M) (rw_ranges w) (0, 0, []) = Some (i, j, take j (concat M))"
      "i \<le> line_at L (rw_oi w)" "j \<le> line_at M (rw_ni w)"
      "slice i (line_at L (rw_oi w)) (concat L) = slice j (line_at M (rw_ni w)) (concat M)"
    by (auto simp: walk_inv_def walk_point_def)
  have "slice i (line_at L (Suc (rw_oi w))) (concat L) = slice j (line_at M (Suc (rw_ni w))) (concat M)"
    using r assms(3-5) line_slice [OF assms(3)] line_slice [OF assms(4)]
      slice_append [OF r(2) line_at_mono, of "Suc (rw_oi w)" "concat L"]
      slice_append [OF r(3) line_at_mono, of "Suc (rw_ni w)" "concat M"] by simp
  with r assms(2-4) line_at_mono [of "rw_oi w" "Suc (rw_oi w)" L] line_at_mono [of "rw_ni w" "Suc (rw_ni w)" M]
  show ?thesis by (auto simp: walk_inv_def walk_point_def simp del: take_Suc intro: order_trans)
qed

lemma open_range_fields [simp]:
  "rw_oi (open_range w) = rw_oi w" "rw_ni (open_range w) = rw_ni w" "rw_open (open_range w) \<noteq> None"
  by (auto simp: open_range_def split: option.splits)

lemma close_range_fields [simp]:
  "rw_oi (close_range x y w) = rw_oi w" "rw_ni (close_range x y w) = rw_ni w"
  by (auto simp: close_range_def split: option.splits)

lemma range_walk_inv:
  assumes "script L M i j es" "walk_inv L M w" "rw_oi w = i" "rw_ni w = j"
    "oo = offsets L (length (concat L))" "no = offsets M (length (concat M))"
  shows "walk_inv L M (fold (range_step oo no) es w) \<and>
    rw_oi (fold (range_step oo no) es w) = length L \<and> rw_ni (fold (range_step oo no) es w) = length M"
  using assms
proof (induction arbitrary: w rule: script.induct)
  case (same i j es)
  let ?w = "close_range oo no w"
  have "walk_inv L M (?w\<lparr>rw_oi := rw_oi ?w + 1, rw_ni := rw_ni ?w + 1\<rparr>)"
    using same close_range_inv [OF same.prems(1)] by (intro walk_inv_same) simp_all
  with same show ?case by (simp add: Let_def)
next
  case (drops i j es)
  have "walk_inv L M ((open_range w)\<lparr>rw_oi := Suc (rw_oi (open_range w))\<rparr>)"
    using drops by (intro walk_inv_bump walk_inv_open) simp_all
  with drops show ?case by (simp add: Let_def)
next
  case (adds j i es)
  have "walk_inv L M ((open_range w)\<lparr>rw_ni := Suc (rw_ni (open_range w))\<rparr>)"
    using adds by (intro walk_inv_bump walk_inv_open) simp_all
  with adds show ?case by (simp add: Let_def)
qed simp

lemma changed_ranges_splice:
  assumes "changed_ranges old new = Some rs" shows "splice old new rs = Some new"
proof -
  let ?L = "split_keep_lines old" and ?M = "split_keep_lines new"
  let ?oo = "offsets ?L (length old)" and ?no = "offsets ?M (length new)"
  let ?w = "fold (range_step ?oo ?no) (lcs_edits ?L ?M) range_start"
  have rs: "rs = rw_ranges (close_range ?oo ?no ?w)"
    using assms by (auto simp: changed_ranges_def Let_def split: if_splits)
  have start: "walk_inv ?L ?M range_start"
    by (simp add: walk_inv_def walk_point_def range_start_def slice_def)
  note w = range_walk_inv [OF lcs_edits_script start, of "?oo" "?no"]
  then have "walk_inv ?L ?M ?w" "rw_oi ?w = length ?L" "rw_ni ?w = length ?M"
    by (simp_all add: range_start_def)
  with close_range_inv [OF this(1)] obtain i j where
    "splice_from old new rs (0, 0, []) = Some (i, j, take j new)" "i \<le> length old" "j \<le> length new"
    "slice i (length old) old = slice j (length new) new"
    unfolding rs by (auto simp: walk_inv_def walk_point_def)
  then show ?thesis by (simp add: splice_def slice_def)
qed

subsection \<open>The windows of the hunks\<close>

text \<open>A window holds the context of a change; windows are apart when a line lies between.\<close>

definition in_window :: "nat \<Rightarrow> nat \<Rightarrow> nat \<Rightarrow> range \<Rightarrow> bool" where
  "in_window n context c r \<longleftrightarrow> fst r \<le> c - context \<and> min (c + context) (n - 1) \<le> snd r"

definition windows_ok :: "nat \<Rightarrow> range list \<Rightarrow> bool" where
  "windows_ok n rs \<longleftrightarrow> sorted_wrt (\<lambda>r s. snd r + 1 < fst s) rs \<and> (\<forall>r \<in> set rs. fst r \<le> snd r \<and> snd r < n)"

lemma merge_range_last:
  assumes "windows_ok n rs" "c < n" "rs \<noteq> [] \<Longrightarrow> fst (last rs) \<le> c - context"
  shows "windows_ok n (merge_range n context c rs) \<and>
    fst (last (merge_range n context c rs)) \<le> c - context \<and> merge_range n context c rs \<noteq> [] \<and>
    in_window n context c (last (merge_range n context c rs)) \<and>
    (\<forall>d. (\<exists>r \<in> set rs. in_window n context d r) \<longrightarrow>
       (\<exists>r \<in> set (merge_range n context c rs). in_window n context d r))"
proof (cases "rs \<noteq> [] \<and> c - context \<le> snd (last rs) + 1")
  case True
  then obtain ys y where rs: "rs = ys @ [y]" by (cases rs rule: rev_cases) auto
  with True assms show ?thesis
    by (auto simp: merge_range_def Let_def windows_ok_def in_window_def sorted_wrt_append)
next
  case False
  have "snd r + 1 < c - context" if r: "r \<in> set rs" for r
  proof (cases rs rule: rev_cases)
    case (snoc ys y)
    with False r assms(1) show ?thesis
      by (auto simp: windows_ok_def sorted_wrt_append dest!: bspec)
  qed (use r in simp)
  with False assms show ?thesis
    by (auto simp: merge_range_def Let_def windows_ok_def in_window_def sorted_wrt_append)
qed

lemma merge_ranges_cover:
  assumes "sorted cs" "\<forall>c \<in> set cs. c < n"
  shows "windows_ok n (fold (merge_range n context) cs []) \<and>
    (\<forall>c \<in> set cs. \<exists>r \<in> set (fold (merge_range n context) cs []). in_window n context c r) \<and>
    (fold (merge_range n context) cs [] \<noteq> [] \<longrightarrow>
       cs \<noteq> [] \<and> fst (last (fold (merge_range n context) cs [])) \<le> last cs - context)"
  using assms
proof (induction cs rule: rev_induct)
  case (snoc c cs)
  let ?rs = "fold (merge_range n context) cs []"
  have ih: "windows_ok n ?rs" "\<forall>c \<in> set cs. \<exists>r \<in> set ?rs. in_window n context c r"
    "?rs \<noteq> [] \<longrightarrow> cs \<noteq> [] \<and> fst (last ?rs) \<le> last cs - context"
    using snoc by (auto simp: sorted_append)
  have "fst (last ?rs) \<le> c - context" if "?rs \<noteq> []"
  proof -
    from ih(3) that have "cs \<noteq> []" "fst (last ?rs) \<le> last cs - context" by auto
    moreover from this(1) snoc.prems(1) have "last cs \<le> c" by (simp add: sorted_append)
    ultimately show ?thesis by simp
  qed
  from merge_range_last [OF ih(1) _ this] snoc.prems(2) ih(2) show ?case
    by (auto simp: last_in_set)
qed (simp add: windows_ok_def)

lemma hunk_ranges_cover:
  "windows_ok (length es) (hunk_ranges es context) \<and>
   (\<forall>c < length es. \<not> is_equal (es ! c) \<longrightarrow>
      (\<exists>r \<in> set (hunk_ranges es context). in_window (length es) context c r))"
proof -
  have "sorted (changed_indices es)" "\<forall>c \<in> set (changed_indices es). c < length es"
    by (simp_all add: changed_indices_def sorted_wrt_filter strict_sorted_imp_sorted)
  from merge_ranges_cover [OF this, of "context"] show ?thesis
    by (simp add: hunk_ranges_def) (simp add: changed_indices_def)
qed

text \<open>A hunk lists the script of its window, and its lengths are what it shows of each side.\<close>

fun to_hunk_edit :: "edit \<Rightarrow> hunk_edit" where
  "to_hunk_edit (Equal oi ni) = HEqual oi"
| "to_hunk_edit (Delete_line oi) = HDelete oi"
| "to_hunk_edit (Insert_line ni) = HInsert ni"

fun on_old :: "hunk_edit \<Rightarrow> bool" where "on_old (HInsert _) = False" | "on_old _ = True"
fun on_new :: "hunk_edit \<Rightarrow> bool" where "on_new (HDelete _) = False" | "on_new _ = True"

lemma hunk_fold:
  "bh_edits (fold hunk_step es h) = bh_edits h @ map to_hunk_edit es \<and>
   bh_old_len (fold hunk_step es h) = bh_old_len h + length (filter on_old (map to_hunk_edit es)) \<and>
   bh_new_len (fold hunk_step es h) = bh_new_len h + length (filter on_new (map to_hunk_edit es))"
proof (induction es arbitrary: h)
  case (Cons e es)
  then show ?case by (cases e) auto
qed simp

lemma hunk_of_lists:
  "hk_edits (hunk_of es r) = map to_hunk_edit (slice (fst r) (snd r + 1) es) \<and>
   hk_old_len (hunk_of es r) = length (filter on_old (hk_edits (hunk_of es r))) \<and>
   hk_new_len (hunk_of es r) = length (filter on_new (hk_edits (hunk_of es r)))"
  by (simp add: hunk_of_def Let_def hunk_fold)

end
