(* ===== verification/Views.thy ===== *)
theory Views
  imports Log "HOL-Library.Product_Lexorder"
begin

text \<open>
  \<open>src/src/views.rs\<close>: the rendering of a log at the fused zoom level.  The main
  result says what is rendered: every selected fuse whose span resolves gives one
  beat, in the order of the spans' starts, and the lines under no beat, the fuse
  lines of the beats apart, are rendered singly, each once and in the log's order.
\<close>

datatype beat =
    Fused log_line "log_line list"
  | Single log_line

text \<open>\<open>None\<close> selects every fuse.\<close>

definition view_selects :: "string list option \<Rightarrow> string \<Rightarrow> bool" where
  "view_selects view name \<longleftrightarrow> (case view of None \<Rightarrow> True | Some names \<Rightarrow> name \<in> set names)"

definition index_of :: "log_line list \<Rightarrow> string \<Rightarrow> nat option" where
  "index_of ls i = position (\<lambda>l. ll_id l = i) ls"

text \<open>The span of the fuse a line names, if it is selected and resolves in order.\<close>

definition beat_span :: "log_line list \<Rightarrow> string list option \<Rightarrow> nat \<Rightarrow> (nat \<times> nat \<times> nat) option" where
  "beat_span ls view idx = (case an_fuse (ll_annotation (ls ! idx)) of
       None \<Rightarrow> None
     | Some f \<Rightarrow>
         if \<not> view_selects view (fuse_name f) then None else
         (case (index_of ls (fuse_from f), index_of ls (fuse_to f)) of
            (Some a, Some b) \<Rightarrow> if a > b then None else Some (a, b, idx)
          | _ \<Rightarrow> None))"

definition fuse_spans :: "log_line list \<Rightarrow> string list option \<Rightarrow> (nat \<times> nat \<times> nat) list" where
  "fuse_spans ls view =
     sort_key (\<lambda>(a, b, idx). (a, idx)) (List.map_filter (beat_span ls view) [0..<length ls])"

text \<open>The lines from \<open>i\<close> up to \<open>a\<close> that are not the fuse of a beat, singly.\<close>

definition singles :: "log_line list \<Rightarrow> nat list \<Rightarrow> nat \<Rightarrow> nat \<Rightarrow> beat list" where
  "singles ls beat_lines i a = map (\<lambda>j. Single (ls ! j)) (filter (\<lambda>j. j \<notin> set beat_lines) [i..<a])"

fun beat_loop :: "log_line list \<Rightarrow> nat list \<Rightarrow> (nat \<times> nat \<times> nat) list \<Rightarrow> nat \<Rightarrow> beat list" where
  "beat_loop ls beat_lines [] i = singles ls beat_lines i (length ls)"
| "beat_loop ls beat_lines ((a, b, idx) # spans) i =
     singles ls beat_lines i a @ Fused (ls ! idx) (drop a (take (Suc b) ls)) #
     beat_loop ls beat_lines spans (max i (Suc b))"

definition fused_beats :: "log_line list \<Rightarrow> string list option \<Rightarrow> beat list" where
  "fused_beats ls view =
     (let spans = fuse_spans ls view in beat_loop ls (map (\<lambda>(a, b, idx). idx) spans) spans 0)"

subsection \<open>What is rendered\<close>

text \<open>The reading of a view, without its loop: a fuse resolves to the first lines of the log that
  bear the ids it names.  What is rendered is a list of events, a beat over a span
  or a single line, each at its place in the log.\<close>

definition first_at :: "log_line list \<Rightarrow> string \<Rightarrow> nat \<Rightarrow> bool" where
  "first_at ls i a \<longleftrightarrow> a < length ls \<and> ll_id (ls ! a) = i \<and> (\<forall>j < a. ll_id (ls ! j) \<noteq> i)"

definition resolved_fuse :: "log_line list \<Rightarrow> string list option \<Rightarrow> nat \<Rightarrow> nat \<Rightarrow> nat \<Rightarrow> bool" where
  "resolved_fuse ls view a b idx \<longleftrightarrow> idx < length ls \<and> a \<le> b \<and>
     (\<exists>f. an_fuse (ll_annotation (ls ! idx)) = Some f \<and> (\<forall>names. view = Some names \<longrightarrow> fuse_name f \<in> set names) \<and>
        first_at ls (fuse_from f) a \<and> first_at ls (fuse_to f) b)"

datatype event = BeatOver nat nat nat | LineAt nat

fun rendered :: "log_line list \<Rightarrow> event \<Rightarrow> beat" where
  "rendered ls (BeatOver a b idx) = Fused (ls ! idx) (map (nth ls) [a..<Suc b])"
| "rendered ls (LineAt j) = Single (ls ! j)"

fun place :: "event \<Rightarrow> nat \<times> nat" where
  "place (BeatOver a b idx) = (a, idx)"
| "place (LineAt j) = (j, 0)"

definition covered :: "(nat \<times> nat \<times> nat) list \<Rightarrow> nat \<Rightarrow> bool" where
  "covered spans j \<longleftrightarrow> (\<exists>(a, b, idx) \<in> set spans. a \<le> j \<and> j \<le> b)"

lemma drop_take_nth: "b < length ls \<Longrightarrow> drop a (take (Suc b) ls) = map (nth ls) [a..<Suc b]"
  by (intro nth_equalityI) (auto simp del: upt_Suc)

lemma beat_loop_events:
  assumes "sorted_wrt (\<lambda>(a, _, idx) (a', _, idx'). (a, idx) < (a', idx')) spans"
    "\<forall>(a, b, idx) \<in> set spans. a \<le> b \<and> b < length ls" "i \<le> length ls"
  shows "\<exists>evs. beat_loop ls bl spans i = map (rendered ls) evs \<and> sorted_wrt (<) (map place evs) \<and>
    set evs = (\<lambda>(a, b, idx). BeatOver a b idx) ` set spans \<union> LineAt ` {j. i \<le> j \<and> j < length ls \<and> j \<notin> set bl \<and> \<not> covered spans j}"
  using assms
proof (induction spans arbitrary: i)
  case Nil
  have "sorted_wrt (<) (map place (map LineAt (filter (\<lambda>j. j \<notin> set bl) [i..<length ls])))"
    by (simp add: sorted_wrt_map sorted_wrt_filter sorted_wrt_upt comp_def sorted_wrt_mono_rel [OF _ sorted_wrt_upt])
  then show ?case
    by (intro exI [of _ "map LineAt (filter (\<lambda>j. j \<notin> set bl) [i..<length ls])"]) (auto simp: singles_def covered_def)
next
  case (Cons p spans)
  obtain a b idx where p: "p = (a, b, idx)" by (cases p)
  have ab: "a \<le> b" "b < length ls" using Cons.prems(2) p by auto
  have later: "(a, idx) < (a', idx')" if "(a', b', idx') \<in> set spans" for a' b' idx' using Cons.prems(1) that p by auto
  have "\<exists>evs. beat_loop ls bl spans (max i (Suc b)) = map (rendered ls) evs \<and> sorted_wrt (<) (map place evs) \<and>
    set evs = (\<lambda>(a, b, idx). BeatOver a b idx) ` set spans \<union> LineAt ` {j. max i (Suc b) \<le> j \<and> j < length ls \<and> j \<notin> set bl \<and> \<not> covered spans j}"
    using Cons.prems ab by (intro Cons.IH) auto
  then obtain evs where e: "beat_loop ls bl spans (max i (Suc b)) = map (rendered ls) evs" "sorted_wrt (<) (map place evs)"
    "set evs = (\<lambda>(a, b, idx). BeatOver a b idx) ` set spans \<union> LineAt ` {j. max i (Suc b) \<le> j \<and> j < length ls \<and> j \<notin> set bl \<and> \<not> covered spans j}" by blast
  let ?pre = "map LineAt (filter (\<lambda>j. j \<notin> set bl) [i..<a])"
  have after: "(a, idx) < place x" if "x \<in> set evs" for x using that later ab(1) unfolding e(3) by fastforce
  have pre: "sorted_wrt (<) (map place ?pre)" "\<forall>x \<in> set ?pre. place x < (a, idx)"
    by (auto simp: sorted_wrt_map sorted_wrt_filter comp_def sorted_wrt_mono_rel [OF _ sorted_wrt_upt])
  have "place x < place y" if "x \<in> set ?pre" "y \<in> set evs" for x y
    using that pre(2) after less_trans by metis
  then have "sorted_wrt (<) (map place (?pre @ BeatOver a b idx # evs))"
    using e(2) pre after unfolding sorted_wrt_map by (simp add: sorted_wrt_append sorted_wrt_map)
  moreover have "set (?pre @ BeatOver a b idx # evs) = (\<lambda>(a, b, idx). BeatOver a b idx) ` set (p # spans) \<union>
      LineAt ` {j. i \<le> j \<and> j < length ls \<and> j \<notin> set bl \<and> \<not> covered (p # spans) j}"
  proof -
    have before: "\<not> covered spans j" if "j < a" for j
    proof
      assume "covered spans j"
      then obtain a' b' idx' where "(a', b', idx') \<in> set spans" "a' \<le> j" by (auto simp: covered_def)
      with later [of a' b' idx'] that show False by (auto simp: less_prod_def)
    qed
    have cov: "covered (p # spans) j \<longleftrightarrow> a \<le> j \<and> j \<le> b \<or> covered spans j" for j by (auto simp: covered_def p)
    have "(i \<le> j \<and> j < a \<and> j \<notin> set bl) \<or> (max i (Suc b) \<le> j \<and> j < length ls \<and> j \<notin> set bl \<and> \<not> covered spans j) \<longleftrightarrow>
        i \<le> j \<and> j < length ls \<and> j \<notin> set bl \<and> \<not> covered (p # spans) j" for j
      using before [of j] ab(1,2) unfolding cov max.bounded_iff
      by (cases "covered spans j"; cases "j \<in> set bl"; simp; linarith)
    then have "{j. i \<le> j \<and> j < length ls \<and> j \<notin> set bl \<and> \<not> covered (p # spans) j} = {j. i \<le> j \<and> j < a \<and> j \<notin> set bl} \<union>
        {j. max i (Suc b) \<le> j \<and> j < length ls \<and> j \<notin> set bl \<and> \<not> covered spans j}" by blast
    then show ?thesis unfolding set_append list.set e(3) by (auto simp: p)
  qed
  moreover have "beat_loop ls bl (p # spans) i = map (rendered ls) (?pre @ BeatOver a b idx # evs)"
    using ab by (simp add: p e(1) singles_def drop_take_nth)
  ultimately show ?case by blast
qed

lemma set_map_filter: "y \<in> set (List.map_filter f xs) \<longleftrightarrow> (\<exists>x \<in> set xs. f x = Some y)"
  by (force simp: List.map_filter_def)

lemma index_of_first: "index_of ls i = Some a \<longleftrightarrow> first_at ls i a"
  by (auto simp: index_of_def first_at_def position_Some_iff)

lemma fuse_span_Some:
  "beat_span ls view i = Some (a, b, idx) \<Longrightarrow> idx = i"
  by (auto simp: beat_span_def split: option.splits if_splits)

lemma beat_span_resolved: "i < length ls \<Longrightarrow> beat_span ls view i = Some (a, b, idx) \<longleftrightarrow> idx = i \<and> resolved_fuse ls view a b idx"
  by (auto simp: beat_span_def resolved_fuse_def view_selects_def index_of_first [symmetric] split: option.splits)

lemma fuse_spans_resolved: "(a, b, idx) \<in> set (fuse_spans ls view) \<longleftrightarrow> resolved_fuse ls view a b idx"
  by (auto simp: fuse_spans_def set_map_filter beat_span_resolved resolved_fuse_def)

lemma fuse_spans_sorted: "sorted_wrt (\<lambda>(a, _, idx) (a', _, idx'). (a, idx) < (a', idx')) (fuse_spans ls view)"
proof -
  have "distinct (map (\<lambda>(a, b, idx). (a, idx)) (List.map_filter (beat_span ls view) js))" if "distinct js" for js
    using that by (induction js) (auto simp: map_filter_simps set_map_filter split: option.splits dest!: fuse_span_Some)
  from this [of "[0..<length ls]"] have "distinct (map (\<lambda>(a, b, idx). (a, idx)) (fuse_spans ls view))"
    by (simp add: fuse_spans_def distinct_map inj_on_def)
  then have "sorted_wrt (<) (map (\<lambda>(a, b, idx). (a, idx)) (fuse_spans ls view))"
    by (simp add: fuse_spans_def strict_sorted_iff)
  then show ?thesis by (simp add: sorted_wrt_map case_prod_unfold)
qed

lemma fused_beats_events:
  "\<exists>evs. fused_beats ls view = map (rendered ls) evs \<and> sorted_wrt (<) (map place evs) \<and>
     set evs = {BeatOver a b idx | a b idx. resolved_fuse ls view a b idx} \<union>
       {LineAt j | j. j < length ls \<and> \<not> (\<exists>a b idx. resolved_fuse ls view a b idx \<and> (j = idx \<or> a \<le> j \<and> j \<le> b))}"
proof -
  have "\<forall>(a, b, idx) \<in> set (fuse_spans ls view). a \<le> b \<and> b < length ls"
    by (auto simp: fuse_spans_resolved resolved_fuse_def first_at_def)
  from beat_loop_events [OF fuse_spans_sorted this, of 0 "map (\<lambda>(a, b, idx). idx) (fuse_spans ls view)"] obtain evs where
    e: "fused_beats ls view = map (rendered ls) evs" "sorted_wrt (<) (map place evs)" and
    s: "set evs = (\<lambda>(a, b, idx). BeatOver a b idx) ` set (fuse_spans ls view) \<union> LineAt ` {j. 0 \<le> j \<and> j < length ls \<and>
      j \<notin> set (map (\<lambda>(a, b, idx). idx) (fuse_spans ls view)) \<and> \<not> covered (fuse_spans ls view) j}"
    by (auto simp: fused_beats_def Let_def)
  have "set evs = {BeatOver a b idx | a b idx. resolved_fuse ls view a b idx} \<union>
       {LineAt j | j. j < length ls \<and> \<not> (\<exists>a b idx. resolved_fuse ls view a b idx \<and> (j = idx \<or> a \<le> j \<and> j \<le> b))}"
  proof -
    have "(\<lambda>(a, b, idx). BeatOver a b idx) ` set (fuse_spans ls view) = {BeatOver a b idx | a b idx. resolved_fuse ls view a b idx}"
      by (force simp: fuse_spans_resolved [symmetric])
    moreover have "j \<notin> set (map (\<lambda>(a, b, idx). idx) (fuse_spans ls view)) \<and> \<not> covered (fuse_spans ls view) j \<longleftrightarrow>
        \<not> (\<exists>a b idx. resolved_fuse ls view a b idx \<and> (j = idx \<or> a \<le> j \<and> j \<le> b))" for j
      by (force simp: covered_def fuse_spans_resolved [symmetric])
    ultimately show ?thesis unfolding s by auto
  qed
  then show ?thesis using e by blast
qed

end
