(* ===== verification/Spec2Isabelle.thy ===== *)
theory Spec2Isabelle
  imports Walks LineRanges Ignore Collect Views
begin

text \<open>
  A model of tally, a version-control substrate written in Rust (\<open>src/src/\<close>), and the
  theorems that make it correct.  The theories \<open>Prelude\<close> to \<open>Walks\<close> hold the model and its
  lemmas; this theory imports them all and states the properties, each with a witness that
  applies it to a concrete input.

  The program.  A state is a set of element records \<open>mode SP path SP blob\<close>, named by its
  setsum, a sum in a commutative group, so a change of the state is arithmetic on its name.  A
  fork is an anchor state and a log; a log line carries the intent an author wrote (span
  operations on paths), the delta it realized on the state it met, the sum after it, and the
  id of the line before.  The current state is the anchor replayed through the log.  Blobs
  live in a content-addressed pool.  Logs and pool travel to a store as immutable segments
  listed by a chain of manifests; a push extends the chain with one put-if-absent.

  How the parts interact.  \<open>repo.rs\<close> owns the files: it reads a fork's log through \<open>log.rs\<close>,
  replays it with \<open>patch.rs\<close> on a \<open>manifest.rs\<close> state and checks every sum with
  \<open>ident.rs\<close>; its write path pools blobs (\<open>blobs.rs\<close>), syncs them, then appends the sealed
  line.  \<open>union.rs\<close> lands the lines of one fork on another under one append; \<open>revision.rs\<close>,
  \<open>blame.rs\<close> and \<open>views.rs\<close> read histories; \<open>delta.rs\<close> plans a push with the segment
  format of \<open>segment.rs\<close> and the manifests of \<open>serve.rs\<close>, against the view of \<open>remote.rs\<close>,
  and \<open>wire.rs\<close> runs it.

  Theories and the code they model:
  \<^item> \<open>Prelude\<close>: \<open>lib.rs\<close> errors, the result type, \<open>?\<close> as \<open>rbind\<close>, early-returning loops as
    \<open>rfold\<close>, the locale \<open>codec\<close> of round trips.  \<open>Text\<close>, \<open>Utf8\<close>, \<open>Decimal\<close>, \<open>BTree\<close>: the
    parts of Rust's standard library the program uses (the locale \<open>ordered_map\<close>).
  \<^item> \<open>Env\<close>: the third-party code as a record of parameters (SHA3-256, setsum, the JSON reader,
    zstd) and the laws assumed of it (\<open>sum_laws\<close>, \<open>digest_law\<close>; locales \<open>setsum\<close>, \<open>hashing\<close>);
    \<open>Instance\<close> shows the laws consistent.
  \<^item> \<open>Ident\<close>, \<open>Canonical\<close>: \<open>ident.rs\<close>.  \<open>Manifest\<close>: \<open>manifest.rs\<close>.  \<open>Blobs\<close>: \<open>blobs.rs\<close>, a
    map from hashes to contents with their durability.  \<open>B64\<close>: \<open>b64.rs\<close>.
  \<^item> \<open>Span\<close>, \<open>Patch\<close>: \<open>patch.rs\<close>, the span operations and the application of intents and
    deltas.  \<open>LogData\<close>, \<open>Log\<close>: \<open>log.rs\<close>, the lines, their JSON form, sealing, recovery.
    \<open>Fork\<close>: \<open>fork.rs\<close>.
  \<^item> \<open>LineDiff\<close>, \<open>LineRanges\<close>, \<open>Diff\<close>: \<open>diff.rs\<close>.  \<open>Ignore\<close>: \<open>ignore.rs\<close>.
  \<^item> \<open>Tree\<close>, \<open>Repo\<close>, \<open>Ops\<close>, \<open>Collect\<close>, \<open>Lineage\<close>, \<open>Batch\<close>: the operations of \<open>repo.rs\<close> on
    the record \<open>repo\<close> (forks, anchors, pool, working tree, mirror binding); \<open>State\<close>,
    \<open>Replay\<close>, \<open>History\<close>, \<open>WritePath\<close>: what they guarantee.
  \<^item> \<open>Segment\<close>: \<open>segment.rs\<close>.  \<open>Serve\<close>, \<open>Pack\<close>: \<open>serve.rs\<close>.  \<open>Objects\<close>: the object store of
    \<open>wire.rs\<close> as a map from names (locale \<open>object_store\<close>).  \<open>Remote\<close>: \<open>remote.rs\<close>.
  \<^item> \<open>Union\<close>: \<open>union.rs\<close>.  \<open>Delta\<close>: \<open>delta.rs\<close>.  \<open>Push\<close>: push, clone and fetch of \<open>wire.rs\<close>.
    \<open>Revision\<close>: \<open>revision.rs\<close>.  \<open>Blame\<close>: \<open>blame.rs\<close>.  \<open>Views\<close>: \<open>views.rs\<close>.
  \<^item> \<open>Examples\<close>, \<open>Samples\<close>, \<open>Pushes\<close>, \<open>Walks\<close>: the values the witnesses use.

  Conventions.  A definition has the name of the function it models, with a prefix where the
  name is taken (\<open>m_\<close> manifests, \<open>er_\<close> element records, \<open>fs_\<close> the file-system store); the
  body of a loop is a definition of its own.  A \<open>Vec\<close> is a list, a \<open>BTreeMap\<close> or \<open>BTreeSet\<close> a
  sorted list, \<open>&str\<close> and \<open>&[u8]\<close> are byte strings.  An error is \<open>Err\<close> of its kind; \<open>Panic\<close>
  stands for an index out of range.  \<open>u64\<close> and \<open>usize\<close> are naturals with the bounds written
  out where the code can reach them.  A locked operation is one step on the repository, since
  the lock is exclusive.

  What the lemmas show, in the order of the sections below: intents, realizations and sums
  agree, undo and commute; span edits are exact; a sealed line reads back and a torn or damaged
  log loses only what was not whole; manifests and the smaller formats round-trip; the pool is
  durable up to one deduplication gap; a state read is well-typed, an application moves it
  atomically under crashes, undo and snapshots are exact; a lineage is one history and removal
  and collection lose nothing another fork needs; scripts are shortest and synthesized edits
  exact; segments give back their inputs, constructs resolve, anchors are derived; a union lands
  its lines once, all or none; a push plan carries what is missing, moves forks forward only, and
  its manifest accounts for every item; a push extends the chain under interference, and the
  store it leaves is what everyone put; a view is the ordered list of beats and lines a reading
  without its loop gives; revisions and ranges name the states and lines they say; blame
  refines a text whose bytes are tagged with the lines that put them there.

  Hypotheses to note.  What walks a lineage (continuity, \<open>HEAD~n\<close> and ranges) assumes that it
  ends at a root and that no log of its forks returns to its anchor (\<open>rooted\<close>, \<open>unsnapshotted\<close>):
  a snapshot makes one return, and \<open>snapshot_breaks_continuity\<close> shows what then fails.  What
  follows a union assumes that the forks' states differed when it began or, for the removal,
  that the lines were carried already: \<open>identical_edits_stay_unmerged\<close> is the other case.  What
  appends lines assumes that none of them returns to the fork's anchor.

  Termination, bounds and fuel.  No fuel is used.  Every loop is total by a measure: \<open>probe\<close> by
  \<open>2 ^ 64\<close> less the sequence number, a \<open>u64\<close>; the walks of \<open>Lineage\<close> by the forks not visited;
  \<open>classify\<close>, \<open>resolve_constructs\<close> and \<open>derive_anchors\<close> by what is pending, since a round that
  settles nothing ends the loop; \<open>compaction_loop\<close> by the candidates left; the widening loops by
  the distance to the ends of the text; the globs by their patterns and text.  A push makes at
  most \<open>PUSH_ATTEMPTS = 16\<close> attempts, as the code does.  Once an attempt has read,
  \<open>others\<close> changes the store before each of its segments and before its manifest: a parameter,
  of which \<open>others_grow\<close> assumes only that objects are neither changed nor removed.  Each object
  is put in one step, and an attempt reads one store.

  Parameters.  Beyond \<open>Env\<close>, the parser of store paths (\<open>object_store::path\<close>) is the parameter
  \<open>parse\<close>, the clock is \<open>now\<close>.  Hypotheses on them state documented behaviour and each
  property with one has a witness that meets it.

  Not modelled.  \<open>git.rs\<close> (import and export by running the external git program), \<open>claude.rs\<close>
  (hooks, transcripts and settings of an agent outside the repository), \<open>bin/tally.rs\<close> and
  \<open>bin/pi-editor.rs\<close> (argument parsing and printing): process and file I/O around the operations
  modelled here.  Of the modelled files: error messages, \<open>Repository::open\<close> and \<open>discover\<close>
  (which look for a directory), the fork lock, and the names of temporary files.
\<close>

section \<open>Intents and realizations\<close>

text \<open>C1. An intent applied to a well-formed state yields a well-formed state; the realization
  it produced, replayed on the old state, gives exactly the new state, and replayed as
  arithmetic on the old state's sum gives exactly the new state's sum.\<close>

theorem intent_replays:
  assumes "sum_laws E" "m_ok m" "apply_intent E i m pool = Ok (m', rz)"
  shows "m_ok m' \<and> apply_realized_to_manifest m (realized rz) = Ok m' \<and>
    apply_realized_to_sum E (m_sum E m) (realized rz) = Ok (m_sum E m')"
  using apply_intent_realizes [OF assms(2,3)]
    setsum.realized_sum [OF setsum.intro [OF assms(1)] assms(2)] by blast

theorem intent_replays_witness:
  "\<exists>m' rz. apply_intent E0 i0 m0 p0 = Ok (m', rz) \<and> m_ok m' \<and>
     apply_realized_to_manifest m0 (realized rz) = Ok m' \<and>
     apply_realized_to_sum E0 (m_sum E0 m0) (realized rz) = Ok (m_sum E0 m')"
  using i0_applies intent_replays [OF sum_laws_E0 m0_ok, of i0 p0] by blast

text \<open>C2. An accepted intent changes no path its operations do not name, the blobs it
  produced are named by their content's hash, and every blob the new state refers to is in the
  pool, was produced by the intent, or was referred to before.\<close>

theorem intent_frame:
  assumes "m_ok m" "apply_intent E i m pool = Ok (m', rz)"
  shows "(\<forall>p. p \<notin> op_path ` set (ops i) \<longrightarrow> m_get m' p = m_get m p) \<and>
    (\<forall>(h, c) \<in> set (new_blobs rz). sha3_hex E c = h) \<and>
    (\<forall>r \<in> set (records m'). bt_has pool (er_blob r) \<or> er_blob r \<in> fst ` set (new_blobs rz) \<or>
       er_blob r \<in> er_blob ` set (records m))"
proof -
  note a = apply_intent_realizes [OF assms]
  have "m_get m' p = m_get m p" if "p \<notin> op_path ` set (ops i)" for p
    using a that realized_frame [OF assms(1), of "realized rz" m' p] by (simp add: m_get_def)
  with a show ?thesis by (simp add: blobs_named_def blob_known_def)
qed

theorem intent_frame_witness:
  "\<exists>m' rz. apply_intent E0 i0 m0 p0 = Ok (m', rz) \<and> m_get m' ''/b'' = m_get m0 ''/b'' \<and>
     (\<forall>(h, c) \<in> set (new_blobs rz). sha3_hex E0 c = h)"
proof -
  obtain m' rz where a: "apply_intent E0 i0 m0 p0 = Ok (m', rz)" using i0_applies by blast
  have "''/b'' \<notin> op_path ` set (ops i0)" by (simp add: i0_def)
  with intent_frame [OF m0_ok a] a show ?thesis by blast
qed

text \<open>C3. Undo is the inverse: a replayed realization is taken back, on the state and on the
  sum, by the inverse delta (its entries with their two sides exchanged, last one first).\<close>

theorem realization_undone:
  assumes "sum_laws E" "m_ok m" "apply_realized_to_manifest m es = Ok m'"
  shows "apply_realized_to_manifest m' (inverse_realized es) = Ok m \<and>
    apply_realized_to_sum E (m_sum E m') (inverse_realized es) = Ok (m_sum E m)"
  using realized_inverse [OF assms(2,3)] setsum.realized_sum [OF setsum.intro [OF assms(1)] assms(2,3)]
    setsum.sum_inverse [OF setsum.intro [OF assms(1)]] by blast

theorem realization_undone_witness:
  "\<exists>m' es. apply_realized_to_manifest m0 es = Ok m' \<and> es \<noteq> [] \<and>
     apply_realized_to_manifest m' (inverse_realized es) = Ok m0"
proof -
  obtain m' rz where "apply_intent E0 i0 m0 p0 = Ok (m', rz)" using i0_applies by blast
  from apply_intent_realizes [OF m0_ok this]
  have "apply_realized_to_manifest m0 (realized rz) = Ok m'" "length (realized rz) = 2"
    by (auto simp: i0_def)
  moreover from this(2) have "realized rz \<noteq> []" by auto
  ultimately show ?thesis using realization_undone [OF sum_laws_E0 m0_ok] by blast
qed

text \<open>Two realized deltas that touch disjoint paths commute: whenever one order of
  application is accepted, the other is too and gives the same state.\<close>

theorem independent_deltas_commute:
  assumes "m_ok m" "apply_realized_to_manifest m (es @ fs) = Ok m'"
    "(\<Union>e \<in> set es. entry_paths e) \<inter> (\<Union>f \<in> set fs. entry_paths f) = {}"
  shows "apply_realized_to_manifest m (fs @ es) = Ok m'"
  by (rule realized_commute [OF m_ok_bt [OF assms(1)] assms(3,2)])

theorem independent_deltas_commute_witness:
  "let e = \<lparr>re_remove = Some (er_to_line r0), re_add = None\<rparr>;
       f = \<lparr>re_remove = None, re_add = Some (er_to_line (r0\<lparr>er_path := ''/b''\<rparr>))\<rparr>
   in \<exists>m'. apply_realized_to_manifest m0 ([e] @ [f]) = Ok m' \<and>
        apply_realized_to_manifest m0 ([f] @ [e]) = Ok m'"
proof -
  let ?e = "\<lparr>re_remove = Some (er_to_line r0), re_add = None\<rparr>"
  let ?b = "r0\<lparr>er_path := ''/b''\<rparr>"
  let ?f = "\<lparr>re_remove = None, re_add = Some (er_to_line ?b)\<rparr>"
  have "validate_path ''/b'' = Ok ()" by code_simp
  then have b: "er_valid ?b" using r0_valid by (simp add: er_valid_iff)
  have s: "removed ?e = Ok (Some r0)" "added ?e = Ok None" "removed ?f = Ok None"
    "added ?f = Ok (Some ?b)"
    by (simp_all add: removed_def added_def b)
  have "entry_to_manifest ?e m0 = Ok []"
    by (simp add: entry_to_manifest_def s remove_side_def insert_side_def)
      (simp add: m0_def m_remove_def m_contains_def bt_remove_def r0_def)
  moreover have "entry_to_manifest ?f [] = Ok [(''/b'', ?b)]"
    by (simp add: entry_to_manifest_def s remove_side_def insert_side_def m_insert_def bt_has_def)
  ultimately have a: "apply_realized_to_manifest m0 ([?e] @ [?f]) = Ok [(''/b'', ?b)]"
    by (simp add: apply_realized_to_manifest_def)
  have "(\<Union>e \<in> set [?e]. entry_paths e) \<inter> (\<Union>f \<in> set [?f]. entry_paths f) = {}"
    by (auto simp: entry_paths_def s) (simp add: r0_def)
  from independent_deltas_commute [OF m0_ok a this] a show ?thesis by (auto simp: Let_def)
qed

text \<open>C4. Two edits of one file whose unique spans are disjoint commute: when both orders are
  accepted they produce the same state.\<close>

theorem disjoint_edits_of_a_file_commute:
  assumes "m_ok m" "m_get m p = Some el" "read_blob pool [] (er_blob el) = Ok c"
    "find_unique c o1 = Ok i" "find_unique c o2 = Ok j" "i + length o1 \<le> j"
    "apply_intent E \<lparr>ops = [Edit p o1 n1, Edit p o2 n2]\<rparr> m pool = Ok (m1, rz1)"
    "apply_intent E \<lparr>ops = [Edit p o2 n2, Edit p o1 n1]\<rparr> m pool = Ok (m2, rz2)"
  shows "m1 = m2"
  by (rule edits_commute [OF assms])

theorem disjoint_edits_of_a_file_commute_witness:
  "\<exists>m' rz1 rz2.
     apply_intent E0 \<lparr>ops = [Edit ''/a'' ''hi'' ''ho'', Edit ''/a'' ''re'' ''se'']\<rparr> m0 p0 = Ok (m', rz1) \<and>
     apply_intent E0 \<lparr>ops = [Edit ''/a'' ''re'' ''se'', Edit ''/a'' ''hi'' ''ho'']\<rparr> m0 p0 = Ok (m', rz2)"
proof -
  have r: "replace_unique ''hi there'' ''re'' ''se'' = Ok ''hi these''"
    "replace_unique ''ho there'' ''re'' ''se'' = Ok ''ho these''"
    "replace_unique ''hi these'' ''hi'' ''ho'' = Ok ''ho these''"
    "find_unique ''hi there'' ''hi'' = Ok 0" "find_unique ''hi there'' ''re'' = Ok 6"
    by code_simp+
  let ?a = "apply_intent E0 \<lparr>ops = [Edit ''/a'' ''hi'' ''ho'', Edit ''/a'' ''re'' ''se'']\<rparr> m0 p0"
  let ?b = "apply_intent E0 \<lparr>ops = [Edit ''/a'' ''re'' ''se'', Edit ''/a'' ''hi'' ''ho'']\<rparr> m0 p0"
  have "is_ok ?a" "is_ok ?b" by (simp_all add: running r)
  then obtain ma ra mb rb where a: "?a = Ok (ma, ra)" and b: "?b = Ok (mb, rb)"
    by (auto simp: is_ok_iff)
  have el: "m_get m0 ''/a'' = Some r0" "read_blob p0 [] (er_blob r0) = Ok ''hi there''"
    by (simp_all add: running)
  have "ma = mb" by (rule disjoint_edits_of_a_file_commute [OF m0_ok el r(4,5) _ a b]) simp
  with a b show ?thesis by blast
qed

text \<open>C5. A replace-all request on UTF-8 content whose pattern occurs is materialised as a series of
  edits, one for each of the non-overlapping occurrences, every one of which names a span that
  occurs exactly once in the content it meets, and whose replay gives the one-pass result.\<close>

theorem replace_all_is_anchored_edits:
  assumes "from_utf8 content" "from_utf8 old" "from_utf8 new" "old \<noteq> []"
    "count_occurrences content old > 0"
  shows "\<exists>edits. anchored_replace_all content old new = Some edits \<and>
    replay_edits edits content = Ok (replace_all old new content) \<and>
    length edits = length (occurrence_starts content old 0)"
  by (rule anchored_edits_exist [OF assms])

theorem replace_all_is_anchored_edits_witness:
  "\<exists>edits. anchored_replace_all ''aba'' ''a'' ''aa'' = Some edits \<and>
     replay_edits edits ''aba'' = Ok (replace_all ''a'' ''aa'' ''aba'')"
proof -
  have u: "from_utf8 ''aba''" "from_utf8 ''a''" "from_utf8 ''aa''" by code_simp+
  have "count_occurrences ''aba'' ''a'' > 0" by code_simp
  from replace_all_is_anchored_edits [OF u _ this] show ?thesis by auto
qed

text \<open>The span search reports exactly the uniqueness of the span: the offset when the
  (non-empty) span occurs once, overlapping occurrences included, and otherwise the number of
  its occurrences.\<close>

theorem find_unique_exact:
  "find_unique content span =
     (if span \<noteq> [] \<and> card {i. i + length span \<le> length content \<and> occurs_at content span i} = 1
      then Ok (THE i. i + length span \<le> length content \<and> occurs_at content span i)
      else Err (if span = [] then 0
                else card {i. i + length span \<le> length content \<and> occurs_at content span i}))"
proof -
  have p: "{i. i + length span \<le> length content \<and> occurs_at content span i} = positions content span"
    by (simp add: positions_def)
  have t: "(THE i. i + length span \<le> length content \<and> occurs_at content span i) =
      the_elem (positions content span)" if "positions content span = {k}" for k
    using that by (intro the_equality) (auto simp: positions_def)
  show ?thesis
  proof (cases "count_occurrences content span = 1")
    case True
    then obtain k where "span \<noteq> []" "positions content span = {k}"
      by (auto simp: count_1_positions)
    with True t show ?thesis by (simp add: p find_unique_count)
  next
    case False
    then show ?thesis by (simp add: p find_unique_count) (simp add: count_occurrences_card split: if_splits)
  qed
qed

section \<open>The log\<close>

text \<open>C6. Sealing a line and reading it back: the bytes appended are one line; parsing them,
  through the overflow blob when the line is too large, gives the sealed line, and the whole
  appended log reads back as that one line, whatever the size.  The hypotheses are that the
  JSON reader reads the canonical text of the values written, that strings are UTF-8, and that
  the overflow blob's hash has not collided.\<close>

theorem sealed_line_reads_back:
  assumes "digest_law E" "pool_ok E pool" "ll_valid l" "seal E now l pool = Ok (bs, l', pool')"
    "json_reads E (line_to_value l')" "json_all utf8 (line_to_value l')"
    "\<And>c. canonical_json (line_to_value l') = Ok c \<Longrightarrow> SPILL_THRESHOLD < length c \<Longrightarrow>
       json_reads E (JObj [(''line_blob'', JStr (sha3_hex E c))]) \<and>
       (\<forall>c'. sha3_hex E c' = sha3_hex E c \<longrightarrow> c' = c)"
  shows "parse_log_strict E (blob_get pool') bs = Ok [l'] \<and>
    ll_realized l' = ll_realized l \<and> ll_sum_after l' = ll_sum_after l \<and> ll_prev l' = ll_prev l \<and>
    ll_intent l' = ll_intent l \<and> verify_record_id E (line_to_value l') = Ok ()"
proof -
  from seal_Ok [OF assms(4,3,2)] obtain t where t: "bs = t @ [LF]" "LF \<notin> set t"
    and s: "sealed_as E l' t pool'" and p: "pool_ok E pool'"
    and keep: "ll_realized l' = ll_realized l" "ll_prev l' = ll_prev l"
      "ll_sum_after l' = ll_sum_after l" "ll_intent l' = ll_intent l" by blast
  from sealed_stored [OF s p assms(5-7)] obtain x where
    "from_utf8 t" "stored_parse E t = Ok x" "stored_resolve E (blob_get pool') x = Ok l'" by blast
  then have "parse_log_strict E (blob_get pool') (unlines [t]) = Ok [l']"
    by (intro strict_whole [where ss = "[x]"]) (simp_all add: stored_texts_def t)
  with t keep s show ?thesis by (simp add: sealed_as_def verify_line)
qed

theorem sealed_line_reads_back_witness:
  "\<exists>bs. seal E1 0 l0 [] = Ok (bs, l1, []) \<and> parse_log_strict E1 (blob_get []) bs = Ok [l1]"
proof -
  obtain c where c: "canonical_json (line_to_value l1) = Ok c" "length c < 1000"
    and s: "seal E1 0 l0 [] = Ok (c @ [LF], l1, [])" using seal_l0 by blast
  have "parse_log_strict E1 (blob_get []) (c @ [LF]) = Ok [l1] \<and>
    ll_realized l1 = ll_realized l0 \<and> ll_sum_after l1 = ll_sum_after l0 \<and> ll_prev l1 = ll_prev l0 \<and>
    ll_intent l1 = ll_intent l0 \<and> verify_record_id E1 (line_to_value l1) = Ok ()"
    by (rule sealed_line_reads_back [OF digest_law_E1 pool_ok_Nil l1_ok(3) s])
      (use c in \<open>simp_all add: json_reads_def SPILL_THRESHOLD_def l1_utf8\<close>)
  with s show ?thesis by blast
qed

text \<open>C7. A crash in the middle of an append costs that line only: a log of whole stored lines
  followed by any fragment without a line feed is read as those lines, and the valid prefix the
  reader reports is exactly their bytes.\<close>

theorem torn_append_loses_only_itself:
  assumes "stored_texts E ts ss" "rmapM (stored_resolve E fetch) ss = Ok ls" "LF \<notin> set torn"
  shows "parse_log_lenient E fetch (unlines ts @ torn) =
    Ok \<lparr>pl_lines = ls, pl_valid_prefix = length (unlines ts)\<rparr>"
  by (rule lenient_torn_tail [OF assms])

theorem torn_append_loses_only_itself_witness:
  "parse_log_lenient E1 (\<lambda>_. Err Io) (unlines [''x'', ''y''] @ ''{torn'') =
     Ok \<lparr>pl_lines = [l1, l1], pl_valid_prefix = 4\<rparr>"
proof -
  have "stored_texts E1 [''x'', ''y''] [Line l1, Line l1]"
    using l1_texts by (simp add: stored_texts_def)
  from torn_append_loses_only_itself [OF this, of "\<lambda>_. Err Io" "[l1, l1]" "''{torn''"]
  show ?thesis by (simp add: LF_def)
qed

text \<open>C8. Damage in the middle is never mistaken for a torn tail: when a line that does not
  parse is followed by one that does, reading the log is an error, even leniently.\<close>

theorem damage_before_a_valid_line_is_refused:
  assumes "stored_texts E ts ss" "LF \<notin> set bad" "\<not> (from_utf8 bad \<and> is_ok (stored_parse E bad))"
    "good \<in> set (split_on LF rest)" "from_utf8 good" "is_ok (stored_parse E good)"
  shows "parse_log_lenient E fetch (unlines ts @ bad @ LF # rest) = Err Corrupt"
  using assms by (intro lenient_mid_damage) (auto simp: valid_chunk_def list_ex_iff)

theorem damage_before_a_valid_line_is_refused_witness:
  "parse_log_lenient E1 (\<lambda>_. Err Io) (unlines [''x''] @ [CHR 0xFF] @ LF # ''y'' @ [LF]) = Err Corrupt"
proof -
  have "stored_texts E1 [''x''] [Line l1]" using l1_texts by (simp add: stored_texts_def)
  moreover have "\<not> from_utf8 [CHR 0xFF]" by code_simp
  moreover have "''y'' \<in> set (split_on LF (''y'' @ [LF]))" by code_simp
  ultimately show ?thesis
    by (intro damage_before_a_valid_line_is_refused [where good = "''y''" and ss = "[Line l1]"])
      (use l1_texts in \<open>auto simp: LF_def\<close>)
qed

text \<open>Recovery is idempotent: truncating a log to the valid prefix the lenient reader
  reports gives a log the strict reader accepts, with the same lines.\<close>

theorem truncation_is_clean:
  assumes "parse_log_lenient E fetch bs = Ok p"
  shows "pl_valid_prefix p \<le> length bs \<and>
    parse_log_strict E fetch (take (pl_valid_prefix p) bs) = Ok (pl_lines p)"
  by (rule lenient_truncates [OF assms])

theorem truncation_is_clean_witness:
  "\<exists>p. parse_log_lenient E1 (\<lambda>_. Err Io) (unlines [''x''] @ ''{torn'') = Ok p \<and>
     parse_log_strict E1 (\<lambda>_. Err Io) (take (pl_valid_prefix p) (unlines [''x''] @ ''{torn'')) =
       Ok (pl_lines p)"
proof -
  have "stored_texts E1 [''x''] [Line l1]" using l1_texts by (simp add: stored_texts_def)
  from lenient_torn_tail [OF this, of "\<lambda>_. Err Io" "[l1]" "''{torn''"]
  obtain p where p: "parse_log_lenient E1 (\<lambda>_. Err Io) (unlines [''x''] @ ''{torn'') = Ok p"
    by (auto simp: LF_def)
  with truncation_is_clean [OF p] show ?thesis by blast
qed

text \<open>In a verified chain every line names its predecessor's id (the empty string on the
  first) and every prefix of the log verifies on its own, to the sum its last line claims.\<close>

theorem verified_chain_is_linked_and_summed:
  assumes "verify_chain E anchor ls = Ok s" "i < length ls"
  shows "ll_prev (ls ! i) = (if i = 0 then [] else ll_id (ls ! (i - 1))) \<and>
    (\<exists>s'. verify_chain E anchor (take (Suc i) ls) = Ok s' \<and> ss_hexdigest E s' = ll_sum_after (ls ! i))"
  by (rule verify_chain_line [OF assms])

theorem verified_chain_is_linked_and_summed_witness:
  "verify_chain E0 (m_sum E0 m0) [l2] = Ok 0 \<and> ll_prev l2 = []"
  using verified_chain_is_linked_and_summed [OF l2_chain, of 0] l2_chain by simp

text \<open>Replay meets arithmetic: when the deltas of a chain that verifies from a state's sum
  are replayed on that state, the state reached has the chain's final sum.\<close>

theorem chain_sum_is_state_sum:
  assumes "sum_laws E" "m_ok m" "verify_chain E (m_sum E m) ls = Ok s"
    "apply_realized_to_manifest m (concat (map ll_realized ls)) = Ok m'"
  shows "m_ok m' \<and> m_sum E m' = s"
  using setsum.verify_chain_state [OF setsum.intro [OF assms(1)] assms(3,2,4)]
    apply_realized_ok [OF assms(2,4)] by simp

theorem chain_sum_is_state_sum_witness:
  "verify_chain E0 (m_sum E0 m0) [l2] = Ok 0 \<and> m_sum E0 [] = 0"
proof -
  have "apply_realized_to_manifest m0 (concat (map ll_realized [l2])) = Ok []"
    using d0_applies by (simp add: l2_def)
  from chain_sum_is_state_sum [OF sum_laws_E0 m0_ok l2_chain this] l2_chain show ?thesis by simp
qed

text \<open>Extending a verified chain: a line that names the last id, whose delta parses, and
  that claims the sum the arithmetic yields keeps the chain verified, with that sum.\<close>

theorem chain_extends:
  assumes "verify_chain E anchor ls = Ok s"
    "ll_prev l = (if ls = [] then [] else ll_id (last ls))"
    "apply_realized_to_sum E s (ll_realized l) = Ok s'"
  shows "verify_chain E anchor (ls @ [l]) =
    (if ss_hexdigest E s' = ll_sum_after l then Ok s' else Err Corrupt)"
proof (cases "ss_hexdigest E s' = ll_sum_after l")
  case True
  with assms show ?thesis by (simp add: verify_chain_snoc)
next
  case False
  with assms show ?thesis
    using verify_chain_last [OF assms(1)]
    by (auto simp: verify_chain_def rfold_append chain_step_def)
qed

theorem chain_extends_witness:
  "verify_chain E0 (m_sum E0 m0) ([] @ [l2]) = Ok 0"
proof -
  have "apply_realized_to_sum E0 (m_sum E0 m0) (ll_realized l2) = Ok 0"
    using l2_chain by (auto simp: verify_chain_def chain_step_def split: if_splits)
  moreover have "ss_hexdigest E0 0 = ll_sum_after l2" by (simp add: l2_def)
  ultimately show ?thesis
    using chain_extends [OF verify_chain_Nil, of l2 E0 "m_sum E0 m0" 0] by (simp add: l2_def l0_def)
qed

section \<open>States and their formats\<close>

text \<open>C9. A well-formed state with UTF-8 paths survives serialisation: the manifest file parses
  back to exactly that state.\<close>

theorem manifest_round_trip:
  assumes "sum_laws E" "m_ok m" "m_utf8 m"
  shows "m_parse E (m_to_bytes E m) = Ok m"
  by (rule setsum.m_parse_to_bytes [OF setsum.intro [OF assms(1)] assms(2,3)])

theorem manifest_round_trip_witness: "m_parse E0 (m_to_bytes E0 m0) = Ok m0"
  by (rule manifest_round_trip [OF sum_laws_E0 m0_ok m0_utf8])

text \<open>An accepted manifest file is honest: the state is well-formed, its records are exactly
  the records of the file's lines after the two header lines, and the sum the header claims is
  the sum of those records.\<close>

theorem accepted_manifest_is_honest:
  assumes "sum_laws E" "m_parse E bs = Ok m"
  shows "m_ok m \<and> from_utf8 bs \<and>
    (\<exists>hl sl ls claimed rs. split_inclusive LF bs = hl # sl # ls \<and>
       strip_LF hl = MANIFEST_HEADER \<and> strip_LF sl = ''sum '' @ claimed \<and>
       sum_from_hexdigest E claimed = Ok (m_sum E m) \<and>
       list_all2 (\<lambda>l r. er_parse l = Ok r) ls rs \<and> set (records m) = set rs)"
  by (rule setsum.m_parse_sound [OF setsum.intro [OF assms(1)] assms(2)])

theorem accepted_manifest_is_honest_witness:
  "\<exists>bs. m_parse E0 bs = Ok m0 \<and> m_ok m0 \<and> from_utf8 bs"
  using accepted_manifest_is_honest [OF sum_laws_E0]
    E0.m_parse_to_bytes [OF m0_ok m0_utf8] by blast

text \<open>A manifest adjudicates membership: a removal is accepted exactly when that very record
  is the one at its path, an insertion exactly when the path is free; an accepted one moves the
  state sum by exactly the record's contribution, and the other operation takes it back.\<close>

theorem membership_is_adjudicated:
  assumes "sum_laws E" "m_ok m" "er_valid r"
  shows "(is_ok (m_remove r m) \<longleftrightarrow> m_get m (er_path r) = Some r) \<and>
    (is_ok (m_insert r m) \<longleftrightarrow> m_get m (er_path r) = None) \<and>
    (\<forall>m'. m_remove r m = Ok m' \<longrightarrow> m_ok m' \<and> m_sum E m' = ss_remove E (m_sum E m) (er_to_bytes r) \<and>
       m_insert r m' = Ok m) \<and>
    (\<forall>m'. m_insert r m = Ok m' \<longrightarrow> m_ok m' \<and> m_sum E m' = ss_insert E (m_sum E m) (er_to_bytes r) \<and>
       m_remove r m' = Ok m)"
proof -
  note s = setsum.intro [OF assms(1)]
  show ?thesis
    using setsum.m_sum_insert [OF s assms(2,3)] setsum.m_sum_remove [OF s assms(2,3)]
      m_insert_remove [OF assms(2)] m_remove_insert [OF assms(2)] m_insert_ok [OF assms(2,3)]
      m_remove_ok [OF assms(2)]
    by (auto simp: is_ok_iff m_get_def m_remove_Ok m_insert_Ok)
qed

theorem membership_is_adjudicated_witness: "is_ok (m_remove r0 m0) \<and> \<not> is_ok (m_insert r0 m0)"
proof -
  have "m_get m0 (er_path r0) = Some r0" by (simp add: m_get_def m0_def r0_def)
  with membership_is_adjudicated [OF sum_laws_E0 m0_ok r0_valid] show ?thesis by simp
qed

text \<open>The element record format is exact: what parses is a valid record's line, with or
  without its line feed, and nothing else.\<close>

theorem element_record_format:
  "er_parse s = Ok r \<longleftrightarrow> er_valid r \<and> (s = er_to_line r \<or> s = er_to_bytes r)"
  using er_parse_Ok [of s r] by auto

text \<open>The sum of a set of records does not depend on the order they are added in.\<close>

theorem state_sum_is_order_independent:
  assumes "sum_laws E" "mset rs = mset rs'"
  shows "sum_of_records E rs = sum_of_records E rs'"
  by (rule setsum.sum_of_records_mset [OF setsum.intro [OF assms(1)] assms(2)])

theorem state_sum_is_order_independent_witness:
  "sum_of_records E0 [r0, r0\<lparr>er_path := ''/b''\<rparr>] = sum_of_records E0 [r0\<lparr>er_path := ''/b''\<rparr>, r0]"
  by (rule state_sum_is_order_independent [OF sum_laws_E0]) simp

text \<open>Canonical JSON is canonical: it does not depend on the order of an object's members, it
  contains no line feed, and it is UTF-8 whenever the value's strings are.\<close>

theorem canonical_json_is_canonical:
  assumes "canonical_json (JObj m) = Ok t" "distinct (map fst m)" "mset m' = mset m"
    "json_all utf8 (JObj m)"
  shows "canonical_json (JObj m') = Ok t \<and> LF \<notin> set t \<and> from_utf8 t"
  using canonical_perm [of m m'] canonical_no_LF [OF assms(1)] canonical_utf8 [OF assms(4,1)] assms
  by (simp add: from_utf8_iff)

theorem canonical_json_is_canonical_witness:
  "\<exists>t. canonical_json (JObj [(''b'', JInt 1), (''a'', JStr ''x'')]) = Ok t \<and>
     canonical_json (JObj [(''a'', JStr ''x''), (''b'', JInt 1)]) = Ok t \<and> LF \<notin> set t"
proof -
  have "is_ok (canonical_json (JObj [(''b'', JInt 1), (''a'', JStr ''x'')]))" by code_simp
  then obtain t where t: "canonical_json (JObj [(''b'', JInt 1), (''a'', JStr ''x'')]) = Ok t"
    by (auto simp: is_ok_iff)
  have "utf8 ''a''" "utf8 ''b''" "utf8 ''x''" by (rule ascii_utf8; auto simp: byte_def)+
  then have "json_all utf8 (JObj [(''b'', JInt 1), (''a'', JStr ''x'')])" by auto
  with canonical_json_is_canonical [OF t, of "[(''a'', JStr ''x''), (''b'', JInt 1)]"] t
  show ?thesis by auto
qed

text \<open>A record id binds the content: two records that verify under the same id have the same
  canonical text without their \<open>id\<close>, or their two texts are a collision of the digest.\<close>

theorem record_id_binds_content:
  assumes "verify_record_id E (JObj m) = Ok ()" "verify_record_id E (JObj m') = Ok ()"
    "bt_get m ''id'' = bt_get m' ''id''"
  shows "\<exists>c c'. canonical_json (JObj (bt_remove ''id'' m)) = Ok c \<and>
    canonical_json (JObj (bt_remove ''id'' m')) = Ok c' \<and>
    (c = c' \<or> c \<noteq> c' \<and> sha3_hex E c = sha3_hex E c')"
  by (rule same_id [OF assms])

theorem record_id_binds_content_witness:
  "\<exists>m c. line_to_value l1 = JObj m \<and> canonical_json (JObj (bt_remove ''id'' m)) = Ok c"
proof -
  obtain m where m: "line_to_value l1 = JObj m" by (simp add: line_to_value_def)
  have "verify_record_id E1 (JObj m) = Ok ()"
    using verify_line [of E1 l1 "()"] compute_id_l1 by (simp add: m)
  with record_id_binds_content [OF this this] m show ?thesis by blast
qed

text \<open>Base64: decoding what was encoded gives the bytes back.\<close>

theorem base64_round_trip: "decode (encode bs) = Ok bs"
  by (rule decode_encode)

text \<open>A fork file written for two 64-hex sums parses back to them, and a file that parses
  has the header, the two fields on the next two lines, and two 64-hex sums.\<close>

theorem fork_file_format:
  "(is_hex64 (ff_anchor f) \<and> is_hex64 (ff_manifest f) \<longrightarrow> fork_parse (fork_to_bytes f) = Ok f) \<and>
   (fork_parse bs = Ok f \<longrightarrow> is_hex64 (ff_anchor f) \<and> is_hex64 (ff_manifest f) \<and>
     (\<exists>rest. lines bs = FORK_HEADER # (''anchor '' @ ff_anchor f) # (''manifest '' @ ff_manifest f) # rest))"
  using fork_parse_bytes [of f] fork_parse_Ok [of bs f] by (auto simp: fork_valid_def)

theorem fork_file_format_witness:
  "fork_parse (fork_to_bytes \<lparr>ff_anchor = z64, ff_manifest = z64\<rparr>) = Ok \<lparr>ff_anchor = z64, ff_manifest = z64\<rparr>"
proof -
  have "is_hex64 z64" by code_simp
  with fork_file_format [of "\<lparr>ff_anchor = z64, ff_manifest = z64\<rparr>"] show ?thesis by simp
qed

section \<open>Content\<close>

text \<open>The pool is content-addressed and write-ahead: a put of new content names it by its
  hash, is read back exactly, survives a crash, keeps every blob that was there, and keeps the
  invariant that names are hashes.\<close>

theorem put_is_durable_and_content_addressed:
  assumes "digest_law E" "pool_ok E pool" "\<not> bt_has pool (sha3_hex E c)"
  shows "\<exists>pool'. blob_put E c pool = Ok (sha3_hex E c, pool') \<and> pool_ok E pool' \<and>
    blob_get pool' (sha3_hex E c) = Ok c \<and> blob_get (blob_crash pool') (sha3_hex E c) = Ok c \<and>
    (\<forall>h x. blob_get pool h = Ok x \<longrightarrow> blob_get pool' h = Ok x)"
proof -
  let ?h = "sha3_hex E c" and ?p = "bt_insert (sha3_hex E c) (c, True) pool"
  have h: "is_hex64 ?h" using is_hex64_sha3 [OF assms(1)] .
  have w: "blob_put E c pool = Ok (?h, ?p)"
    using assms(3) h by (simp add: blob_put_def blob_write_Ok)
  note b = pool_ok_bt [OF assms(2)]
  have "blob_get ?p k = Ok x" if "blob_get pool k = Ok x" for k x
    using that assms(3) b by (auto simp: blob_get_Ok bt_get_insert bt_has_def)
  moreover have "blob_get ?p ?h = Ok c" "blob_get (blob_crash ?p) ?h = Ok c"
    using h b by (auto simp: blob_get_Ok bt_get_insert bt_get_crash bt_ok_insert)
  ultimately show ?thesis using w pool_ok_write [OF assms(2)] by (auto simp: blob_put_def)
qed

theorem put_is_durable_and_content_addressed_witness:
  "\<exists>pool'. blob_put E0 ''x'' [] = Ok (sha3_hex E0 ''x'', pool') \<and>
     blob_get (blob_crash pool') (sha3_hex E0 ''x'') = Ok ''x''"
  using put_is_durable_and_content_addressed [OF digest_law_E0 pool_ok_Nil, of "''x''"]
  by (auto simp: bt_has_def)

text \<open>C10. A deduplicated put is not durable: when the same content was put unsynced before, a put
  returns without syncing it, and a crash loses the blob.\<close>

theorem deduplicated_put_is_lost_by_a_crash:
  assumes "digest_law E" "pool_ok E pool" "\<not> bt_has pool (sha3_hex E c)"
  shows "\<exists>p1 p2. blob_put_unsynced E c pool = Ok (sha3_hex E c, p1) \<and>
    blob_put E c p1 = Ok (sha3_hex E c, p2) \<and> blob_get p2 (sha3_hex E c) = Ok c \<and>
    blob_get (blob_crash p2) (sha3_hex E c) = Err Io"
proof -
  let ?h = "sha3_hex E c" and ?p = "bt_insert (sha3_hex E c) (c, False) pool"
  have h: "is_hex64 ?h" using is_hex64_sha3 [OF assms(1)] .
  note b = pool_ok_bt [OF assms(2)]
  have "blob_put_unsynced E c pool = Ok (?h, ?p)"
    using assms(3) h by (simp add: blob_put_unsynced_def blob_write_Ok)
  moreover have "blob_put E c ?p = Ok (?h, ?p)"
    using h b by (simp add: blob_put_def blob_write_Ok bt_has_def bt_get_insert)
  moreover have "blob_get ?p ?h = Ok c" "bt_get (blob_crash ?p) ?h = None"
    using h b by (auto simp: blob_get_Ok bt_get_insert bt_get_crash bt_ok_insert)
  ultimately show ?thesis using h by (auto simp: blob_get_def path_for_def)
qed

theorem deduplicated_put_is_lost_by_a_crash_witness:
  "\<exists>p1 p2. blob_put_unsynced E0 ''x'' [] = Ok (sha3_hex E0 ''x'', p1) \<and>
     blob_put E0 ''x'' p1 = Ok (sha3_hex E0 ''x'', p2) \<and>
     blob_get (blob_crash p2) (sha3_hex E0 ''x'') = Err Io"
  using deduplicated_put_is_lost_by_a_crash [OF digest_law_E0 pool_ok_Nil, of "''x''"]
  by (auto simp: bt_has_def)

section \<open>The repository\<close>

text \<open>C11. The state of a fork, read from its anchor manifest and its log, is well-typed: the
  records are valid and sorted by path, the sum is the sum of the records, the lines are linked
  by their ids, the head is the last line, and the last line claims the state's sum.\<close>

theorem accepted_state_is_well_typed:
  assumes "sum_laws E" "current_state E r fork = Ok st"
  shows "m_ok (fs_manifest st) \<and> fs_sum_hex st = ss_hexdigest E (m_sum E (fs_manifest st)) \<and>
    fs_head_id st = head_of (fs_lines st) \<and> lines_linked (fs_lines st) \<and>
    (fs_lines st \<noteq> [] \<longrightarrow> ll_sum_after (last (fs_lines st)) = fs_sum_hex st)"
  using setsum.current_state_ok [OF setsum.intro [OF assms(1)] assms(2)] by (simp add: state_ok_def)

theorem accepted_state_is_well_typed_witness:
  "current_state E3 g3 ''main'' = Ok st3 \<and> m_ok (fs_manifest st3) \<and> fs_head_id st3 = head_of (fs_lines st3)"
  using accepted_state_is_well_typed [OF sum_laws_E3 g3_state(1)] g3_state by simp

text \<open>C12. Applying an intent appends one line: the line records the intent and its
  realization on the state before, the state read afterwards is the one the intent computes,
  and it is the state read after a crash too.\<close>

theorem applied_intent_is_the_next_line:
  assumes "sum_laws E" "apply_inner E now fork i ann refresh r = Ok (l, r')"
    "pool_ok E (rp_pool r)" "bt_ok (rp_forks r)" "an_valid ann" "readable E l"
    "read_fork r fork = Ok ff" "current_state E (crashed r) fork = Ok st"
  shows "\<exists>m' rz st'. apply_intent E i (fs_manifest st) (rp_pool r) = Ok (m', rz) \<and> ll_intent l = i \<and>
    ll_realized l = realized rz \<and> current_state E r' fork = Ok st' \<and>
    current_state E (crashed r') fork = Ok st' \<and> follows E (ff_anchor ff) st l m' st'"
  using setsum.apply_inner_Ok [OF setsum.intro [OF assms(1)] assms(2-8)] .

theorem applied_intent_is_the_next_line_witness:
  "\<exists>st'. apply_inner E3 7 ''main'' i3 a0 False g0 = Ok (l3, g3) \<and>
     current_state E3 (crashed g3) ''main'' = Ok st' \<and> fs_lines st' = [l3] \<and> ll_intent l3 = i3"
  using applied_intent_is_the_next_line [OF sum_laws_E3 g3_applied _ _ _ _ g0_fork, of st0]
    g0_state g3_applied by (auto simp: follows_def st0_def)

text \<open>C13. A crash anywhere inside the application of an intent, the append cut at any byte
  included, leaves the state as it was or moves it to the intent's.\<close>

theorem application_is_atomic_under_a_crash:
  assumes "sum_laws E" "apply_crash E now fork i ann r r'"
    "pool_ok E (rp_pool r)" "bt_ok (rp_forks r)" "an_valid ann"
    "\<And>bs l pool. prepare_apply E now fork i ann r = Ok (bs, l, pool) \<Longrightarrow> readable E l"
    "read_fork r fork = Ok ff" "current_state E (crashed r) fork = Ok st"
  shows "current_state E r' fork = Ok st \<or>
    (\<exists>m' rz l st'. apply_intent E i (fs_manifest st) (rp_pool r) = Ok (m', rz) \<and> ll_intent l = i \<and>
       ll_realized l = realized rz \<and> current_state E r' fork = Ok st' \<and> follows E (ff_anchor ff) st l m' st')"
  using setsum.apply_crash_atomic [OF setsum.intro [OF assms(1)] assms(2-8)] .

theorem application_is_atomic_under_a_crash_witness:
  "\<forall>n t. \<exists>bs pool st. prepare_apply E3 7 ''main'' i3 a0 g0 = Ok (bs, l3, pool) \<and>
     current_state E3 ((append_log ''main'' (take n bs) (with_pool (blob_crash (blob_sync pool))
       (recover E3 ''main'' g0)))\<lparr>rp_tree := t\<rparr>) ''main'' = Ok st \<and> (st = st0 \<or> (\<exists>l. fs_lines st = [l]))"
proof (intro allI)
  fix n t
  obtain bs pool where p: "prepare_apply E3 7 ''main'' i3 a0 g0 = Ok (bs, l3, pool)"
    using g0_prepare by blast
  have c: "current_state E3 (crashed g0) ''main'' = Ok st0" by (simp add: g0_state)
  have r: "readable E3 l" if "prepare_apply E3 7 ''main'' i3 a0 g0 = Ok (bs, l, pool)" for bs l pool
    using that p by simp
  from application_is_atomic_under_a_crash [OF sum_laws_E3 appending [OF p, where n = n and t = t] _ _ _ r g0_fork c]
  show "\<exists>bs pool st. prepare_apply E3 7 ''main'' i3 a0 g0 = Ok (bs, l3, pool) \<and>
     current_state E3 ((append_log ''main'' (take n bs) (with_pool (blob_crash (blob_sync pool))
       (recover E3 ''main'' g0)))\<lparr>rp_tree := t\<rparr>) ''main'' = Ok st \<and> (st = st0 \<or> (\<exists>l. fs_lines st = [l]))"
    using p by (fastforce simp: follows_def st0_def)
qed

text \<open>Undo is exact: the lines between a state and an earlier one, undone from the later
  state, give the earlier one.\<close>

theorem undoing_lines_restores_the_earlier_state:
  assumes "m_ok m" "replay_lines ls m = Ok m'"
  shows "undo_lines ls m' = Ok m"
  by (rule replay_undo [OF assms])

theorem undoing_lines_restores_the_earlier_state_witness:
  "replay_lines [l3] [] = Ok (fs_manifest st3) \<and> undo_lines [l3] (fs_manifest st3) = Ok []"
proof -
  have "apply_realized_to_manifest [] (realized rz3) = Ok [(''/a'', r3)]"
    using apply_intent_realizes [OF _ i3_applies] by (simp add: m_ok_def bt_ok_def)
  then have "replay_lines [l3] [] = Ok (fs_manifest st3)" by (simp add: replay_lines_def st3_def rz3_def)
  with undoing_lines_restores_the_earlier_state [OF _ this] show ?thesis by (simp add: m_ok_def bt_ok_def)
qed

text \<open>C14. A snapshot keeps the state: afterwards the fork is anchored at its own sum and reads
  as before, lines included.\<close>

theorem snapshot_keeps_the_state:
  assumes "sum_laws E" "snapshot E fork r = Ok (h, r')" "current_state E r fork = Ok st"
    "bt_ok (rp_forks r)" "bt_ok (rp_anchors r)" "anchor_free E (fs_manifest st) r"
  shows "h = fs_sum_hex st \<and> current_state E r' fork = Ok st \<and>
    read_fork r' fork = Ok \<lparr>ff_anchor = h, ff_manifest = h\<rparr>"
  using setsum.snapshot_keeps_state [OF setsum.intro [OF assms(1)] assms(2-6)] .

theorem snapshot_keeps_the_state_witness:
  "\<exists>r'. snapshot E3 ''main'' g3 = Ok (o64, r') \<and> current_state E3 r' ''main'' = Ok st3 \<and>
     read_fork r' ''main'' = Ok \<lparr>ff_anchor = o64, ff_manifest = o64\<rparr>"
proof -
  have ok: "bt_ok (rp_forks g3)" "bt_ok (rp_anchors g3)" by (simp_all add: g3_forks) (simp add: bt_ok_def)
  have "anchor_free E3 (fs_manifest st3) g3"
    by (simp add: anchor_free_def g3_forks st3_def m_utf8_def records_def bt_values_def)
       (simp add: g0_def r3_def)
  moreover obtain h r' where s: "snapshot E3 ''main'' g3 = Ok (h, r')"
  proof -
    obtain d where rc: "rp_forks (recover E3 ''main'' g3) = [(''main'', d)]"
      using E3.recovered_log [OF g3_state(1) ok(1)] by (auto simp: g3_forks)
    obtain h r1 where w: "write_anchor_manifest E3 (fs_manifest st3) (recover E3 ''main'' g3) = (h, r1)" by force
    then have "rp_forks r1 = rp_forks (recover E3 ''main'' g3)"
      by (auto simp: write_anchor_manifest_def Let_def split: if_splits)
    with w rc have "is_ok (snapshot E3 ''main'' g3)" by (simp add: snapshot_def g3_state g3_forks)
    with that show ?thesis by (auto simp: is_ok_iff)
  qed
  ultimately have "h = fs_sum_hex st3 \<and> current_state E3 r' ''main'' = Ok st3 \<and>
    read_fork r' ''main'' = Ok \<lparr>ff_anchor = h, ff_manifest = h\<rparr>"
    by (intro snapshot_keeps_the_state [OF sum_laws_E3 s g3_state(1) ok])
  with s show ?thesis by (auto simp: st3_def)
qed

text \<open>C15. A lineage is one continuous history: across forks, from the base state on, every
  line's sum follows from the line before, and the last sum is that of the fork's state.  This
  takes a lineage that ends at a root (the empty state, or a state no other fork holds) and
  whose forks' logs do not return to their anchors; after a snapshot a log does, and the
  continuity fails (\<open>snapshot_breaks_continuity\<close> below).\<close>

theorem lineage_is_continuous:
  assumes "sum_laws E" "continuity_log E r fork = Ok hist" "lineage_segments E r fork None [] = Ok segs"
    "rooted E r (fst (last segs))" "unsnapshotted E r (map fst segs)"
  shows "\<exists>b s st. lineage_base_sum E r fork = Ok (ss_hexdigest E b) \<and>
    sums_from E b (map snd hist) = Ok s \<and> current_state E r fork = Ok st \<and> fs_sum_hex st = ss_hexdigest E s"
  using setsum.continuity_sums [OF setsum.intro [OF assms(1)] assms(2-5)] .

theorem lineage_is_continuous_witness:
  "\<exists>b s. continuity_log E3 g3 ''main'' = Ok [(''main'', l3)] \<and>
     lineage_base_sum E3 g3 ''main'' = Ok (ss_hexdigest E3 b) \<and> sums_from E3 b [l3] = Ok s \<and>
     ss_hexdigest E3 s = o64"
proof -
  have c: "continuity_log E3 g3 ''main'' = Ok [(''main'', l3)]" by (simp add: continuity_log_def g3_segments)
  have "rooted E3 g3 (fst (last [(''main'', [l3])]))" by (simp add: rooted_def g3_fork zero_hex_def)
  from lineage_is_continuous [OF sum_laws_E3 c g3_segments this g3_unsnapshotted]
  show ?thesis using c by (auto simp: g3_state) (auto simp: st3_def)
qed

text \<open>
  Where the hypothesis is needed.  After a snapshot of the only fork the base of its lineage is
  its current state, while its history still holds the lines that lead there: the first line's
  sum does not follow from the base, and a state before it cannot be read back.
\<close>

lemma snapshot_breaks_continuity:
  assumes "sum_laws E" "snapshot E fork r = Ok (h, r')" "current_state E r fork = Ok st"
    "bt_ok (rp_forks r)" "bt_ok (rp_anchors r)" "anchor_free E (fs_manifest st) r" "fork_names r' = [fork]"
  shows "lineage_base_sum E r' fork = Ok (fs_sum_hex st) \<and>
    continuity_log E r' fork = Ok (map (Pair fork) (fs_lines st))"
proof -
  from setsum.snapshot_keeps_state [OF setsum.intro [OF assms(1)] assms(2-6)]
  have "current_state E r' fork = Ok st" "read_fork r' fork = Ok \<lparr>ff_anchor = fs_sum_hex st, ff_manifest = fs_sum_hex st\<rparr>"
    by auto
  from snapshot_moves_base [OF this(2) _ this(1) assms(7)] show ?thesis by simp
qed

text \<open>C16. A fork removed without force is subsumed: every line it held is carried by a
  remaining fork, as the same line or as the origin of a union line.\<close>

theorem removed_fork_is_subsumed:
  assumes "remove_fork E name False r = Ok r'" "current_state E r name = Ok mine" "l \<in> set (fs_lines mine)"
  shows "\<exists>n st k. n \<noteq> name \<and> current_state E r' n = Ok st \<and> k \<in> set (fs_lines st) \<and>
    ll_id l \<in> set (carried_ids name k)"
  by (rule remove_fork_subsumed [OF assms])

theorem removed_fork_is_subsumed_witness:
  "\<exists>r' n st k. remove_fork E3 ''f'' False g4 = Ok r' \<and> n \<noteq> ''f'' \<and> current_state E3 r' n = Ok st \<and>
     k \<in> set (fs_lines st) \<and> ll_id l3 \<in> set (carried_ids ''f'' k)"
  using removed_fork_is_subsumed [OF g4_removable g4_state(1), of l3] g4_removable
  by (fastforce simp: st3_def)

text \<open>C17. The append of a union's batch is not atomic: a crash that leaves any number of its bytes
  in the log, in the middle of a line included, keeps exactly the lines written in full.  The
  fork reads with those, in their state, and what is left of the next line is dropped.  (The
  log had no torn tail, as its reading under the union's lock leaves it, and no line of the
  batch returns to the fork's anchor.)\<close>

theorem torn_batch_keeps_whole_lines:
  assumes "sum_laws E" "append_sealed_locked fork ls (concat pieces) r = Ok r1" "ls \<noteq> []"
    "current_state E r fork = Ok st" "read_fork r fork = Ok ff"
    "list_all2 (stored_as E (rp_pool r)) pieces ls" "lines_follow E (fs_head_id st) (fs_manifest st) ls m'"
    "\<forall>l \<in> set ls. ll_sum_after l \<noteq> ff_anchor ff" "log_bytes r fork = Ok old" "old = kept_log E r fork"
    "bt_ok (rp_forks r)" "bt_ok (rp_pool r)"
  shows "\<exists>k torn st'. take n (concat pieces) = concat (take k pieces) @ torn \<and> LF \<notin> set torn \<and>
      current_state E (cut_append fork old n t r1) fork = Ok st' \<and> fs_lines st' = fs_lines st @ take k ls \<and>
      lines_follow E (fs_head_id st) (fs_manifest st) (take k ls) (fs_manifest st')"
  using setsum.sealed_append_crash [OF setsum.intro [OF assms(1)] assms(2-12)] .

text \<open>Two lines, cut inside the second.\<close>

theorem torn_batch_keeps_whole_lines_witness:
  "\<exists>c d r1 st'. append_sealed_locked ''main'' [l3, l5] ((c @ [LF]) @ d @ [LF]) g0 = Ok r1 \<and> d \<noteq> [] \<and>
     current_state E3 (cut_append ''main'' [] (length c + 2) t0 r1) ''main'' = Ok st' \<and> fs_lines st' = [l3]"
proof -
  obtain c d where b: "list_all2 (stored_as E3 (rp_pool g0)) [c @ [LF], d @ [LF]] [l3, l5]" "d \<noteq> []" "LF \<notin> set d"
    "lines_follow E3 (fs_head_id st0) (fs_manifest st0) [l3, l5] [(''/a'', r3)]" using batch_l3_l5 by blast
  obtain e es where e: "d = e # es" using b(2) by (cases d) auto
  have "scan_log E3 [] = ([], 0)" by (subst scan_log.simps) simp
  then have k: "log_bytes g0 ''main'' = Ok []" "[] = kept_log E3 g0 ''main''"
    by (simp_all add: log_bytes_def kept_log_def read_log_def parse_log_lenient_def g0_def)
  obtain r1 where a: "append_sealed_locked ''main'' [l3, l5] (concat [c @ [LF], d @ [LF]]) g0 = Ok r1"
    by (simp add: append_sealed_locked_def g0_def)
  have "\<forall>l \<in> set [l3, l5]. ll_sum_after l \<noteq> z64" "bt_ok (rp_pool g0)"
    by (simp_all add: l5_def l3_def g0_def bt_ok_def)
  from torn_batch_keeps_whole_lines [OF sum_laws_E3 a _ g0_state g0_fork b(1,4) _ k _ this(2), of "length c + 2" t0] this(1)
  obtain j torn st' where
    j: "take (length c + 2) (concat [c @ [LF], d @ [LF]]) = concat (take j [c @ [LF], d @ [LF]]) @ torn" "LF \<notin> set torn"
      "current_state E3 (cut_append ''main'' [] (length c + 2) t0 r1) ''main'' = Ok st'"
      "fs_lines st' = fs_lines st0 @ take j [l3, l5]" by auto
  have cut: "take (length c + 2) (concat [c @ [LF], d @ [LF]]) = c @ [LF, e]" by (simp add: e)
  have "j = 1"
  proof (rule ccontr)
    assume "j \<noteq> 1"
    then consider "j = 0" | i where "j = Suc (Suc i)" by (metis One_nat_def not0_implies_Suc)
    then show False
    proof cases
      case 1
      with j(1) cut have "LF \<in> set torn" by (metis append_Nil concat.simps(1) in_set_conv_decomp take_0)
      with j(2) show False ..
    next
      case 2
      with j(1) cut have "c @ [LF, e] = (c @ [LF]) @ (d @ [LF]) @ torn" by simp
      then show False using b(3) by (auto simp: e)
    qed
  qed
  with a b(2) j(3,4) show ?thesis by (intro exI [of _ c] exI [of _ d] exI [of _ r1] exI [of _ st']) (simp add: st0_def)
qed

text \<open>C18. Collecting garbage keeps every fork: its state reads as before, and every blob of
  every state its lines replay to is still in the pool.\<close>

theorem collection_keeps_every_fork:
  assumes "sum_laws E" "gc_blobs E False r = Ok (collected, r')" "bt_has (rp_forks r) n"
  shows "\<exists>st. current_state E r n = Ok st \<and> current_state E r' n = Ok st \<and>
    (\<forall>ls m0 m ff. set ls \<subseteq> set (fs_lines st) \<longrightarrow> read_fork r n = Ok ff \<longrightarrow>
       read_anchor_manifest E r (ff_manifest ff) = Ok m0 \<longrightarrow> replay_lines ls m0 = Ok m \<longrightarrow>
       (\<forall>x \<in> set (records m). blob_get (rp_pool r') (er_blob x) = blob_get (rp_pool r) (er_blob x)))"
  using setsum.gc_keeps_state [OF setsum.intro [OF assms(1)] assms(2,3)] .

theorem collection_keeps_every_fork_witness:
  "\<exists>collected r'. gc_blobs E3 False g3 = Ok (collected, r') \<and> current_state E3 r' ''main'' = Ok st3"
proof -
  have "is_ok (referenced_blobs E3 g3)"
    by (simp add: referenced_blobs_def g3_names fork_refs_def g3_fork g3_state log_bytes_def)
       (simp add: g3_forks read_anchor_manifest_def g0_anchor [unfolded read_anchor_manifest_def] st3_def
         line_refs_def l3_def added_def)
  then obtain refs where "referenced_blobs E3 g3 = Ok refs" by (auto simp: is_ok_iff)
  then have "is_ok (gc_blobs E3 False g3)"
    by (simp add: gc_blobs_def gc_step_def g3_forks blob_list_def bt_keys_def blob_remove_def path_for_def)
  then obtain collected r' where g: "gc_blobs E3 False g3 = Ok (collected, r')"
    by (cases "gc_blobs E3 False g3") auto
  have "bt_has (rp_forks g3) ''main''" by (simp add: g3_forks bt_has_def)
  from collection_keeps_every_fork [OF sum_laws_E3 g this] show ?thesis using g g3_state by auto
qed

section \<open>Diffs\<close>

text \<open>C19. The intent synthesized from the difference of two states, whose contents the pool
  holds, is accepted on the first and yields the second.\<close>

theorem synthesized_intent_reaches_the_target:
  assumes "pool_ok E pool" "m_ok m" "m_ok m'"
    "\<forall>r \<in> set (records m) \<union> set (records m'). bt_has pool (er_blob r)"
  shows "\<exists>i rz. synthesize_intent (diff_manifests m m') (blob_get pool) = Ok i \<and>
    apply_intent E i m pool = Ok (m', rz)"
  by (rule synthesized_intent_applies [OF assms])

theorem synthesized_intent_reaches_the_target_witness:
  "\<exists>i rz. synthesize_intent (diff_manifests m0 [(''/b'', r0\<lparr>er_path := ''/b''\<rparr>)]) (blob_get p0) = Ok i \<and>
     apply_intent E0 i m0 p0 = Ok ([(''/b'', r0\<lparr>er_path := ''/b''\<rparr>)], rz)"
proof -
  have "validate_path ''/b'' = Ok ()" by code_simp
  then have "m_ok [(''/b'', r0\<lparr>er_path := ''/b''\<rparr>)]" using r0_valid
    by (simp add: m_ok_def bt_ok_def er_valid_iff)
  moreover have "\<forall>r \<in> set (records m0) \<union> set (records [(''/b'', r0\<lparr>er_path := ''/b''\<rparr>)]). bt_has p0 (er_blob r)"
    by (auto simp: records_def bt_values_def m0_def p0_def r0_def bt_has_def)
  ultimately show ?thesis by (rule synthesized_intent_reaches_the_target [OF p0_ok m0_ok])
qed

text \<open>C20. The line script is a script of the two texts, and none has fewer changes.\<close>

theorem line_script_is_shortest:
  "script a b 0 0 (lcs_edits a b) \<and> (\<forall>es. script a b 0 0 es \<longrightarrow> changes (lcs_edits a b) \<le> changes es)"
  using lcs_edits_script lcs_edits_shortest by blast

theorem line_script_is_shortest_witness:
  "script [''a'', ''b''] [''b''] 0 0 [Delete_line 0, Equal 1 0] \<and>
   changes (lcs_edits [''a'', ''b''] [''b'']) \<le> changes [Delete_line 0, Equal 1 0]"
proof -
  have "script [''a'', ''b''] [''b''] 2 1 []" using script.finished [of "[''a'', ''b'']" "[''b'']"] by simp
  then have "script [''a'', ''b''] [''b''] 1 0 [Equal 1 0]" by (intro same) simp_all
  then have "script [''a'', ''b''] [''b''] 0 0 [Delete_line 0, Equal 1 0]" by (intro drops) simp_all
  with line_script_is_shortest [of "[''a'', ''b'']" "[''b'']"] show ?thesis by blast
qed

text \<open>The changed byte ranges carry the change: the old text with each range replaced by
  its counterpart is the new text.\<close>

theorem changed_ranges_rebuild_the_new_text:
  assumes "changed_ranges old new = Some rs" shows "splice old new rs = Some new"
  by (rule changed_ranges_splice [OF assms])

theorem changed_ranges_rebuild_the_new_text_witness:
  "\<exists>rs. changed_ranges [CHR ''a'', LF, CHR ''b'', LF] [CHR ''a'', LF, CHR ''c'', LF] = Some rs \<and>
     splice [CHR ''a'', LF, CHR ''b'', LF] [CHR ''a'', LF, CHR ''c'', LF] rs = Some [CHR ''a'', LF, CHR ''c'', LF]"
proof -
  have "changed_ranges [CHR ''a'', LF, CHR ''b'', LF] [CHR ''a'', LF, CHR ''c'', LF] \<noteq> None"
    by code_simp
  then show ?thesis using changed_ranges_rebuild_the_new_text by blast
qed

text \<open>C21. The edit synthesized for two texts exists and is exact: its old side occurs once in
  the old text, and replacing it gives the new one.  The widening loop always ends.\<close>

theorem synthesized_edit_is_exact:
  assumes "utf8 old" "utf8 new" "old \<noteq> []"
  shows "\<exists>a b. synthesize_edit old new = Ok (Some (a, b)) \<and> replace_unique old a b = Ok new"
  by (rule synthesize_edit_Ok [OF assms])

theorem synthesized_edit_is_exact_witness:
  "\<exists>a b. synthesize_edit ''aba'' ''abba'' = Ok (Some (a, b)) \<and> replace_unique ''aba'' a b = Ok ''abba''"
proof -
  have "utf8 ''aba''" "utf8 ''abba''" by (rule ascii_utf8; auto simp: byte_def)+
  then show ?thesis by (rule synthesized_edit_is_exact) simp
qed

section \<open>Segments and their store\<close>

text \<open>C22. A built segment opens under the hashes it was built with and gives back what was put
  in: every blob, dictionary and log span, and an entry for every construct.\<close>

theorem built_segment_gives_back_its_inputs:
  assumes "digest_law E" "zstd_law E" "build_segment E xs level = Ok g"
    "list_all input_valid xs" "length (plain_of xs) < 2 ^ 63"
  shows "\<exists>s. segment_open E (bs_pk g) (bs_idx g) (bs_pk_sha3 g) (bs_idx_sha3 g) = Ok s \<and>
    length (sg_entries s) = bs_entries g \<and> sg_frames s = [plain_of xs] \<and>
    (\<forall>x \<in> set xs. stores_entry x \<longrightarrow> (\<exists>e \<in> set (sg_entries s).
       input_entry E (plain_of xs) x e \<and>
       (\<forall>c. input_content x = Some c \<longrightarrow> materialize E fb fl s e = Ok c)))"
  by (rule built_segment_opens [OF assms])

theorem built_segment_gives_back_its_inputs_witness:
  "\<exists>g s e. build_segment E0 [SBlob ''hi''] 3 = Ok g \<and>
     segment_open E0 (bs_pk g) (bs_idx g) (bs_pk_sha3 g) (bs_idx_sha3 g) = Ok s \<and> e \<in> set (sg_entries s) \<and>
     materialize E0 (\<lambda>_. Err Corrupt) (\<lambda>_. Err Corrupt) s e = Ok ''hi''"
proof -
  have "is_ok (build_segment E0 [SBlob ''hi''] 3)"
    by (simp add: build_segment_def Let_def) (simp add: E0_def)
  then obtain g where g: "build_segment E0 [SBlob ''hi''] 3 = Ok g" by (auto simp: is_ok_iff)
  have "list_all input_valid [SBlob ''hi'']" "length (plain_of [SBlob ''hi'']) < 2 ^ 63" "stores_entry (SBlob ''hi'')"
    by (simp_all add: input_valid_def plain_of_def stores_entry_def)
  with built_segment_gives_back_its_inputs [OF digest_law_E0 zstd_law_E0 g, of "\<lambda>_. Err Corrupt" "\<lambda>_. Err Corrupt"] g
  show ?thesis by fastforce
qed

text \<open>C23. Resolving constructs is live: when each construct can be replayed once its base is
  there, and every base is stored or produced by a construct of smaller rank, all resolve:
  every construct's blob is in the pool afterwards, every blob in it is the one its name
  hashes, and none that was there is lost.\<close>

theorem constructs_all_resolve:
  assumes "named E b" "\<forall>p \<in> set ps. ready E opened ls b p" "founded rank b ps"
  shows "\<exists>b'. resolve_constructs E opened ls ps b = Ok b' \<and> named E b' \<and> covers b' b \<and>
    (\<forall>p \<in> set ps. bt_has b' (ie_sha3 (snd p)))"
  using resolve_constructs_live [OF assms] resolve_constructs_Ok [OF assms(1)] by blast

text \<open>A construct of an empty pool, in an environment that hashes everything to one digest.\<close>

theorem constructs_all_resolve_witness:
  "\<exists>E ls b'. resolve_constructs (E :: 256 word env) [(''s'', \<lparr>sg_entries = [], sg_frames = []\<rparr>)] ls
     [(''s'', \<lparr>ie_sha3 = EMPTY_BLOB, ie_frame = 0, ie_offset = 0, ie_len = 1, ie_enc = Construct EMPTY_BLOB ''L''\<rparr>)] [] = Ok b' \<and>
     bt_has b' EMPTY_BLOB"
proof -
  let ?p = "(''s'', \<lparr>ie_sha3 = EMPTY_BLOB, ie_frame = 0, ie_offset = 0, ie_len = 1, ie_enc = Construct EMPTY_BLOB ''L''\<rparr>)"
  define d :: bytes where "d = [CHR 0xA7, CHR 0xFF, CHR 0xC6, CHR 0xF8, CHR 0xBF, CHR 0x1E, CHR 0xD7, CHR 0x66, CHR 0x51, CHR 0xC1, CHR 0x47,
      CHR 0x56, CHR 0xA0, CHR 0x61, CHR 0xD6, CHR 0x62, CHR 0xF5, CHR 0x80, CHR 0xFF, CHR 0x4D, CHR 0xE4, CHR 0x3B,
      CHR 0x49, CHR 0xFA, CHR 0x82, CHR 0xD8, CHR 0x0A, CHR 0x4B, CHR 0x80, CHR 0xF8, CHR 0x43, CHR 0x4A]"
  define E where "E = E3\<lparr>digest := \<lambda>_. d\<rparr>"
  define r where "r = r3\<lparr>er_blob := EMPTY_BLOB\<rparr>"
  define l where "l = l3\<lparr>ll_realized := [\<lparr>re_remove = None, re_add = Some (er_to_line r)\<rparr>]\<rparr>"
  have sha: "sha3_hex E x = EMPTY_BLOB" for x
  proof -
    have "sha3_hex E x = hex d" by (simp add: sha3_hex_def E_def)
    also have "\<dots> = EMPTY_BLOB" unfolding d_def by code_simp
    finally show ?thesis .
  qed
  have v: "er_valid r" "is_hex64 EMPTY_BLOB"
  proof -
    show "is_hex64 EMPTY_BLOB" by code_simp
    then show "er_valid r" using r3_valid by (simp add: r_def er_valid_iff)
  qed
  have "decode ''eA=='' = Ok ''x''" by code_simp
  then have c: "construct_blob E x l EMPTY_BLOB = Ok ''x''" for x
    using v by (simp add: construct_blob_def l_def added_def) (simp add: sha r_def r3_def l3_def i3_def)
  have n: "named E []" by (simp add: named_def bt_ok_def)
  have r: "\<forall>p \<in> set [?p]. ready E [(''s'', \<lparr>sg_entries = [], sg_frames = []\<rparr>)] [(''L'', l)] [] p"
    by (auto simp: ready_def avail_def bt_has_def materialize_def decode_item_def from_map_def c sha)
  have f: "founded (\<lambda>_. 0) [] [?p]" by (simp add: founded_def avail_def bt_has_def)
  from constructs_all_resolve [OF n r f] obtain b' where
    b: "resolve_constructs E [(''s'', \<lparr>sg_entries = [], sg_frames = []\<rparr>)] [(''L'', l)] [?p] [] = Ok b'"
      "\<forall>p \<in> set [?p]. bt_has b' (ie_sha3 (snd p))" by blast
  from b(2) have "bt_has b' EMPTY_BLOB" by simp
  with b(1) show ?thesis by blast
qed

text \<open>C24. The inputs of a push are cut into segments without loss: in order, none empty, each
  but the last holding at least the target, and none reaching it before its last input.\<close>

theorem cuts_partition_within_bounds:
  assumes "plain_sum xs < 2 ^ 64"
  shows "concat (cut_inputs t [] 0 xs) = xs \<and> (\<forall>ys \<in> set (cut_inputs t [] 0 xs). ys \<noteq> []) \<and>
    (\<forall>ys \<in> set (butlast (cut_inputs t [] 0 xs)). plain_sum ys \<ge> t) \<and>
    (\<forall>ys \<in> set (cut_inputs t [] 0 xs). butlast ys \<noteq> [] \<longrightarrow> plain_sum (butlast ys) < t)"
  using cut_inputs_sizes [of 0 "[]" xs t] assms
  by (simp add: cut_inputs_concat plain_sum_def) (metis cut_inputs_nonempty)

theorem cuts_partition_within_bounds_witness:
  "concat (cut_inputs 3 [] 0 [SBlob ''ab'', SBlob ''cd'', SBlob ''e'']) = [SBlob ''ab'', SBlob ''cd'', SBlob ''e'']"
  using cuts_partition_within_bounds [of "[SBlob ''ab'', SBlob ''cd'', SBlob ''e'']" 3]
  by (simp add: plain_sum_def)

text \<open>C25. Probing for newer manifests ends at the tip: the answer extends the manifest it
  started from link by link and nothing is stored behind it; and it finds any such manifest.\<close>

theorem probe_finds_the_tip:
  "probe E get m = Ok m' \<longleftrightarrow> extends E get m m' \<and> tip get m'"
  by (rule probe_iff)

text \<open>C26. Restoring derives its anchors or refuses: the derivation always ends, every state it
  derives is well-formed and filed under its own sum, nothing known is lost, and it accepts
  only when every anchor is known.\<close>

theorem derived_anchors_are_states:
  assumes "sum_laws E" "derive_anchors E logs unresolved known = Ok known'" "known_ok E known"
  shows "known_ok E known' \<and> grows known known' \<and> (\<forall>a \<in> set unresolved. bt_has known' a)"
  using setsum.derive_anchors_Ok [OF setsum.intro [OF assms(1)] assms(2,3)] .

theorem derived_anchors_are_states_witness:
  "\<exists>known'. derive_anchors E3 [([l3], Some z64)] [o64] [(z64, [])] = Ok known' \<and> known_ok E3 known' \<and>
     bt_has known' o64"
proof -
  have a: "apply_realized_to_manifest [] (realized rz3) = Ok [(''/a'', r3)]"
    using apply_intent_realizes [OF _ i3_applies] by (simp add: m_ok_def bt_ok_def)
  have s: "apply_realized_to_sum E3 0 (ll_realized l3) = Ok 1"
    by (simp add: l3_def apply_realized_to_sum_def entry_to_sum_def removed_def added_def
        remove_side_sum_def insert_side_sum_def)
  have z: "sum_from_hexdigest E3 z64 = Ok 0"
    using E3.sum_from_rendered [of 0] by simp
  have o: "ll_sum_after l3 = o64" by (simp add: l3_def)
  have "derive_round E3 [([l3], Some z64)] [(z64, [])] = bt_insert o64 [(''/a'', r3)] [(z64, [])]"
    using a by (simp add: derive_round_def derive_def z s o bt_has_def rz3_def)
  moreover have "bt_has (bt_insert o64 [(''/a'', r3)] [(z64, [])]) o64"
    by (simp add: bt_has_def bt_get_insert bt_ok_def)
  moreover have "derive_anchors E3 logs [] k = Ok k" for logs k
    by (simp add: derive_anchors.simps [of E3 logs "[]"])
  ultimately have "is_ok (derive_anchors E3 [([l3], Some z64)] [o64] [(z64, [])])"
    by (simp add: derive_anchors.simps [of E3 _ "[o64]"] Let_def del: bt_insert.simps)
  then obtain known' where k: "derive_anchors E3 [([l3], Some z64)] [o64] [(z64, [])] = Ok known'"
    by (auto simp: is_ok_iff)
  have "known_ok E3 [(z64, [])]" by (simp add: known_ok_def bt_ok_def m_ok_def)
  from derived_anchors_are_states [OF sum_laws_E3 k this] k show ?thesis by simp
qed

section \<open>Unions\<close>

text \<open>C27. A union is all or nothing: when it lands no line, every fork reads as before; when
  it lands lines, the target is extended by exactly these, each naming the source line it
  comes from, and a crash afterwards does not lose them; the other forks read as before.\<close>

theorem union_is_all_or_nothing:
  assumes "sum_laws E" "union E now source target author r = Ok (out, r')"
    "pool_ok E (rp_pool r)" "bt_ok (rp_forks r)" "\<forall>d \<in> set (uo_landed out). readable E (ld_line d)"
    "read_fork r target = Ok ff" "\<forall>d \<in> set (uo_landed out). ll_sum_after (ld_line d) \<noteq> ff_anchor ff"
    "current_state E (crashed r) target = Ok ts"
  shows "(uo_landed out = [] \<longrightarrow> (\<forall>n st. current_state E r n = Ok st \<longrightarrow> current_state E r' n = Ok st)) \<and>
    (uo_landed out \<noteq> [] \<longrightarrow> crashed r' = r' \<and>
      (\<exists>st'. current_state E r' target = Ok st' \<and> fs_lines st' = fs_lines ts @ map ld_line (uo_landed out) \<and>
        lines_follow E (fs_head_id ts) (fs_manifest ts) (map ld_line (uo_landed out)) (fs_manifest st')) \<and>
      (\<forall>d \<in> set (uo_landed out). an_origin (ll_annotation (ld_line d)) =
        Some \<lparr>origin_fork = source, origin_id = ld_origin_id d\<rparr>) \<and>
      (\<forall>n st. n \<noteq> target \<longrightarrow> current_state E (crashed r) n = Ok st \<longrightarrow> current_state E r' n = Ok st))"
  using setsum.union_unlanded [OF setsum.intro [OF assms(1)] assms(2) _ assms(3,4)]
    setsum.union_landed [OF setsum.intro [OF assms(1)] assms(2) _ assms(3-8)] by blast

theorem union_is_all_or_nothing_witness:
  "\<exists>r' st'. union E3 7 ''f'' ''main'' ''me'' g5 = Ok (out5, r') \<and> crashed r' = r' \<and>
     current_state E3 r' ''main'' = Ok st' \<and> fs_lines st' = [l4] \<and> current_state E3 r' ''f'' = Ok st3"
proof -
  obtain r' where u: "union E3 7 ''f'' ''main'' ''me'' g5 = Ok (out5, r')" using g5_union by blast
  have c: "current_state E3 (crashed g5) ''main'' = Ok st0" by (simp add: g5_state)
  have "\<forall>d \<in> set (uo_landed out5). readable E3 (ld_line d)"
    "\<forall>d \<in> set (uo_landed out5). ll_sum_after (ld_line d) \<noteq> z64" by (simp_all add: out5_def) (simp add: l4_def l3_def)
  with union_is_all_or_nothing [OF sum_laws_E3 u _ _ _ g5_fork(1) _ c] u g5_state
  show ?thesis by (auto simp: out5_def st0_def)
qed

text \<open>C28. Union is idempotent: after a complete union of two forks that differed, a second one
  lands nothing and reports nothing.\<close>

theorem union_is_idempotent:
  assumes "sum_laws E" "union E now source target author r = Ok (out, r')" "outcome_complete out"
    "\<not> uo_already_identical out" "pool_ok E (rp_pool r)" "bt_ok (rp_forks r)"
    "\<forall>d \<in> set (uo_landed out). readable E (ld_line d)"
    "read_fork r target = Ok ff" "\<forall>d \<in> set (uo_landed out). ll_sum_after (ld_line d) \<noteq> ff_anchor ff"
    "current_state E (crashed r) target = Ok ts" "source \<noteq> target" "current_state E (crashed r) source = Ok ss"
    "union E now' source target author' r' = Ok (out2, r2)"
  shows "uo_landed out2 = [] \<and> outcome_complete out2"
  using setsum.union_twice [OF setsum.intro [OF assms(1)] assms(2-13)] .

theorem union_is_idempotent_witness:
  "\<exists>r' out2 r2. union E3 7 ''f'' ''main'' ''me'' g5 = Ok (out5, r') \<and>
     union E3 7 ''f'' ''main'' ''me'' r' = Ok (out2, r2) \<and> uo_landed out2 = [] \<and> outcome_complete out2"
proof -
  obtain r' where u: "union E3 7 ''f'' ''main'' ''me'' g5 = Ok (out5, r')" using g5_union by blast
  obtain out2 r2 where u2: "union E3 7 ''f'' ''main'' ''me'' r' = Ok (out2, r2)" using g5_union_again [OF u] by blast
  have c: "current_state E3 (crashed g5) ''main'' = Ok st0" "current_state E3 (crashed g5) ''f'' = Ok st3"
    by (simp_all add: g5_state)
  have o: "outcome_complete out5" "\<not> uo_already_identical out5" by (simp_all add: out5_def outcome_complete_def)
  have l: "\<forall>d \<in> set (uo_landed out5). readable E3 (ld_line d)" by (simp add: out5_def)
  have a: "\<forall>d \<in> set (uo_landed out5). ll_sum_after (ld_line d) \<noteq> z64" by (simp add: out5_def l4_def l3_def)
  have "uo_landed out2 = [] \<and> outcome_complete out2"
    using union_is_idempotent [OF sum_laws_E3 u o g5_ok(1,2) l g5_fork(1) _ c(1) _ c(2) u2] a by simp
  with u u2 show ?thesis by blast
qed

text \<open>C29. After a complete union the source is subsumed and can be removed without force, provided
  the forks' states differed when the union began, or the target already carried every line of
  the source but its fuses.  (Forks that came to one state by edits of their own union
  completely and land no edit, and the source's lines stay its own: the removal is refused,
  \<open>identical_edits_stay_unmerged\<close> of \<open>Union\<close>.)\<close>

theorem merged_fork_is_removable:
  assumes "sum_laws E" "union E now source target author r = Ok (out, r')" "outcome_complete out"
    "\<not> uo_already_identical out \<or> (\<forall>l \<in> set (fs_lines ss). an_fuse (ll_annotation l) = None \<longrightarrow>
      (\<exists>k \<in> set (fs_lines ts). ll_id l \<in> set (carried_ids source k)))"
    "pool_ok E (rp_pool r)" "bt_ok (rp_forks r)"
    "\<forall>d \<in> set (uo_landed out). readable E (ld_line d)"
    "read_fork r target = Ok ff" "\<forall>d \<in> set (uo_landed out). ll_sum_after (ld_line d) \<noteq> ff_anchor ff"
    "current_state E (crashed r) target = Ok ts" "source \<noteq> target" "current_state E (crashed r) source = Ok ss"
    "source \<noteq> ''main''" "\<forall>n \<in> set (fork_names r). \<exists>st. current_state E (crashed r) n = Ok st"
  shows "\<exists>r2. remove_fork E source False r' = Ok r2"
  using setsum.union_then_remove [OF setsum.intro [OF assms(1)] assms(2-14)] .

theorem merged_fork_is_removable_witness:
  "\<exists>r' r2. union E3 7 ''f'' ''main'' ''me'' g5 = Ok (out5, r') \<and> remove_fork E3 ''f'' False r' = Ok r2"
proof -
  obtain r' where u: "union E3 7 ''f'' ''main'' ''me'' g5 = Ok (out5, r')" using g5_union by blast
  have c: "current_state E3 (crashed g5) ''main'' = Ok st0" "current_state E3 (crashed g5) ''f'' = Ok st3"
    by (simp_all add: g5_state)
  have o: "outcome_complete out5" "\<not> uo_already_identical out5" by (simp_all add: out5_def outcome_complete_def)
  have l: "\<forall>d \<in> set (uo_landed out5). readable E3 (ld_line d)" by (simp add: out5_def)
  have a: "\<forall>d \<in> set (uo_landed out5). ll_sum_after (ld_line d) \<noteq> z64" by (simp add: out5_def l4_def l3_def)
  have n: "\<forall>n \<in> set (fork_names g5). \<exists>st. current_state E3 (crashed g5) n = Ok st"
    using c by (simp add: fork_names_def g5_def bt_keys_def)
  have "\<exists>r2. remove_fork E3 ''f'' False r' = Ok r2"
    using merged_fork_is_removable [OF sum_laws_E3 u o(1) disjI1 [OF o(2)] g5_ok(1,2) l g5_fork(1) _ c(1) _ c(2) _ n] a by simp
  with u show ?thesis by blast
qed

text \<open>C30. A line without an intent, as a repoint and an import record them, lands as an empty
  change when its delta does not apply to the target: nothing of it is kept, and it is
  reported as landed by its intent instead of stopping the union.\<close>

theorem union_drops_changes_without_intent:
  assumes "ops (ll_intent l) = []" "\<not> is_ok (apply_realized_to_manifest m (ll_realized l))"
  shows "replay_line E l m pool = Ok (Some ([], IntentReplay, m, pool))"
  by (rule empty_intent_lands_nothing [OF assms])

theorem union_drops_changes_without_intent_witness:
  "\<exists>es. es \<noteq> [] \<and> apply_realized_to_manifest [] es = Ok [(''/a'', r3)] \<and>
     replay_line E3 (l3\<lparr>ll_intent := \<lparr>ops = []\<rparr>, ll_realized := es\<rparr>) [(''/a'', r3)] [] =
       Ok (Some ([], IntentReplay, [(''/a'', r3)], []))"
proof -
  have "\<not> is_ok (apply_realized_to_manifest [(''/a'', r3)] (ll_realized l3))"
    by (simp add: l3_def apply_realized_to_manifest_def entry_to_manifest_def removed_def added_def
        remove_side_def insert_side_def m_insert_def bt_has_def) (simp add: r3_def)
  then have "replay_line E3 (l3\<lparr>ll_intent := \<lparr>ops = []\<rparr>, ll_realized := ll_realized l3\<rparr>) [(''/a'', r3)] [] =
       Ok (Some ([], IntentReplay, [(''/a'', r3)], []))"
    by (intro union_drops_changes_without_intent) simp_all
  then show ?thesis using l3_applies by (intro exI [of _ "ll_realized l3"]) (simp add: l3_def)
qed

section \<open>Push planning\<close>

text \<open>C32. A push plan carries, in order, each blob that is missing from the remote exactly once, as
  its bytes or as a construct; a construct replays from a base the remote has or the plan
  carries, at a depth of at most the keyframe interval.\<close>

theorem push_plan_carries_what_is_missing:
  assumes "push_plan E r view synced pol = Ok p" "depths_live view"
  shows "\<exists>blobs spans depth. pn_inputs p = blobs @ map span_input spans \<and>
    list_all2 (carries (rp_pool r)) (blobs_to_send (rp_pool r) view) blobs \<and>
    (\<forall>h base i. SConstruct h base i \<in> set blobs \<longrightarrow>
       construct_planned E (rp_pool r) view (po_keyframe_interval pol) spans depth h base i) \<and>
    (\<forall>h d. bt_get (rv_depth view) h = Some d \<longrightarrow> depth h = d)"
  by (rule push_plan_blobs [OF assms])

theorem push_plan_carries_what_is_missing_witness:
  "\<exists>p spans depth. push_plan E3 g3 view_empty [] default_policy = Ok p \<and>
     construct_planned E3 [(z64, ''x'', True)] view_empty 32 spans depth z64 EMPTY_BLOB z64"
proof -
  obtain p bs where p: "push_plan E3 g3 view_empty [] default_policy = Ok p"
    "pn_inputs p = [SConstruct z64 EMPTY_BLOB z64, SLogSpan ''main'' bs [z64]]" using plan_g3 by blast
  have "depths_live view_empty" by (simp add: depths_live_def view_empty_def bt_has_def)
  from push_plan_carries_what_is_missing [OF p(1) this] obtain blobs spans depth where
    b: "pn_inputs p = blobs @ map span_input spans"
    "\<forall>h base i. SConstruct h base i \<in> set blobs \<longrightarrow>
       construct_planned E3 (rp_pool g3) view_empty (po_keyframe_interval default_policy) spans depth h base i" by blast
  have "SConstruct z64 EMPTY_BLOB z64 \<notin> set (map span_input spans)"
    by (auto simp: span_input_def split: prod.splits)
  then have "SConstruct z64 EMPTY_BLOB z64 \<in> set blobs" using b(1) p(2) by (metis list.set_intros(1) Un_iff set_append)
  with b(2) have "construct_planned E3 (rp_pool g3) view_empty (po_keyframe_interval default_policy) spans depth z64 EMPTY_BLOB z64"
    by blast
  moreover have "po_keyframe_interval default_policy = 32" by (simp add: default_policy_def)
  ultimately show ?thesis using p(1) unfolding g3_forks(3) by metis
qed

text \<open>C33. A push only moves the remote's forks forward: a planned head is the head of the fork's
  log, which holds the line the remote's head names, the span sent is what lies behind it, and
  a fork whose remote log has left the local one refuses the plan.\<close>

theorem push_plan_fast_forwards:
  assumes "push_plan E r view synced pol = Ok p" "bt_ok (rp_forks r)"
  shows "(\<forall>n h. bt_get (pn_heads p) n = Some h \<longrightarrow> head_forwarded E r (remote_forks view) n h) \<and>
    (\<forall>n \<in> set (fork_names r). not_diverged E r (remote_forks view) synced n) \<and>
    (\<exists>blobs spans. pn_inputs p = blobs @ map span_input spans \<and>
       (\<forall>s \<in> set spans. span_forwarded E r (remote_forks view) s))"
  by (rule push_plan_forwards [OF assms])

theorem push_plan_fast_forwards_witness:
  "\<exists>h. head_forwarded E3 g3 (remote_forks view_empty) ''main'' h \<and>
     not_diverged E3 g3 (remote_forks view_empty) [] ''main''"
proof -
  obtain p where p: "push_plan E3 g3 view_empty [] default_policy = Ok p"
    "pn_heads p = [(''main'', \<lparr>fh_anchor = z64, fh_head_id = z64, fh_head_sum = o64, fh_log_segments = []\<rparr>)]"
    using plan_g3 by blast
  have "bt_ok (rp_forks g3)" by (simp add: g3_forks bt_ok_def)
  note f = push_plan_fast_forwards [OF p(1) this]
  have "bt_get (pn_heads p) ''main'' = Some \<lparr>fh_anchor = z64, fh_head_id = z64, fh_head_sum = o64, fh_log_segments = []\<rparr>"
    using p(2) by simp
  with f have "head_forwarded E3 g3 (remote_forks view_empty) ''main''
      \<lparr>fh_anchor = z64, fh_head_id = z64, fh_head_sum = o64, fh_log_segments = []\<rparr>" by blast
  moreover have "not_diverged E3 g3 (remote_forks view_empty) [] ''main''" using f by (simp add: g3_names)
  ultimately show ?thesis by blast
qed

text \<open>C35. Compaction folds the greatest set of small segments that ends every fork's segment list:
  no list is folded in its middle, and no larger choice has that property.\<close>

theorem compaction_takes_the_greatest_set:
  "set (compaction_candidates base pol) \<subseteq> small_segments base pol \<and>
   (\<forall>(fork, h) \<in> set (sm_forks base). ends_list (set (compaction_candidates base pol)) (fh_log_segments h)) \<and>
   (\<forall>D \<subseteq> small_segments base pol. (\<forall>(fork, h) \<in> set (sm_forks base). ends_list D (fh_log_segments h)) \<longrightarrow>
      D \<subseteq> set (compaction_candidates base pol))"
  by (rule candidates_greatest)

theorem compaction_takes_the_greatest_set_witness:
  "set (compaction_candidates base2 default_policy) = {''t''}"
proof -
  have sm: "small_segments base2 default_policy = {''s'', ''t''}"
  proof -
    have "\<not> me_bytes (meta2 (2 ^ 30)) < po_small_segment default_policy" "me_bytes (meta2 1) < po_small_segment default_policy"
      by (simp_all add: meta2_def default_policy_def)
    moreover have "sm_segments base2 = [(''b'', meta2 (2 ^ 30)), (''s'', meta2 1), (''t'', meta2 1)]" by (simp add: base2_def)
    ultimately show ?thesis unfolding small_segments_def by auto
  qed
  have forks: "sm_forks base2 = [(''main'', main2)]" "fh_log_segments main2 = [''s'', ''b'', ''t'']"
    by (simp_all add: base2_def main2_def)
  let ?C = "set (compaction_candidates base2 default_policy)"
  note g = compaction_takes_the_greatest_set [of base2 default_policy, unfolded sm forks(1)]
  from g have "?C \<subseteq> {''s'', ''t''}" by blast
  moreover from g have "ends_list ?C [''s'', ''b'', ''t'']" unfolding forks(2) [symmetric] by simp
  ultimately have "?C \<subseteq> {''t''}" unfolding ends_s_b_t by auto
  moreover have "ends_list {''t''} [''s'', ''b'', ''t'']" unfolding ends_s_b_t by simp
  then have "{''t''} \<subseteq> ?C"
    using g [THEN conjunct2, THEN conjunct2, rule_format, of "{''t''}"] forks(2) by simp
  ultimately show ?thesis by (rule equalityI)
qed

text \<open>C34. An assembled manifest accounts for everything: its image is the image of the manifest
  it continues plus the image of what the push adds, compacted segments included.\<close>

theorem assembled_manifest_accounts_for_everything:
  assumes "sum_laws E" "assemble E get c pool view p pol = Ok (Some a, c')"
    "bt_ok (sm_segments (view_base view))"
    "segids_fresh (view_base view) (sm_retire (as_manifest a)) (as_segments a)"
    "total_image E (view_base view) = Ok t"
  shows "total_image E (as_manifest a) =
    Ok (ss_add E t (image_setsum E (concat (map (input_items E) (pn_inputs p)))))"
  by (rule setsum.assembled_image [OF setsum.intro [OF assms(1)] assms(2-5)])

theorem assembled_manifest_accounts_for_everything_witness:
  "\<exists>a. assemble E3 (\<lambda>name. Ok None) cache_empty [] view_empty plan0 default_policy = Ok (Some a, cache_empty) \<and>
     as_manifest a = manifest1 \<and> total_image E3 manifest1 = Ok (ss_add E3 (ss_zero E3) (image_setsum E3 []))"
proof -
  have b: "view_base view_empty = empty_base" by (simp add: view_base_def view_empty_def)
  have f: "bt_ok (sm_segments (view_base view_empty))"
    "segids_fresh (view_base view_empty) (sm_retire manifest1) ([] :: 256 word built_segment list)"
    "total_image E3 (view_base view_empty) = Ok (ss_zero E3)"
    by (simp_all add: b empty_base_def bt_ok_def segids_fresh_def total_image_def bt_values_def)
  from assembled_manifest_accounts_for_everything [OF sum_laws_E3 assemble_g0 _ _ f(3)] f(1,2)
  have "total_image E3 manifest1 = Ok (ss_add E3 (ss_zero E3) (image_setsum E3 []))"
    by (simp add: plan0_def)
  with assemble_g0 [of "\<lambda>name. Ok None" cache_empty "[]"] show ?thesis by auto
qed

section \<open>Push and clone\<close>




text \<open>A push nobody races needs one attempt.\<close>

theorem undisturbed_push_needs_one_attempt:
  assumes "push E parse r pol (\<lambda>k i s. s) c s = Ok (out, st')" "bt_ok s"
  shows "po_attempts out = 1"
  by (rule undisturbed_push [OF assms])

theorem undisturbed_push_needs_one_attempt_witness:
  "\<exists>out st'. push E3 any_path g0 default_policy (\<lambda>k i s. s) cache_empty [] = Ok (out, st') \<and> po_attempts out = 1"
  using push0 undisturbed_push_needs_one_attempt [of E3 any_path g0 default_policy cache_empty "[]"]
  by (fastforce simp: bt_ok_def)

section \<open>Views\<close>

text \<open>C40. The fused view renders the whole log in order.  It is a list of events in the strict order of
  their places: one beat for each selected fuse of the log whose ends name lines of it, first
  occurrences, in order, at its first line, with the lines of its span; and, at its own place,
  every line that is under no such beat and is not the fuse of one.  Nothing else is rendered.\<close>

theorem view_renders_every_line:
  "\<exists>evs. fused_beats ls view = map (rendered ls) evs \<and> sorted_wrt (<) (map place evs) \<and>
     set evs = {BeatOver a b idx | a b idx. resolved_fuse ls view a b idx} \<union>
       {LineAt j | j. j < length ls \<and> \<not> (\<exists>a b idx. resolved_fuse ls view a b idx \<and> (j = idx \<or> a \<le> j \<and> j \<le> b))}"
  by (rule fused_beats_events)

section \<open>Revisions\<close>

text \<open>C36. \<open>HEAD~n\<close> names the state \<open>n\<close> lines back: replaying the last \<open>n\<close> lines of the lineage from
  it leads to the fork's current state; a walk past the base is refused.  This takes a whole
  lineage: it ends at a root, and no log of its forks returns to its anchor, as a snapshot
  makes it do.\<close>

theorem head_tilde_walks_back:
  assumes "sum_laws E" "continuity_log E r fork = Ok hist" "whole_lineage E r fork" "n < 2 ^ 64"
  shows "if n \<le> length hist
    then \<exists>rs t s st. resolve E r (''HEAD~'' @ show_nat n) fork = Ok rs \<and> rs_fork rs = fork \<and>
      rs_sum rs = ss_hexdigest E t \<and> sums_from E t (drop (length hist - n) (map snd hist)) = Ok s \<and>
      current_state E r fork = Ok st \<and> fs_sum_hex st = ss_hexdigest E s
    else resolve E r (''HEAD~'' @ show_nat n) fork = Err Invalid"
proof -
  from setsum.lineage_states_reached [OF setsum.intro [OF assms(1)] assms(2,3)] obtain points s st where
    p: "lineage_states E r fork = Ok points" "length points = Suc (length hist)"
      "current_state E r fork = Ok st" "fs_sum_hex st = ss_hexdigest E s" and
    at: "\<And>i. i < length points \<Longrightarrow> \<exists>t. sums_from E t (drop i (map snd hist)) = Ok s \<and>
       sp_sum (points ! i) = ss_hexdigest E t" by metis
  have "length hist - n < length points" using p(2) by simp
  from at [OF this] obtain t where
    "sums_from E t (drop (length hist - n) (map snd hist)) = Ok s"
    "sp_sum (points ! (length hist - n)) = ss_hexdigest E t" by blast
  then show ?thesis using resolve_head_tilde [OF p(1) assms(4)] p(2-4) by auto
qed

theorem head_tilde_walks_back_witness:
  "(\<exists>rs t s. resolve E3 g3 ''HEAD~1'' ''main'' = Ok rs \<and> rs_sum rs = ss_hexdigest E3 t \<and> sums_from E3 t [l3] = Ok s) \<and>
   resolve E3 g3 ''HEAD~2'' ''main'' = Err Invalid"
proof -
  have n: "''HEAD~'' @ show_nat 1 = ''HEAD~1''" "''HEAD~'' @ show_nat 2 = ''HEAD~2''" by code_simp+
  show ?thesis
    using head_tilde_walks_back [OF sum_laws_E3 g3_history g3_whole, of 1]
      head_tilde_walks_back [OF sum_laws_E3 g3_history g3_whole, of 2] unfolding n by auto
qed

text \<open>C37. A range \<open>A..B\<close> bounds the lines that take A's state to B's.  Its end is the point of B on B's
  lineage (or its start, when B lies before A); its start is the point of A on that lineage, or
  the base without an A; and the lines between the bounds, replayed on the state of the start,
  give the state of the end.  When no line occurs twice on the lineage, the point of B is the
  very state B resolves to.  The replay takes a whole lineage: it ends at a root, and no log of
  its forks returns to its anchor, as a snapshot makes it do.\<close>

theorem log_range_spans_its_states:
  assumes "sum_laws E" "log_range E r spec default_fork = Ok b" "continuity_log E r (lb_fork b) = Ok hist"
    "whole_lineage E r (lb_fork b)"
  shows "\<exists>left right right_r points stop t u. range_sides spec = Ok (left, right) \<and>
    resolve E r (or_head right) default_fork = Ok right_r \<and> lb_fork b = rs_fork right_r \<and>
    lineage_states E r (lb_fork b) = Ok points \<and> length points = Suc (length hist) \<and>
    names_point points right_r stop \<and> lb_end b = max stop (lb_start b) \<and>
    (distinct (map sp_line points) \<longrightarrow> sp_sum (points ! stop) = rs_sum right_r) \<and>
    (case left of
       None \<Rightarrow> lb_start b = 0
     | Some a \<Rightarrow> \<exists>left_r. resolve E r (or_head a) (lb_fork b) = Ok left_r \<and> names_point points left_r (lb_start b)) \<and>
    sp_sum (points ! lb_start b) = ss_hexdigest E t \<and> sp_sum (points ! lb_end b) = ss_hexdigest E u \<and>
    sums_from E t (drop (lb_start b) (take (lb_end b) (map snd hist))) = Ok u"
proof -
  from log_range_Ok [OF assms(2)] obtain left right right_r points stop where
    l: "range_sides spec = Ok (left, right)" "resolve E r (or_head right) default_fork = Ok right_r"
      "lb_fork b = rs_fork right_r" "lineage_states E r (lb_fork b) = Ok points" "state_position points right_r = Ok stop"
      "stop < length points" "lb_end b = max stop (lb_start b)" "lb_start b < length points"
    and a: "case left of None \<Rightarrow> lb_start b = 0
     | Some a \<Rightarrow> \<exists>left_r. resolve E r (or_head a) (lb_fork b) = Ok left_r \<and>
         state_position points left_r = Ok (lb_start b)" by blast
  have n: "length points = Suc (length hist)"
    using setsum.lineage_states_reached [OF setsum.intro [OF assms(1)] assms(3,4)] l(4) by auto
  have stop: "names_point points right_r stop" by (rule position_named [OF l(5,4)])
  have "distinct (map sp_line points) \<longrightarrow> sp_sum (points ! stop) = rs_sum right_r"
    using named_state [OF stop l(2)] l(3,4) by simp
  moreover have "case left of None \<Rightarrow> lb_start b = 0
     | Some a \<Rightarrow> \<exists>left_r. resolve E r (or_head a) (lb_fork b) = Ok left_r \<and> names_point points left_r (lb_start b)"
    using a position_named [OF _ l(4)] by (auto split: option.splits)
  moreover have "lb_end b < length points" "lb_start b \<le> lb_end b" using l(6-8) by auto
  ultimately show ?thesis
    using setsum.lineage_points_between [OF setsum.intro [OF assms(1)] l(4) assms(4,3), of "lb_start b" "lb_end b"] l n stop
    by blast
qed

theorem log_range_spans_its_states_witness:
  "\<exists>b t u. log_range E3 g3 (Some ''HEAD~1..HEAD'') ''main'' = Ok b \<and> lb_start b = 0 \<and> lb_end b = 1 \<and>
     sums_from E3 t [l3] = Ok u \<and> ss_hexdigest E3 u = o64"
proof -
  obtain b where b: "log_range E3 g3 (Some ''HEAD~1..HEAD'') ''main'' = Ok b" "lb_fork b = ''main''"
    "lb_start b = 0" "lb_end b = 1" using g3_range by blast
  from log_range_spans_its_states [OF sum_laws_E3 b(1), of "[(''main'', l3)]"] b g3_history g3_whole obtain points t u where
    p: "lineage_states E3 g3 ''main'' = Ok points" "sp_sum (points ! 1) = ss_hexdigest E3 u" "sums_from E3 t [l3] = Ok u"
    by auto
  have "sp_sum (points ! 1) = ll_sum_after l3"
    using p(1) g3_history by (auto simp: lineage_states_def Let_def line_point_def)
  with b p(2,3) show ?thesis by (auto simp: l3_def)
qed

section \<open>Blame\<close>

text \<open>C38. Blame renders the file as it is, each line under its own newest author.  When the lines'
  intents are what was applied, the path's blob is the bytes of a tagged text: the text the
  operations on the path make, in order, where a creation tags its bytes with its line, an edit
  tags the bytes it puts in the place of the one occurrence of its old text, and every other
  byte keeps its tag.  The output is that text's lines, one each in order, with the id of the
  newest tag among the bytes of that line (its line feed included); a path the state does not have is
  refused.\<close>

theorem blame_renders_the_file:
  assumes "authored E pool m_new hist m"
  shows "case m_get m path of
      None \<Rightarrow> blame_path path hist pool = Err Invalid
    | Some r \<Rightarrow> \<exists>content t ts. blob_get pool (er_blob r) = Ok content \<and>
        attributed pool path (numbered_ops (zip [0..<length hist] hist)) t \<and> map fst t = content \<and>
        concat ts = t \<and> map (map fst) ts = split_inclusive LF content \<and>
        blame_path path hist pool = Ok (map (\<lambda>l. \<lparr>bl_owner = ll_id (hist ! Max (snd ` set l)),
          bl_text = from_utf8_lossy (without_lf (map fst l))\<rparr>) ts)"
proof -
  have "tracks pool path m_new ([], [], False)" by (simp add: tracks_def m_new_def m_get_def)
  from follows_authored [OF assms _ this, of "[0..<length hist]"] obtain content owners ex where
    r: "blame_replay pool path hist = Ok (content, owners, ex)" "tracks pool path m (content, owners, ex)"
    by (auto simp: blame_replay_def m_new_def m_ok_def bt_ok_def)
  from replay_tagged [OF r(1)] have l: "length owners = length content"
    and a: "attributed pool path (numbered_ops (zip [0..<length hist] hist)) (zip content owners)"
    by (simp_all add: tagged_def)
  have b: "ex \<Longrightarrow> blame_path path hist pool =
      Ok (map (rendered_line hist) (tagged_lines_of content (zip content owners)))"
    "\<not> ex \<Longrightarrow> blame_path path hist pool = Err Invalid"
    using r(1) by (simp_all add: blame_path_def roll_up_rendered [OF l])
  show ?thesis
  proof (cases "m_get m path")
    case None
    with r(2) b(2) show ?thesis by (simp add: tracks_def)
  next
    case (Some x)
    with r(2) have "ex" "blob_get pool (er_blob x) = Ok content" by (simp_all add: tracks_def)
    with Some b(1) a tagged_lines_concat [of "zip content owners" content] tagged_lines_bytes [OF l] l show ?thesis
      by (auto simp: rendered_line_def intro!: exI [of _ "zip content owners"]
        exI [of _ "tagged_lines_of content (zip content owners)"])
  qed
qed

theorem blame_renders_the_file_witness:
  "blame_path ''/a'' [l3] (rp_pool g3) = Ok [\<lparr>bl_owner = z64, bl_text = ''x''\<rparr>]"
proof -
  from blame_renders_the_file [OF g3_authored, of "''/a''"] obtain content t ts where
    b: "blob_get (rp_pool g3) (er_blob r3) = Ok content"
      "attributed (rp_pool g3) ''/a'' (numbered_ops (zip [0..<length [l3]] [l3])) t" "map fst t = content" "concat ts = t"
      "map (map fst) ts = split_inclusive LF content"
    and o: "blame_path ''/a'' [l3] (rp_pool g3) = Ok (map (\<lambda>l. \<lparr>bl_owner = ll_id ([l3] ! Max (snd ` set l)),
          bl_text = from_utf8_lossy (without_lf (map fst l))\<rparr>) ts)"
    by (auto simp: m_get_def)
  have x: "content = ''x''" using b(1) by (auto simp: g3_forks blob_get_Ok r3_def)
  have "split_inclusive LF ''x'' = [''x'']" by code_simp
  with b(5) x obtain k where ts: "ts = [[(CHR ''x'', k)]]" by (auto simp: map_eq_Cons_conv)
  with b(4) attributed_owner [OF b(2), of "(CHR ''x'', k)"] have "k = 0" by auto
  moreover have "from_utf8_lossy (without_lf ''x'') = ''x''" by code_simp
  ultimately show ?thesis using o ts by (simp add: l3_def)
qed

lemma roll_up_longer_history:
  assumes "blame_replay pool path hist = Ok (content, owners, ex)"
  shows "roll_up_lines content owners (hist @ [l]) = roll_up_lines content owners hist"
proof -
  have o: "\<forall>k \<in> set owners. k < length hist"
    using replay_owners [OF assms] by blast
  have "emit_blamed content owners (hist @ [l]) x = emit_blamed content owners hist x" for x
  proof (cases x)
    case (Pair a b)
    have "Max (set (Span.slice a b owners)) < length hist" if ne: "Span.slice a b owners \<noteq> []"
    proof -
      have "set (Span.slice a b owners) \<subseteq> set owners"
        unfolding Span.slice_def by (meson set_drop_subset set_take_subset subset_trans)
      moreover have "Max (set (Span.slice a b owners)) \<in> set (Span.slice a b owners)" using ne by simp
      ultimately show ?thesis using o by blast
    qed
    then show ?thesis using Pair by (simp add: emit_blamed_def Let_def nth_append)
  qed
  then show ?thesis by (simp add: roll_up_lines_def)
qed

text \<open>C39. A line whose intent has no operations, as a repoint appends, moves the state but not the
  blame: it stays that of the state before.\<close>

theorem blame_misses_state_moves:
  assumes "ops (ll_intent l) = []" "blame_path path hist pool = Ok out"
  shows "blame_path path (hist @ [l]) pool = Ok out"
proof -
  from assms(2) obtain content owners where r: "blame_replay pool path hist = Ok (content, owners, True)"
    "out = roll_up_lines content owners hist" by (auto simp: blame_path_def split: if_splits)
  then show ?thesis
    using blame_skips_state_moves [OF assms(1), of pool path hist] roll_up_longer_history [OF r(1)]
    by (simp add: blame_path_def)
qed

theorem blame_misses_state_moves_witness:
  "\<exists>l. apply_realized_to_manifest [(''/a'', r3)] (ll_realized l) = Ok [] \<and>
     blame_path ''/a'' ([l3] @ [l]) (rp_pool g3) = Ok [\<lparr>bl_owner = z64, bl_text = ''x''\<rparr>]"
proof -
  define l where "l = l3\<lparr>ll_intent := \<lparr>ops = []\<rparr>, ll_realized := map swap_entry (realized rz3)\<rparr>"
  have "apply_realized_to_manifest [(''/a'', r3)] (map swap_entry (realized rz3)) = Ok []"
  proof -
    have "apply_realized_to_manifest [] (realized rz3) = Ok [(''/a'', r3)]" "length (realized rz3) = 1"
      using apply_intent_realizes [OF _ i3_applies] by (auto simp: m_ok_def bt_ok_def i3_def rz3_def)
    moreover from this(2) have "inverse_realized (realized rz3) = map swap_entry (realized rz3)"
      by (cases "realized rz3") (simp_all add: inverse_realized_def)
    ultimately show ?thesis using realized_inverse [of "[]" "realized rz3"] by (simp add: m_ok_def bt_ok_def)
  qed
  moreover have "ops (ll_intent l) = []" "ll_realized l = map swap_entry (realized rz3)" by (simp_all add: l_def)
  ultimately show ?thesis using blame_misses_state_moves [OF _ g3_blame, of l "rp_pool g3"]
    by (intro exI [of _ l]) simp
qed

end
